(* ===== verification/Prelude.thy ===== *)
theory Prelude
  imports Main "HOL-Library.Word"
begin

text \<open>
  Shared vocabulary of the development: the C integer types as machine words, the
  kernel's error numbers, the page arithmetic of \<^verbatim>\<open>asm/page.h\<close> and
  \<^verbatim>\<open>kernel/bitops.h\<close>, bounded index searches (the \<^verbatim>\<open>for\<close> loops over fixed
  arrays), and the generic lemmas on lists and words that the components use.
\<close>

unbundle bit_operations_syntax

named_theorems addr_defs \<open>constants of the address-space layout\<close>

section \<open>C integers and error numbers\<close>

type_synonym u8 = "8 word"
type_synonym u16 = "16 word"
type_synonym u32 = "32 word"
type_synonym u64 = "64 word"

datatype errno =
    EPERM | ENOENT | EINTR | EIO | E2BIG | EBADF | EAGAIN | ENOMEM | EACCES | EFAULT
  | EEXIST | EINVAL | EMFILE | ENOSPC | EPIPE | ENODATA | EOPNOTSUPP | ENAMETOOLONG
  | ESRCH | ECHILD | ENOTDIR | EISDIR | ENOTTY | ENOSYS | EOVERFLOW | ETIMEDOUT | EBUSY | ENODEV | ERANGE | ENXIO | EFBIG

section \<open>Pages\<close>

definition PAGE_SIZE :: u64 where [addr_defs]: "PAGE_SIZE = 4096"

definition PAGE_MASK :: u64 where "PAGE_MASK = NOT (PAGE_SIZE - 1)"

definition TASK_SIZE :: u64 where [addr_defs]: "TASK_SIZE = 0x80000000"

definition USER_STACK_SIZE :: u64 where [addr_defs]: "USER_STACK_SIZE = 64 * 1024"

definition USER_STACK_TOP :: u64 where [addr_defs]: "USER_STACK_TOP = TASK_SIZE"

definition USER_STACK_BASE :: u64 where [addr_defs]: "USER_STACK_BASE = USER_STACK_TOP - USER_STACK_SIZE"

definition ALIGN_UP :: "u64 \<Rightarrow> u64 \<Rightarrow> u64" where
  "ALIGN_UP x a = (x + (a - 1)) AND NOT (a - 1)"

definition ALIGN_DOWN :: "u64 \<Rightarrow> u64 \<Rightarrow> u64" where
  "ALIGN_DOWN x a = x AND NOT (a - 1)"

definition IS_ALIGNED :: "u64 \<Rightarrow> u64 \<Rightarrow> bool" where
  "IS_ALIGNED x a \<longleftrightarrow> x AND (a - 1) = 0"

section \<open>Searching a fixed array\<close>

text \<open>The least index whose element satisfies the predicate: \<^verbatim>\<open>for (i = 0; i < n; i++) if (P) return i;\<close>\<close>

primrec first_index :: "('a \<Rightarrow> bool) \<Rightarrow> 'a list \<Rightarrow> nat option" where
  "first_index P [] = None"
| "first_index P (x # xs) = (if P x then Some 0 else map_option Suc (first_index P xs))"

lemma first_index_None_iff: "first_index P xs = None \<longleftrightarrow> (\<forall>x \<in> set xs. \<not> P x)"
  by (induction xs) auto

lemma first_index_Some_iff:
  "first_index P xs = Some i \<longleftrightarrow> i < length xs \<and> P (xs ! i) \<and> (\<forall>k<i. \<not> P (xs ! k))"
proof (induction xs arbitrary: i)
  case Nil
  then show ?case by simp
next
  case (Cons x xs)
  show ?case
  proof (cases i)
    case 0
    then show ?thesis by auto
  next
    case (Suc k)
    then show ?thesis using Cons by (auto simp: less_Suc_eq_0_disj)
  qed
qed

lemma first_index_SomeD:
  "first_index P xs = Some i \<Longrightarrow> i < length xs \<and> P (xs ! i)"
  by (simp add: first_index_Some_iff)

lemma first_index_exists: "i < length xs \<Longrightarrow> P (xs ! i) \<Longrightarrow> \<exists>k. first_index P xs = Some k"
  by (cases "first_index P xs") (auto simp: first_index_None_iff)

lemma find_SomeD: "List.find P xs = Some x \<Longrightarrow> x \<in> set xs \<and> P x"
  by (induction xs) (auto split: if_splits)

lemma option_eqI: "(\<And>t. x = Some t \<longleftrightarrow> y = Some t) \<Longrightarrow> x = y"
  by (cases x; cases y) auto

section \<open>Counting in an updated array\<close>

definition count_if :: "('a \<Rightarrow> bool) \<Rightarrow> 'a list \<Rightarrow> nat" where
  "count_if P xs = length (filter P xs)"

lemma count_if_Cons [simp]: "count_if P (x # xs) = (if P x then 1 else 0) + count_if P xs"
  by (simp add: count_if_def)

lemma count_if_Nil [simp]: "count_if P [] = 0"
  by (simp add: count_if_def)

lemma count_if_update:
  "i < length xs \<Longrightarrow>
   count_if P (xs[i := y]) + (if P (xs ! i) then 1 else 0) = count_if P xs + (if P y then 1 else 0)"
proof (induction xs arbitrary: i)
  case Nil
  then show ?case by simp
next
  case (Cons x xs)
  then show ?case by (cases i) auto
qed

lemma count_if_pos: "i < length xs \<Longrightarrow> P (xs ! i) \<Longrightarrow> 0 < count_if P xs"
  by (auto simp: count_if_def filter_empty_conv)

lemma count_if_0_iff: "count_if P xs = 0 \<longleftrightarrow> (\<forall>i < length xs. \<not> P (xs ! i))"
  by (auto simp: count_if_def filter_empty_conv all_set_conv_all_nth)

lemma count_if_le_1:
  assumes "\<And>i j. i < length xs \<Longrightarrow> j < length xs \<Longrightarrow> P (xs ! i) \<Longrightarrow> P (xs ! j) \<Longrightarrow> i = j"
  shows "count_if P xs \<le> 1"
  using assms
proof (induction xs)
  case Nil
  then show ?case by simp
next
  case (Cons x xs)
  have "count_if P xs \<le> 1"
    by (rule Cons.IH) (metis Cons.prems Suc_less_eq length_Cons nth_Cons_Suc nat.inject)
  moreover have "P x \<Longrightarrow> count_if P xs = 0"
    unfolding count_if_0_iff using Cons.prems [of 0 "Suc i" for i] by fastforce
  ultimately show ?case by auto
qed

section \<open>Words as naturals\<close>

lemmas word_nat_order = word_less_nat_alt word_le_nat_alt

lemma unat_add_noov: "unat (a :: u64) + unat b < 2 ^ 64 \<Longrightarrow> unat (a + b) = unat a + unat b"
  by (simp add: unat_word_ariths)

lemma unat_add_mono_noov: "(a :: u64) < a + b \<Longrightarrow> unat (a + b) = unat a + unat b"
  by (metis unat_plus_if' not_less_iff_gr_or_eq order_less_imp_le unat_plus_simple)

lemma unat_sub_le: "(b :: u64) \<le> a \<Longrightarrow> unat (a - b) = unat a - unat b"
  by (simp add: unat_sub)

section \<open>Page loops\<close>

text \<open>
  The addresses visited by \<^verbatim>\<open>for (va = start; va < end; va += PAGE_SIZE)\<close>. The list stops where
  the 64-bit counter would wrap around; \<open>va_range_loop\<close> below shows that it is the C loop for every
  \<^verbatim>\<open>end\<close> that leaves room for one page, and every caller bounds \<^verbatim>\<open>end\<close> by \<^verbatim>\<open>TASK_SIZE\<close>.
\<close>

function va_range :: "u64 \<Rightarrow> u64 \<Rightarrow> u64 list" where
  "va_range va end' =
     (if va < end' then
        va # (if va < va + PAGE_SIZE then va_range (va + PAGE_SIZE) end' else [])
      else [])"
  by pat_completeness auto
termination
proof (relation "measure (\<lambda>(va, end'). unat end' - unat va)")
  fix va end' :: u64
  assume "va < end'" and "va < va + PAGE_SIZE"
  then show "((va + PAGE_SIZE, end'), va, end') \<in> measure (\<lambda>(va, end'). unat end' - unat va)"
    using unat_add_mono_noov [of va PAGE_SIZE] by (simp add: word_less_nat_alt)
qed simp

declare va_range.simps [simp del]

lemma va_range_loop:
  "end' \<le> - PAGE_SIZE \<Longrightarrow>
   va_range va end' = (if va < end' then va # va_range (va + PAGE_SIZE) end' else [])"
  unfolding va_range.simps [of va]
  by (simp add: PAGE_SIZE_def word_less_nat_alt word_le_nat_alt unat_word_ariths)

end
