(* ===== verification/Vma.thy ===== *)
theory Vma
  imports Prelude
begin

text \<open>
  The fixed-array VMA layer: \<^verbatim>\<open>mm/vma.c\<close>, the VMA part of \<^verbatim>\<open>mm/internal.h\<close> and
  \<^verbatim>\<open>find_vma\<close> of \<^verbatim>\<open>mm/mmap.c\<close>. The array \<^verbatim>\<open>mm->vma[NR_VMA]\<close> is a list of records and a
  \<^verbatim>\<open>struct vm_area_struct *\<close> into it is a slot number. The calls of \<^verbatim>\<open>file_get\<close> and
  \<^verbatim>\<open>file_put\<close> that an operation makes are returned in order as \<open>file_op\<close>s; no operation of
  this layer reads a file's reference count. \<^verbatim>\<open>BUG_ON\<close> is the result \<open>None\<close>.

  The lemmas show the array invariant \<open>vma_wf\<close> (areas non-empty, below \<open>TASK_SIZE\<close>, pairwise
  disjoint) is kept by every operation, and relate each operation to the address space it
  represents: \<open>aspace\<close>, a partial function from addresses to their attributes.
\<close>

section \<open>Data\<close>

type_synonym file_ptr = nat

datatype file_op = FileGet file_ptr | FilePut file_ptr

definition VM_READ :: u32 where "VM_READ = 1"
definition VM_WRITE :: u32 where "VM_WRITE = 2"
definition VM_EXEC :: u32 where "VM_EXEC = 4"

definition VMA_CODE :: u32 where "VMA_CODE = 1"
definition VMA_HEAP :: u32 where "VMA_HEAP = 2"
definition VMA_STACK :: u32 where "VMA_STACK = 4"
definition VMA_MMAP :: u32 where "VMA_MMAP = 8"

definition NR_VMA :: nat where "NR_VMA = 16"

record vm_area_struct =
  vm_start :: u64
  vm_end :: u64
  vm_flags :: u32
  vm_type :: u32
  vm_file :: "file_ptr option"
  vm_offset :: u64
  vm_shared :: bool
  used :: bool

type_synonym vmas = "vm_area_struct list"

definition vma_zero :: vm_area_struct where
  "vma_zero = \<lparr>vm_start = 0, vm_end = 0, vm_flags = 0, vm_type = 0, vm_file = None,
     vm_offset = 0, vm_shared = False, used = False\<rparr>"

section \<open>Operations\<close>

definition mm_page_align_up :: "u64 \<Rightarrow> u64" where
  "mm_page_align_up addr = ALIGN_UP addr PAGE_SIZE"

definition vma_offset_at :: "vm_area_struct \<Rightarrow> u64 \<Rightarrow> u64" where
  "vma_offset_at v va = vm_offset v + (va - vm_start v)"

definition vma_page_index :: "vm_area_struct \<Rightarrow> u64 \<Rightarrow> u64" where
  "vma_page_index v page_addr =
     (let base = vm_start v AND PAGE_MASK;
          file_base = vm_offset v AND PAGE_MASK
      in (file_base + (page_addr - base)) div PAGE_SIZE)"

definition vma_overlaps :: "vm_area_struct \<Rightarrow> u64 \<Rightarrow> u64 \<Rightarrow> bool" where
  "vma_overlaps v start end' \<longleftrightarrow> used v \<and> start < vm_end v \<and> end' > vm_start v"

definition vma_contains_split_addr :: "vm_area_struct \<Rightarrow> u64 \<Rightarrow> bool" where
  "vma_contains_split_addr v addr \<longleftrightarrow> used v \<and> addr > vm_start v \<and> addr < vm_end v"

definition vma_is_anonymous :: "vm_area_struct \<Rightarrow> bool" where
  "vma_is_anonymous v \<longleftrightarrow> vm_file v = None \<and>
     (vm_type v = VMA_HEAP \<or> vm_type v = VMA_STACK \<or> vm_type v = VMA_MMAP)"

definition vma_covers_range :: "vm_area_struct option \<Rightarrow> u64 \<Rightarrow> u64 \<Rightarrow> bool" where
  "vma_covers_range vo start end' =
     (case vo of None \<Rightarrow> False
      | Some v \<Rightarrow> used v \<and> start \<ge> vm_start v \<and> end' \<le> vm_end v)"

definition find_vma :: "vmas \<Rightarrow> u64 \<Rightarrow> nat option" where
  "find_vma vs addr = first_index (\<lambda>v. used v \<and> addr \<ge> vm_start v \<and> addr < vm_end v) vs"

definition mm_range_end_page_aligned :: "u64 \<Rightarrow> u64 \<Rightarrow> errno + u64" where
  "mm_range_end_page_aligned start length' =
     (if length' > TASK_SIZE then Inl EINVAL
      else let aligned_len = mm_page_align_up length' in
        if aligned_len = 0 \<or> start + aligned_len < start then Inl EINVAL
        else if start + aligned_len > TASK_SIZE then Inl EINVAL
        else Inr (start + aligned_len))"

definition vma_alloc_slot :: "vmas \<Rightarrow> nat option" where
  "vma_alloc_slot vs = first_index (\<lambda>v. \<not> used v) vs"

definition file_put_op :: "file_ptr option \<Rightarrow> file_op list" where
  "file_put_op fo = (case fo of None \<Rightarrow> [] | Some f \<Rightarrow> [FilePut f])"

definition vma_free_slot :: "vmas \<Rightarrow> nat \<Rightarrow> vmas \<times> file_op list" where
  "vma_free_slot vs i = (vs[i := vma_zero], file_put_op (vm_file (vs ! i)))"

definition vma_free_slot_count :: "vmas \<Rightarrow> nat" where
  "vma_free_slot_count vs = length (filter (\<lambda>v. \<not> used v) vs)"

definition vma_range_overlaps :: "vmas \<Rightarrow> u64 \<Rightarrow> u64 \<Rightarrow> bool" where
  "vma_range_overlaps vs start end' \<longleftrightarrow> list_ex (\<lambda>v. vma_overlaps v start end') vs"

definition vma_range_overlaps_other :: "vmas \<Rightarrow> nat \<Rightarrow> u64 \<Rightarrow> u64 \<Rightarrow> bool" where
  "vma_range_overlaps_other vs skip start end' \<longleftrightarrow>
     list_ex (\<lambda>i. i \<noteq> skip \<and> vma_overlaps (vs ! i) start end') [0..<length vs]"

definition vma_can_merge :: "vm_area_struct \<Rightarrow> vm_area_struct \<Rightarrow> bool" where
  "vma_can_merge a b =
     (if \<not> used a \<or> \<not> used b then False
      else if vm_flags a \<noteq> vm_flags b \<or> vm_type a \<noteq> vm_type b then False
      else if vm_file a \<noteq> vm_file b \<or> vm_shared a \<noteq> vm_shared b then False
      else if vm_file a \<noteq> None then
        (if vm_end a = vm_start b then vma_offset_at a (vm_end a) = vm_offset b
         else if vm_end b = vm_start a then vma_offset_at b (vm_end b) = vm_offset a
         else False)
      else vm_end a = vm_start b \<or> vm_end b = vm_start a)"

text \<open>The nested loops of \<^verbatim>\<open>vma_merge_all\<close> stop at the first pair in row-major order.\<close>

definition vma_merge_pair :: "vmas \<Rightarrow> (nat \<times> nat) option" where
  "vma_merge_pair vs = List.find (\<lambda>(i, j). i \<noteq> j \<and> vma_can_merge (vs ! i) (vs ! j))
     (List.product [0..<length vs] [0..<length vs])"

definition vma_merge_into :: "vmas \<Rightarrow> nat \<Rightarrow> nat \<Rightarrow> vmas \<times> file_op list" where
  "vma_merge_into vs i j =
     (let a = vs ! i; b = vs ! j;
          a' = (if vm_end a = vm_start b then a\<lparr>vm_end := vm_end b\<rparr>
                else a\<lparr>vm_start := vm_start b\<rparr>)
      in vma_free_slot (vs[i := a']) j)"

lemma vma_merge_pair_SomeD:
  assumes "vma_merge_pair vs = Some (i, j)"
  shows "i < length vs" "j < length vs" "i \<noteq> j" "vma_can_merge (vs ! i) (vs ! j)"
  using find_SomeD [OF assms [unfolded vma_merge_pair_def]] by (auto simp: set_product)

lemma vma_can_mergeD:
  "vma_can_merge a b \<Longrightarrow> used a \<and> used b \<and> vm_flags a = vm_flags b \<and> vm_type a = vm_type b \<and>
     vm_file a = vm_file b \<and> vm_shared a = vm_shared b \<and> (vm_end a = vm_start b \<or> vm_end b = vm_start a)"
  by (auto simp: vma_can_merge_def split: if_splits)

definition used_slots :: "vmas \<Rightarrow> nat set" where
  "used_slots vs = {i. i < length vs \<and> used (vs ! i)}"

lemma used_slots_merge_into:
  assumes "vma_merge_pair vs = Some (i, j)"
  shows "used_slots (fst (vma_merge_into vs i j)) = used_slots vs - {j}"
proof -
  note d = vma_merge_pair_SomeD [OF assms]
  have "used (vs ! i)" using vma_can_mergeD [OF d(4)] by simp
  then show ?thesis
    using d by (auto simp: used_slots_def vma_merge_into_def vma_free_slot_def vma_zero_def Let_def
        nth_list_update split: if_splits)
qed

lemma card_used_slots_merge_into:
  assumes "vma_merge_pair vs = Some (i, j)"
  shows "card (used_slots (fst (vma_merge_into vs i j))) < card (used_slots vs)"
proof -
  have "j \<in> used_slots vs"
    using vma_merge_pair_SomeD [OF assms] by (auto simp: used_slots_def dest: vma_can_mergeD)
  moreover have "finite (used_slots vs)" by (simp add: used_slots_def)
  ultimately show ?thesis
    by (simp only: used_slots_merge_into [OF assms] card_Diff1_less)
qed

function vma_merge_all :: "vmas \<Rightarrow> vmas \<times> file_op list" where
  "vma_merge_all vs =
     (case vma_merge_pair vs of
        None \<Rightarrow> (vs, [])
      | Some (i, j) \<Rightarrow>
          let (vs1, ops1) = vma_merge_into vs i j;
              (vs2, ops2) = vma_merge_all vs1
          in (vs2, ops1 @ ops2))"
  by pat_completeness auto
termination
proof (relation "measure (\<lambda>vs. card (used_slots vs))")
  fix vs p i j q vs1 ops1
  assume "vma_merge_pair vs = Some p" "(i, j) = p" "q = vma_merge_into vs i j" "(vs1, ops1) = q"
  then show "(vs1, vs) \<in> measure (\<lambda>vs. card (used_slots vs))"
    using card_used_slots_merge_into [of vs i j] by (simp add: prod_eq_iff)
qed simp

declare vma_merge_all.simps [simp del]

definition vma_split_at :: "vmas \<Rightarrow> nat \<Rightarrow> u64 \<Rightarrow> (errno + unit) \<times> vmas \<times> file_op list" where
  "vma_split_at vs i addr =
     (if \<not> vma_contains_split_addr (vs ! i) addr then (Inr (), vs, [])
      else case vma_alloc_slot vs of
        None \<Rightarrow> (Inl ENOMEM, vs, [])
      | Some t \<Rightarrow>
          let v = vs ! i;
              tail = (case vm_file v of None \<Rightarrow> v | Some f \<Rightarrow> v\<lparr>vm_offset := vma_offset_at v addr\<rparr>);
              ops = (case vm_file v of None \<Rightarrow> [] | Some f \<Rightarrow> [FileGet f])
          in (Inr (), vs[t := tail\<lparr>vm_start := addr\<rparr>, i := v\<lparr>vm_end := addr\<rparr>], ops))"

definition vma_munmap_slots_needed :: "vmas \<Rightarrow> u64 \<Rightarrow> u64 \<Rightarrow> nat" where
  "vma_munmap_slots_needed vs start end' =
     sum_list (map (\<lambda>v.
       if \<not> vma_overlaps v start end' then 0
       else let unmap_start = (if start > vm_start v then start else vm_start v);
                unmap_end = (if end' < vm_end v then end' else vm_end v)
            in if unmap_start > vm_start v \<and> unmap_end < vm_end v then 1 else 0) vs)"

definition vma_mprotect_slots_needed :: "vmas \<Rightarrow> u64 \<Rightarrow> u64 \<Rightarrow> nat" where
  "vma_mprotect_slots_needed vs start end' =
     sum_list (map (\<lambda>v.
       if \<not> vma_overlaps v start end' then 0
       else (if vma_contains_split_addr v start then 1 else 0) +
            (if vma_contains_split_addr v end' then 1 else 0)) vs)"

definition vma_range_is_mapped :: "vmas \<Rightarrow> u64 \<Rightarrow> u64 \<Rightarrow> bool" where
  "vma_range_is_mapped vs start end' \<longleftrightarrow> list_all (\<lambda>va. find_vma vs va \<noteq> None) (va_range start end')"

text \<open>One of the two loops of \<^verbatim>\<open>vma_split_range\<close>, over the slots still to visit.\<close>

fun vma_split_slots :: "vmas \<Rightarrow> nat list \<Rightarrow> u64 \<Rightarrow> (errno + unit) \<times> vmas \<times> file_op list" where
  "vma_split_slots vs [] addr = (Inr (), vs, [])"
| "vma_split_slots vs (i # is) addr =
     (case vma_split_at vs i addr of
        (Inl e, vs1, ops1) \<Rightarrow> (Inl e, vs1, ops1)
      | (Inr _, vs1, ops1) \<Rightarrow>
          (case vma_split_slots vs1 is addr of (r, vs2, ops2) \<Rightarrow> (r, vs2, ops1 @ ops2)))"

definition vma_split_range :: "vmas \<Rightarrow> u64 \<Rightarrow> u64 \<Rightarrow> (errno + unit) \<times> vmas \<times> file_op list" where
  "vma_split_range vs start end' =
     (case vma_split_slots vs [0..<length vs] start of
        (Inl e, vs1, ops1) \<Rightarrow> (Inl e, vs1, ops1)
      | (Inr _, vs1, ops1) \<Rightarrow>
          (case vma_split_slots vs1 [0..<length vs1] end' of
             (r, vs2, ops2) \<Rightarrow> (r, vs2, ops1 @ ops2)))"

definition vma_update_flags_range :: "vmas \<Rightarrow> u64 \<Rightarrow> u64 \<Rightarrow> u32 \<Rightarrow> vmas" where
  "vma_update_flags_range vs start end' flags =
     map (\<lambda>v. if \<not> used v then v
               else if vm_start v \<ge> start \<and> vm_end v \<le> end' then v\<lparr>vm_flags := flags\<rparr> else v) vs"

text \<open>
  \<^verbatim>\<open>vma_unmap_range\<close> returns 0 (no overlap) or 1, the array, the file operations and the trimmed
  interval of the out-parameters; its \<^verbatim>\<open>BUG_ON(!right || right == vma)\<close> is \<open>None\<close>.
\<close>

definition vma_unmap_range ::
  "vmas \<Rightarrow> nat \<Rightarrow> u64 \<Rightarrow> u64 \<Rightarrow> ((errno + nat) \<times> vmas \<times> file_op list \<times> (u64 \<times> u64) option) option" where
  "vma_unmap_range vs i start end' =
     (let v = vs ! i in
      if \<not> vma_overlaps v start end' then Some (Inr 0, vs, [], None)
      else
        let trim_start = (if start > vm_start v then start else vm_start v);
            trim_end = (if end' < vm_end v then end' else vm_end v);
            out = Some (trim_start, trim_end)
        in
        if trim_start = vm_start v \<and> trim_end = vm_end v then
          (case vma_free_slot vs i of (vs1, ops) \<Rightarrow> Some (Inr 1, vs1, ops, out))
        else if trim_start = vm_start v then
          let v1 = (if vm_file v \<noteq> None then v\<lparr>vm_offset := vma_offset_at v trim_end\<rparr> else v)
          in Some (Inr 1, vs[i := v1\<lparr>vm_start := trim_end\<rparr>], [], out)
        else if trim_end = vm_end v then
          Some (Inr 1, vs[i := v\<lparr>vm_end := trim_start\<rparr>], [], out)
        else
          (case vma_split_at vs i trim_start of
             (Inl e, vs1, ops) \<Rightarrow> Some (Inl e, vs1, ops, out)
           | (Inr _, vs1, ops) \<Rightarrow>
               (case find_vma vs1 trim_start of
                  None \<Rightarrow> None
                | Some r \<Rightarrow>
                    if r = i then None
                    else
                      let right = vs1 ! r;
                          right1 = (if vm_file right \<noteq> None
                                    then right\<lparr>vm_offset := vma_offset_at right trim_end\<rparr> else right)
                      in Some (Inr 1, vs1[r := right1\<lparr>vm_start := trim_end\<rparr>], ops, out))))"

section \<open>The invariant and the address space an array represents\<close>

text \<open>Concrete areas for the examples.\<close>

definition ex_vma :: "u64 \<Rightarrow> u64 \<Rightarrow> u32 \<Rightarrow> file_ptr option \<Rightarrow> u64 \<Rightarrow> vm_area_struct" where
  "ex_vma s e fl f off = \<lparr>vm_start = s, vm_end = e, vm_flags = fl, vm_type = VMA_MMAP, vm_file = f,
     vm_offset = off, vm_shared = False, used = True\<rparr>"

definition ex_backward :: vmas where
  "ex_backward = ex_vma 0x5000 0x6000 VM_READ (Some 7) 0x1000 #
     ex_vma 0x4000 0x5000 VM_READ (Some 7) 0 # replicate 14 vma_zero"

definition in_vma :: "vm_area_struct \<Rightarrow> u64 \<Rightarrow> bool" where
  "in_vma v a \<longleftrightarrow> used v \<and> vm_start v \<le> a \<and> a < vm_end v"

definition vma_ok :: "vm_area_struct \<Rightarrow> bool" where
  "vma_ok v \<longleftrightarrow> (if used v then vm_start v < vm_end v \<and> vm_end v \<le> TASK_SIZE else vm_file v = None)"

definition vma_disjoint :: "vm_area_struct \<Rightarrow> vm_area_struct \<Rightarrow> bool" where
  "vma_disjoint a b \<longleftrightarrow> (used a \<longrightarrow> used b \<longrightarrow> vm_end a \<le> vm_start b \<or> vm_end b \<le> vm_start a)"

definition vma_wf :: "vmas \<Rightarrow> bool" where
  "vma_wf vs \<longleftrightarrow> list_all vma_ok vs \<and> sorted_wrt vma_disjoint vs"

type_synonym attr = "u32 \<times> u32 \<times> file_ptr option \<times> bool \<times> u64"

definition vma_attr :: "vm_area_struct \<Rightarrow> u64 \<Rightarrow> attr" where
  "vma_attr v a = (vm_flags v, vm_type v, vm_file v, vm_shared v,
     if vm_file v = None then 0 else vma_offset_at v a)"

definition aspace :: "vmas \<Rightarrow> u64 \<Rightarrow> attr option" where
  "aspace vs a = map_option (\<lambda>i. vma_attr (vs ! i) a) (find_vma vs a)"

lemma vma_disjoint_sym: "vma_disjoint x y \<longleftrightarrow> vma_disjoint y x"
  by (auto simp: vma_disjoint_def)

lemma vma_wf_nth:
  "vma_wf vs \<longleftrightarrow> (\<forall>i < length vs. vma_ok (vs ! i)) \<and>
     (\<forall>i < length vs. \<forall>j < length vs. i \<noteq> j \<longrightarrow> vma_disjoint (vs ! i) (vs ! j))"
  unfolding vma_wf_def sorted_wrt_iff_nth_less list_all_length
  by (metis linorder_neqE_nat order_less_trans vma_disjoint_sym nat_neq_iff)

lemma vma_wfD:
  assumes "vma_wf vs"
  shows "i < length vs \<Longrightarrow> vma_ok (vs ! i)"
    and "i < length vs \<Longrightarrow> j < length vs \<Longrightarrow> i \<noteq> j \<Longrightarrow> vma_disjoint (vs ! i) (vs ! j)"
  using assms by (auto simp: vma_wf_nth)

lemma in_vma_unique:
  assumes "vma_wf vs" "i < length vs" "j < length vs" "in_vma (vs ! i) a" "in_vma (vs ! j) a"
  shows "i = j"
proof (rule ccontr)
  assume "i \<noteq> j"
  then have "vma_disjoint (vs ! i) (vs ! j)" by (rule vma_wfD(2) [OF assms(1-3)])
  then show False using assms(4,5) by (auto simp: vma_disjoint_def in_vma_def word_nat_order)
qed

lemma find_vma_SomeD: "find_vma vs a = Some i \<Longrightarrow> i < length vs \<and> in_vma (vs ! i) a"
  by (auto simp: find_vma_def in_vma_def dest: first_index_SomeD)

lemma find_vma_Some_iff:
  assumes "vma_wf vs"
  shows "find_vma vs a = Some i \<longleftrightarrow> i < length vs \<and> in_vma (vs ! i) a"
proof
  assume "find_vma vs a = Some i"
  then show "i < length vs \<and> in_vma (vs ! i) a"
    by (auto simp: find_vma_def in_vma_def dest: first_index_SomeD)
next
  assume i: "i < length vs \<and> in_vma (vs ! i) a"
  then obtain k where k: "find_vma vs a = Some k"
    using first_index_exists [of i vs "\<lambda>v. used v \<and> a \<ge> vm_start v \<and> a < vm_end v"]
    by (auto simp: find_vma_def in_vma_def)
  then have "k < length vs" "in_vma (vs ! k) a"
    by (auto simp: find_vma_def in_vma_def dest: first_index_SomeD)
  with i k show "find_vma vs a = Some i" using in_vma_unique [OF assms] by blast
qed

lemma find_vma_None_iff: "find_vma vs a = None \<longleftrightarrow> (\<forall>i < length vs. \<not> in_vma (vs ! i) a)"
  by (auto simp: find_vma_def in_vma_def first_index_None_iff all_set_conv_all_nth)

lemma aspace_Some_iff:
  "vma_wf vs \<Longrightarrow> aspace vs a = Some t \<longleftrightarrow> (\<exists>i < length vs. in_vma (vs ! i) a \<and> t = vma_attr (vs ! i) a)"
  by (auto simp: aspace_def find_vma_Some_iff)

lemma aspace_eqI:
  assumes "vma_wf vs" "vma_wf ws"
    and "\<And>t. (\<exists>i < length vs. in_vma (vs ! i) a \<and> t = vma_attr (vs ! i) a) \<longleftrightarrow>
              (\<exists>i < length ws. in_vma (ws ! i) a \<and> t = vma_attr (ws ! i) a)"
  shows "aspace vs a = aspace ws a"
  by (rule option_eqI) (simp add: aspace_Some_iff assms)

definition vma_tail :: "vm_area_struct \<Rightarrow> u64 \<Rightarrow> vm_area_struct" where
  "vma_tail v addr = (case vm_file v of None \<Rightarrow> v | Some f \<Rightarrow> v\<lparr>vm_offset := vma_offset_at v addr\<rparr>)\<lparr>vm_start := addr\<rparr>"

lemma vma_tail_simps [simp]:
  "vm_start (vma_tail v a) = a" "vm_end (vma_tail v a) = vm_end v" "used (vma_tail v a) = used v"
  "vm_file (vma_tail v a) = vm_file v" "vm_flags (vma_tail v a) = vm_flags v"
  "vm_type (vma_tail v a) = vm_type v" "vm_shared (vma_tail v a) = vm_shared v"
  by (auto simp: vma_tail_def split: option.splits)

lemma vma_attr_tail [simp]: "vma_attr (vma_tail v c) a = vma_attr v a"
  by (auto simp: vma_attr_def vma_offset_at_def vma_tail_def split: option.splits)

lemma vma_attr_end [simp]: "vma_attr (v\<lparr>vm_end := c\<rparr>) a = vma_attr v a"
  by (auto simp: vma_attr_def vma_offset_at_def)

lemma vma_split_at_Some:
  "vma_contains_split_addr (vs ! i) addr \<Longrightarrow> vma_alloc_slot vs = Some t \<Longrightarrow>
   vma_split_at vs i addr =
     (Inr (), vs[t := vma_tail (vs ! i) addr, i := (vs ! i)\<lparr>vm_end := addr\<rparr>],
      case vm_file (vs ! i) of None \<Rightarrow> [] | Some f \<Rightarrow> [FileGet f])"
  by (simp add: vma_split_at_def vma_tail_def Let_def)

lemma vma_alloc_slot_SomeD: "vma_alloc_slot vs = Some t \<Longrightarrow> t < length vs \<and> \<not> used (vs ! t)"
  by (auto simp: vma_alloc_slot_def dest: first_index_SomeD)

lemma wf_update:
  assumes wf: "vma_wf vs" and ok: "vma_ok v"
    and dj: "\<And>k. k < length vs \<Longrightarrow> k \<noteq> i \<Longrightarrow> vma_disjoint v (vs ! k)"
  shows "vma_wf (vs[i := v])"
proof (cases "i < length vs")
  case True
  have "vma_disjoint x y \<longleftrightarrow> vma_disjoint y x" for x y by (auto simp: vma_disjoint_def)
  with True show ?thesis
    using wf ok dj by (simp add: vma_wf_nth nth_list_update)
next
  case False
  then show ?thesis using wf by (simp add: list_update_beyond)
qed

lemma aspace_update:
  assumes wf: "vma_wf vs" and wf': "vma_wf (vs[i := v])" and i: "i < length vs"
  shows "aspace (vs[i := v]) a =
    (if in_vma v a then Some (vma_attr v a) else if in_vma (vs ! i) a then None else aspace vs a)"
proof (rule option_eqI)
  fix t
  have other: "in_vma (vs ! i) a \<Longrightarrow> k < length vs \<Longrightarrow> in_vma (vs ! k) a \<Longrightarrow> k = i" for k
    using in_vma_unique [OF wf] i by blast
  have other': "in_vma v a \<Longrightarrow> k < length vs \<Longrightarrow> k \<noteq> i \<Longrightarrow> \<not> in_vma (vs ! k) a" for k
    using in_vma_unique [OF wf', of i k a] i by (auto simp: nth_list_update)
  show "(aspace (vs[i := v]) a = Some t) =
    ((if in_vma v a then Some (vma_attr v a) else if in_vma (vs ! i) a then None else aspace vs a) = Some t)"
    unfolding aspace_Some_iff [OF wf']
    using i other other' by (auto simp: aspace_Some_iff [OF wf] nth_list_update split: if_splits)
qed

lemma vma_disjoint_inside:
  "vma_disjoint w x \<Longrightarrow> used w \<Longrightarrow> vm_start w \<le> vm_start v \<Longrightarrow> vm_end v \<le> vm_end w \<Longrightarrow> vma_disjoint v x"
  by (auto simp: vma_disjoint_def word_nat_order)

text \<open>An area may be replaced by one inside it.\<close>

lemma shrink_wf:
  assumes "vma_wf vs" "i < length vs" "used (vs ! i)"
    and "vm_start (vs ! i) \<le> vm_start v" "vm_end v \<le> vm_end (vs ! i)" "vma_ok v"
  shows "vma_wf (vs[i := v])"
proof (rule wf_update [OF assms(1)])
  show "vma_ok v" by fact
  show "vma_disjoint v (vs ! k)" if "k < length vs" "k \<noteq> i" for k
    using vma_disjoint_inside [OF vma_wfD(2) [OF assms(1,2) that(1)]] that(2) assms(3-5) by blast
qed

lemma split_wf:
  assumes wf: "vma_wf vs" and i: "i < length vs" and t: "t < length vs" "\<not> used (vs ! t)"
    and c: "vma_contains_split_addr (vs ! i) c"
  shows "vma_wf (vs[i := (vs ! i)\<lparr>vm_end := c\<rparr>])"
    and "vma_wf (vs[i := (vs ! i)\<lparr>vm_end := c\<rparr>, t := vma_tail (vs ! i) c])"
proof -
  let ?ws = "vs[i := (vs ! i)\<lparr>vm_end := c\<rparr>]"
  from c have u: "used (vs ! i)" and ci: "vm_start (vs ! i) < c" "c < vm_end (vs ! i)"
    by (auto simp: vma_contains_split_addr_def)
  have "vma_ok ((vs ! i)\<lparr>vm_end := c\<rparr>)"
    using vma_wfD(1) [OF wf i] u ci by (auto simp: vma_ok_def word_nat_order)
  then show wf': "vma_wf ?ws" by (intro shrink_wf [OF wf i u]) (use ci in auto)
  show "vma_wf (?ws[t := vma_tail (vs ! i) c])"
  proof (rule wf_update [OF wf'])
    show "vma_ok (vma_tail (vs ! i) c)" using vma_wfD(1) [OF wf i] u ci by (auto simp: vma_ok_def)
    show "vma_disjoint (vma_tail (vs ! i) c) (?ws ! k)" if "k < length ?ws" "k \<noteq> t" for k
    proof (cases "k = i")
      case True
      then show ?thesis using i by (simp add: vma_disjoint_def)
    next
      case False
      then show ?thesis
        using vma_disjoint_inside [OF vma_wfD(2) [OF wf i, of k] u] that ci by (auto simp: less_imp_le)
    qed
  qed
qed

lemma split_aspace:
  assumes wf: "vma_wf vs" and i: "i < length vs" and t: "t < length vs" "\<not> used (vs ! t)"
    and c: "vma_contains_split_addr (vs ! i) c"
  shows "aspace (vs[i := (vs ! i)\<lparr>vm_end := c\<rparr>, t := vma_tail (vs ! i) c]) a = aspace vs a"
proof -
  have ti: "t \<noteq> i" using c t by (auto simp: vma_contains_split_addr_def)
  have "in_vma (vs ! i) a \<Longrightarrow> aspace vs a = Some (vma_attr (vs ! i) a)"
    using aspace_Some_iff [OF wf] i by blast
  then show ?thesis
    using c i t ti
    by (auto simp: aspace_update [OF split_wf [OF assms]] aspace_update [OF wf split_wf(1) [OF assms]]
       in_vma_def vma_contains_split_addr_def)
qed

section \<open>Splitting\<close>

definition vma_file_refs :: "vmas \<Rightarrow> file_ptr \<Rightarrow> nat" where
  "vma_file_refs vs f = count_if (\<lambda>v. vm_file v = Some f) vs"

definition split_count :: "vmas \<Rightarrow> u64 \<Rightarrow> nat" where
  "split_count vs c = count_if (\<lambda>v. vma_contains_split_addr v c) vs"

fun ops_delta :: "file_op list \<Rightarrow> file_ptr \<Rightarrow> int" where
  "ops_delta [] f = 0"
| "ops_delta (FileGet g # ops) f = (if g = f then 1 else 0) + ops_delta ops f"
| "ops_delta (FilePut g # ops) f = (if g = f then - 1 else 0) + ops_delta ops f"

lemma ops_delta_append [simp]: "ops_delta (xs @ ys) f = ops_delta xs f + ops_delta ys f"
  by (induction xs f rule: ops_delta.induct) auto

lemma vma_free_slot_count_eq: "vma_free_slot_count vs = count_if (\<lambda>v. \<not> used v) vs"
  by (simp add: vma_free_slot_count_def count_if_def)

lemma vma_alloc_slot_None_iff: "vma_alloc_slot vs = None \<longleftrightarrow> vma_free_slot_count vs = 0"
  by (auto simp: vma_alloc_slot_def first_index_None_iff vma_free_slot_count_def filter_empty_conv)

lemma split_at_cases:
  obtains (none) "\<not> vma_contains_split_addr (vs ! i) c" "vma_split_at vs i c = (Inr (), vs, [])"
  | (full) "vma_contains_split_addr (vs ! i) c" "vma_alloc_slot vs = None"
      "vma_split_at vs i c = (Inl ENOMEM, vs, [])"
  | (split) t where "vma_contains_split_addr (vs ! i) c" "t < length vs" "\<not> used (vs ! t)" "t \<noteq> i"
      "vma_split_at vs i c = (Inr (), vs[i := (vs ! i)\<lparr>vm_end := c\<rparr>, t := vma_tail (vs ! i) c],
         case vm_file (vs ! i) of None \<Rightarrow> [] | Some f \<Rightarrow> [FileGet f])"
proof (cases "vma_contains_split_addr (vs ! i) c")
  case False
  then show ?thesis by (intro none) (simp_all add: vma_split_at_def)
next
  case True
  show ?thesis
  proof (cases "vma_alloc_slot vs")
    case None
    with True show ?thesis by (intro full) (simp_all add: vma_split_at_def)
  next
    case (Some t)
    then have t: "t < length vs" "\<not> used (vs ! t)" by (auto dest: vma_alloc_slot_SomeD)
    moreover from t True have "t \<noteq> i" by (auto simp: vma_contains_split_addr_def)
    ultimately show ?thesis
      using True Some by (intro split) (auto simp: vma_split_at_Some list_update_swap)
  qed
qed

text \<open>What one split does to the counters the callers budget with.\<close>

lemma split_counts:
  assumes wf: "vma_wf vs" and i: "i < length vs" and t: "t < length vs" "\<not> used (vs ! t)" "t \<noteq> i"
    and c: "vma_contains_split_addr (vs ! i) c"
  defines "ws \<equiv> vs[i := (vs ! i)\<lparr>vm_end := c\<rparr>, t := vma_tail (vs ! i) c]"
  shows "vma_free_slot_count ws + 1 = vma_free_slot_count vs"
    and "int (vma_file_refs ws f) = int (vma_file_refs vs f) + (if vm_file (vs ! i) = Some f then 1 else 0)"
    and "split_count ws c + 1 = split_count vs c"
    and "d \<noteq> c \<Longrightarrow> split_count ws d = split_count vs d"
proof -
  let ?v = "(vs ! i)\<lparr>vm_end := c\<rparr>"
  have u: "used (vs ! i)" using c by (simp add: vma_contains_split_addr_def)
  have ft: "vm_file (vs ! t) = None" using vma_wfD(1) [OF wf t(1)] t by (simp add: vma_ok_def)
  note upd = count_if_update [OF i, of _ ?v] count_if_update [of t "vs[i := ?v]" _ "vma_tail (vs ! i) c"]
  show "vma_free_slot_count ws + 1 = vma_free_slot_count vs"
    using upd [of "\<lambda>v. \<not> used v"] t u by (simp add: ws_def vma_free_slot_count_eq)
  show "int (vma_file_refs ws f) = int (vma_file_refs vs f) + (if vm_file (vs ! i) = Some f then 1 else 0)"
    using upd [of "\<lambda>v. vm_file v = Some f"] t ft by (simp add: ws_def vma_file_refs_def split: if_splits)
  show "split_count ws c + 1 = split_count vs c"
    using upd [of "\<lambda>v. vma_contains_split_addr v c"] t c
    by (simp add: ws_def split_count_def vma_contains_split_addr_def split: if_splits)
  show "split_count ws d = split_count vs d" if "d \<noteq> c"
    using upd [of "\<lambda>v. vma_contains_split_addr v d"] t c that
    by (auto simp: ws_def split_count_def vma_contains_split_addr_def word_nat_order word_unat_eq_iff split: if_splits)
qed

text \<open>A state change that keeps the invariant, the array size and the represented address space,
  and whose file operations account for the references the slots hold.\<close>

definition vma_refines :: "vmas \<Rightarrow> vmas \<Rightarrow> file_op list \<Rightarrow> bool" where
  "vma_refines vs ws ops \<longleftrightarrow> vma_wf ws \<and> length ws = length vs \<and> aspace ws = aspace vs \<and>
     (\<forall>f. int (vma_file_refs ws f) = int (vma_file_refs vs f) + ops_delta ops f)"

lemma vma_refines_refl [simp]: "vma_wf vs \<Longrightarrow> vma_refines vs vs []"
  by (simp add: vma_refines_def)

lemma vma_refines_trans:
  "vma_refines vs ws ops1 \<Longrightarrow> vma_refines ws xs ops2 \<Longrightarrow> vma_refines vs xs (ops1 @ ops2)"
  by (simp add: vma_refines_def)

lemma vma_split_at_refines:
  assumes wf: "vma_wf vs" and i: "i < length vs" and eq: "vma_split_at vs i c = (r, ws, ops)"
  shows "vma_refines vs ws ops"
proof (cases rule: split_at_cases [where vs = vs and i = i and c = c])
  case (split t)
  then have "ws = vs[i := (vs ! i)\<lparr>vm_end := c\<rparr>, t := vma_tail (vs ! i) c]"
    and ops: "ops = (case vm_file (vs ! i) of None \<Rightarrow> [] | Some f \<Rightarrow> [FileGet f])"
    using eq by auto
  then show ?thesis
    using split_wf(2) [OF wf i split(2,3,1)] split_aspace [OF wf i split(2,3,1)]
      split_counts(2) [OF wf i split(2,3,4,1)]
    by (auto simp: vma_refines_def fun_eq_iff split: option.splits)
qed (use eq wf in auto)

lemma vma_split_at_clears:
  assumes i: "i < length vs" and eq: "vma_split_at vs i c = (Inr (), ws, ops)"
    and k: "k < length vs" "vma_contains_split_addr (ws ! k) c"
  shows "k \<noteq> i \<and> vma_contains_split_addr (vs ! k) c"
proof (cases rule: split_at_cases [where vs = vs and i = i and c = c])
  case (split t)
  then have "ws = vs[i := (vs ! i)\<lparr>vm_end := c\<rparr>, t := vma_tail (vs ! i) c]" using eq by auto
  then show ?thesis
    using k i split by (auto simp: nth_list_update vma_contains_split_addr_def split: if_splits)
qed (use eq k in auto)

text \<open>A successful split uses one free slot per area that the address cuts.\<close>

lemma vma_split_at_budget:
  assumes wf: "vma_wf vs" and i: "i < length vs" and b: "split_count vs c \<le> vma_free_slot_count vs"
    and eq: "vma_split_at vs i c = (r, ws, ops)"
  shows "r = Inr ()" "split_count ws c \<le> vma_free_slot_count ws"
    "vma_free_slot_count ws + split_count vs c = vma_free_slot_count vs + split_count ws c"
    "d \<noteq> c \<Longrightarrow> split_count ws d = split_count vs d"
proof -
  show "r = Inr ()"
  proof (cases rule: split_at_cases [where vs = vs and i = i and c = c])
    case full
    then have "0 < split_count vs c" using i by (auto simp: split_count_def intro: count_if_pos)
    with b full show ?thesis by (simp add: vma_alloc_slot_None_iff)
  qed (use eq in auto)
  then have e: "vma_split_at vs i c = (Inr (), ws, ops)" using eq by simp
  show "split_count ws c \<le> vma_free_slot_count ws"
    "vma_free_slot_count ws + split_count vs c = vma_free_slot_count vs + split_count ws c"
    "d \<noteq> c \<Longrightarrow> split_count ws d = split_count vs d"
    using e b split_counts [OF wf i, of _ c]
    by (cases rule: split_at_cases [where vs = vs and i = i and c = c]; force)+
qed

lemma split_count_le_1:
  assumes wf: "vma_wf vs" shows "split_count vs c \<le> 1"
  unfolding split_count_def
proof (rule count_if_le_1)
  fix i j assume "i < length vs" "j < length vs"
    "vma_contains_split_addr (vs ! i) c" "vma_contains_split_addr (vs ! j) c"
  then show "i = j"
    by (intro in_vma_unique [OF wf, of i j c]) (auto simp: in_vma_def vma_contains_split_addr_def)
qed

lemma vma_split_slots_refines:
  "vma_wf vs \<Longrightarrow> set is \<subseteq> {..<length vs} \<Longrightarrow> vma_split_slots vs is c = (r, ws, ops) \<Longrightarrow> vma_refines vs ws ops"
proof (induction vs "is" c arbitrary: r ws ops rule: vma_split_slots.induct)
  case (1 vs addr)
  then show ?case by simp
next
  case (2 vs i "is" addr)
  obtain r1 vs1 ops1 where s: "vma_split_at vs i addr = (r1, vs1, ops1)" by (cases "vma_split_at vs i addr")
  have ref: "vma_refines vs vs1 ops1" by (rule vma_split_at_refines [OF 2(2) _ s]) (use 2(3) in auto)
  show ?case
  proof (cases r1)
    case (Inl e)
    then show ?thesis using 2(4) s ref by simp
  next
    case (Inr u)
    obtain r2 vs2 ops2 where s2: "vma_split_slots vs1 is addr = (r2, vs2, ops2)"
      by (cases "vma_split_slots vs1 is addr")
    have "vma_refines vs1 vs2 ops2"
      using 2(1) [OF s [symmetric] Inr refl _ _ s2] ref 2(3) by (auto simp: vma_refines_def)
    then show ?thesis using 2(4) s s2 Inr ref by (auto intro: vma_refines_trans)
  qed
qed

text \<open>With one free slot for the area that \<open>c\<close> cuts, the loop succeeds and leaves no area cut by \<open>c\<close>.\<close>

lemma vma_split_slots_budget:
  "vma_wf vs \<Longrightarrow> set is \<subseteq> {..<length vs} \<Longrightarrow> split_count vs c \<le> vma_free_slot_count vs \<Longrightarrow>
   vma_split_slots vs is c = (r, ws, ops) \<Longrightarrow>
   r = Inr () \<and>
   (\<forall>k < length vs. vma_contains_split_addr (ws ! k) c \<longrightarrow> k \<notin> set is \<and> vma_contains_split_addr (vs ! k) c) \<and>
   vma_free_slot_count ws + split_count vs c = vma_free_slot_count vs + split_count ws c \<and>
   (\<forall>d. d \<noteq> c \<longrightarrow> split_count ws d = split_count vs d)"
proof (induction vs "is" c arbitrary: r ws ops rule: vma_split_slots.induct)
  case (1 vs addr)
  then show ?case by simp
next
  case (2 vs i "is" addr)
  have i: "i < length vs" using 2(3) by simp
  obtain r1 vs1 ops1 where s: "vma_split_at vs i addr = (r1, vs1, ops1)" by (cases "vma_split_at vs i addr")
  note b = vma_split_at_budget [OF 2(2) i 2(4) s]
  have s': "vma_split_at vs i addr = (Inr (), vs1, ops1)" using s b(1) by simp
  have ref: "vma_refines vs vs1 ops1" by (rule vma_split_at_refines [OF 2(2) i s])
  obtain r2 vs2 ops2 where s2: "vma_split_slots vs1 is addr = (r2, vs2, ops2)"
    by (cases "vma_split_slots vs1 is addr")
  have "r = r2" "ws = vs2" using 2(5) s' s2 by auto
  moreover have "r2 = Inr () \<and>
   (\<forall>k < length vs1. vma_contains_split_addr (vs2 ! k) addr \<longrightarrow> k \<notin> set is \<and> vma_contains_split_addr (vs1 ! k) addr) \<and>
   vma_free_slot_count vs2 + split_count vs1 addr = vma_free_slot_count vs1 + split_count vs2 addr \<and>
   (\<forall>d. d \<noteq> addr \<longrightarrow> split_count vs2 d = split_count vs1 d)"
    using 2(1) [OF s' [symmetric] refl refl _ _ b(2) s2] ref 2(3) by (auto simp: vma_refines_def)
  ultimately show ?case
    using b(3,4) vma_split_at_clears [OF i s'] ref by (auto simp: vma_refines_def)
qed

lemma set_upt_sub: "set [0..<n] \<subseteq> {..<n}"
  by auto

lemma vma_split_range_refines:
  assumes wf: "vma_wf vs" and eq: "vma_split_range vs s e = (r, ws, ops)"
  shows "vma_refines vs ws ops"
proof -
  obtain r1 vs1 ops1 where s1: "vma_split_slots vs [0..<length vs] s = (r1, vs1, ops1)"
    by (cases "vma_split_slots vs [0..<length vs] s")
  obtain r2 vs2 ops2 where s2: "vma_split_slots vs1 [0..<length vs1] e = (r2, vs2, ops2)"
    by (cases "vma_split_slots vs1 [0..<length vs1] e")
  have ref1: "vma_refines vs vs1 ops1" by (rule vma_split_slots_refines [OF wf set_upt_sub s1])
  then have "vma_refines vs1 vs2 ops2" using vma_split_slots_refines [OF _ set_upt_sub s2] by (auto simp: vma_refines_def)
  with ref1 have "vma_refines vs vs2 (ops1 @ ops2)" by (rule vma_refines_trans)
  with ref1 show ?thesis using eq s1 s2 by (auto simp: vma_split_range_def split: sum.splits)
qed

lemma slots_needed_eq:
  assumes "s < e"
  shows "vma_mprotect_slots_needed vs s e = split_count vs s + split_count vs e"
proof (induction vs)
  case Nil
  then show ?case by (simp add: vma_mprotect_slots_needed_def split_count_def)
next
  case (Cons v vs)
  then show ?case
    using assms by (auto simp: vma_mprotect_slots_needed_def split_count_def vma_overlaps_def
        vma_contains_split_addr_def word_nat_order)
qed

text \<open>The slot check of \<^verbatim>\<open>mm_mprotect\<close> is exact: with that many free slots no split fails, and
  afterwards neither end of the range cuts an area.\<close>

lemma vma_split_range_budget:
  assumes wf: "vma_wf vs" and se: "s < e"
    and b: "vma_mprotect_slots_needed vs s e \<le> vma_free_slot_count vs"
    and eq: "vma_split_range vs s e = (r, ws, ops)"
  shows "r = Inr ()" "\<And>k. k < length ws \<Longrightarrow> \<not> vma_contains_split_addr (ws ! k) s"
    "\<And>k. k < length ws \<Longrightarrow> \<not> vma_contains_split_addr (ws ! k) e"
proof -
  obtain r1 vs1 ops1 where s1: "vma_split_slots vs [0..<length vs] s = (r1, vs1, ops1)"
    by (cases "vma_split_slots vs [0..<length vs] s")
  have b1: "split_count vs s \<le> vma_free_slot_count vs" and be: "split_count vs s + split_count vs e \<le> vma_free_slot_count vs"
    using b by (auto simp: slots_needed_eq [OF se])
  note B1 = vma_split_slots_budget [OF wf set_upt_sub b1 s1]
  have ref1: "vma_refines vs vs1 ops1" by (rule vma_split_slots_refines [OF wf set_upt_sub s1])
  then have wf1: "vma_wf vs1" and l1: "length vs1 = length vs" by (auto simp: vma_refines_def)
  have c1: "split_count vs1 s = 0" unfolding split_count_def count_if_0_iff using B1 l1 by auto
  have b2: "split_count vs1 e \<le> vma_free_slot_count vs1"
    using B1 be se c1 by auto
  obtain r2 vs2 ops2 where s2: "vma_split_slots vs1 [0..<length vs1] e = (r2, vs2, ops2)"
    by (cases "vma_split_slots vs1 [0..<length vs1] e")
  note B2 = vma_split_slots_budget [OF wf1 set_upt_sub b2 s2]
  have ref2: "vma_refines vs1 vs2 ops2" by (rule vma_split_slots_refines [OF wf1 set_upt_sub s2])
  have r: "r = r2" "ws = vs2" using eq s1 s2 B1 by (auto simp: vma_split_range_def)
  show "r = Inr ()" using r B2 by auto
  have "split_count vs2 s = 0" using B2 c1 se by auto
  then show "\<not> vma_contains_split_addr (ws ! k) s" if "k < length ws" for k
    using that r by (auto simp: split_count_def count_if_0_iff)
  show "\<not> vma_contains_split_addr (ws ! k) e" if "k < length ws" for k
    using that r B2 ref2 by (auto simp: vma_refines_def)
qed

section \<open>Changing the protection of a range\<close>

definition attr_set_flags :: "u32 \<Rightarrow> attr \<Rightarrow> attr" where
  "attr_set_flags fl t = (fl, snd t)"

lemma vma_update_flags_range_aspace:
  assumes wf: "vma_wf vs"
    and cs: "\<And>k. k < length vs \<Longrightarrow> \<not> vma_contains_split_addr (vs ! k) s"
    and ce: "\<And>k. k < length vs \<Longrightarrow> \<not> vma_contains_split_addr (vs ! k) e"
  shows "vma_wf (vma_update_flags_range vs s e fl)"
    and "aspace (vma_update_flags_range vs s e fl) a =
      (if s \<le> a \<and> a < e then map_option (attr_set_flags fl) (aspace vs a) else aspace vs a)"
proof -
  let ?ws = "vma_update_flags_range vs s e fl"
  have fields: "used (?ws ! k) = used (vs ! k)" "vm_start (?ws ! k) = vm_start (vs ! k)"
    "vm_end (?ws ! k) = vm_end (vs ! k)" "vm_file (?ws ! k) = vm_file (vs ! k)"
    if "k < length vs" for k
    using that by (auto simp: vma_update_flags_range_def)
  have len: "length ?ws = length vs" by (simp add: vma_update_flags_range_def)
  show wf': "vma_wf ?ws"
    using wf by (auto simp: vma_wf_nth vma_ok_def vma_disjoint_def len fields)
  have inv: "in_vma (?ws ! k) a \<longleftrightarrow> in_vma (vs ! k) a" if "k < length vs" for k
    using fields [OF that] by (simp add: in_vma_def)
  have attr: "vma_attr (?ws ! k) a =
      (if s \<le> a \<and> a < e then attr_set_flags fl (vma_attr (vs ! k) a) else vma_attr (vs ! k) a)"
    if "k < length vs" "in_vma (vs ! k) a" for k
    using that cs [OF that(1)] ce [OF that(1)] 
    by (auto simp: vma_update_flags_range_def vma_attr_def attr_set_flags_def vma_offset_at_def
        in_vma_def vma_contains_split_addr_def word_nat_order)
  show "aspace ?ws a =
      (if s \<le> a \<and> a < e then map_option (attr_set_flags fl) (aspace vs a) else aspace vs a)"
  proof -
    have "find_vma ?ws a = find_vma vs a"
      by (rule option_eqI) (auto simp: find_vma_Some_iff [OF wf'] find_vma_Some_iff [OF wf] len inv)
    then show ?thesis
      using attr by (cases "find_vma vs a") (auto simp: aspace_def dest: find_vma_SomeD)
  qed
qed

lemma vma_update_flags_range_refs: "vma_file_refs (vma_update_flags_range vs s e fl) f = vma_file_refs vs f"
  by (induction vs) (auto simp: vma_update_flags_range_def vma_file_refs_def)

section \<open>Merging\<close>

text \<open>The address space without file offsets.\<close>

definition attr_perm :: "attr \<Rightarrow> u32 \<times> u32 \<times> file_ptr option \<times> bool" where
  "attr_perm t = (case t of (fl, ty, fi, sh, off) \<Rightarrow> (fl, ty, fi, sh))"

definition aspace_perm :: "vmas \<Rightarrow> u64 \<Rightarrow> (u32 \<times> u32 \<times> file_ptr option \<times> bool) option" where
  "aspace_perm vs a = map_option attr_perm (aspace vs a)"

definition vma_join :: "vm_area_struct \<Rightarrow> vm_area_struct \<Rightarrow> vm_area_struct" where
  "vma_join a b = (if vm_end a = vm_start b then a\<lparr>vm_end := vm_end b\<rparr> else a\<lparr>vm_start := vm_start b\<rparr>)"

lemma vma_zero_simps [simp]: "\<not> used vma_zero" "vm_file vma_zero = None" "\<not> in_vma vma_zero a" "vma_ok vma_zero"
  by (simp_all add: vma_zero_def in_vma_def vma_ok_def)

lemma vma_join_simps [simp]:
  "used (vma_join a b) = used a" "vm_file (vma_join a b) = vm_file a"
  "vm_flags (vma_join a b) = vm_flags a" "vm_type (vma_join a b) = vm_type a"
  "vm_shared (vma_join a b) = vm_shared a"
  by (auto simp: vma_join_def)

lemma free_slot_wf: "vma_wf vs \<Longrightarrow> vma_wf (vs[i := vma_zero])"
  by (rule wf_update) (auto simp: vma_disjoint_def)

lemma vma_merge_into_eq:
  "i \<noteq> j \<Longrightarrow> vma_merge_into vs i j =
     (vs[j := vma_zero, i := vma_join (vs ! i) (vs ! j)], file_put_op (vm_file (vs ! j)))"
  by (simp add: vma_merge_into_def vma_free_slot_def vma_join_def Let_def list_update_swap)


lemma merge_into_wf:
  assumes wf: "vma_wf vs" and p: "i < length vs" "j < length vs" "i \<noteq> j" "vma_can_merge (vs ! i) (vs ! j)"
  shows "vma_wf (vs[j := vma_zero, i := vma_join (vs ! i) (vs ! j)])"
proof (rule wf_update [OF free_slot_wf [OF wf]])
  note d = vma_can_mergeD [OF p(4)]
  show "vma_ok (vma_join (vs ! i) (vs ! j))"
    using d vma_wfD(1) [OF wf p(1)] vma_wfD(1) [OF wf p(2)]
    by (auto simp: vma_ok_def vma_join_def word_nat_order)
  show "vma_disjoint (vma_join (vs ! i) (vs ! j)) (vs[j := vma_zero] ! k)"
    if "k < length (vs[j := vma_zero])" "k \<noteq> i" for k
    using that d p(3) vma_wfD(2) [OF wf p(1), of k] vma_wfD(2) [OF wf p(2), of k]
      vma_wfD(1) [OF wf p(1)] vma_wfD(1) [OF wf p(2)] vma_wfD(1) [OF wf, of k]
    by (cases "k = j") (auto simp: vma_disjoint_def vma_join_def vma_ok_def word_nat_order)
qed

lemma in_vma_join:
  "vma_can_merge a b \<Longrightarrow> vma_ok a \<Longrightarrow> vma_ok b \<Longrightarrow> in_vma (vma_join a b) x \<longleftrightarrow> in_vma a x \<or> in_vma b x"
  using vma_can_mergeD [of a b] by (auto simp: in_vma_def vma_join_def vma_ok_def word_nat_order)

text \<open>Joining forwards, or areas with no file, keeps each address's file offset.\<close>

lemma vma_attr_join:
  assumes "vma_can_merge a b" "vm_file a = None \<or> vm_end a = vm_start b"
  shows "vma_attr (vma_join a b) x = vma_attr a x" "vma_attr a x = vma_attr b x"
proof -
  note d = vma_can_mergeD [OF assms(1)]
  have off: "vm_offset b = vm_offset a + (vm_end a - vm_start a)" "vm_end a = vm_start b"
    if "vm_file a \<noteq> None"
    using assms that d by (auto simp: vma_can_merge_def vma_offset_at_def)
  then have "vma_offset_at a x = vma_offset_at b x" if "vm_file a \<noteq> None"
    using that by (simp add: vma_offset_at_def)
  then show "vma_attr a x = vma_attr b x" using d by (simp add: vma_attr_def)
  show "vma_attr (vma_join a b) x = vma_attr a x"
    using off(2) by (auto simp: vma_attr_def vma_join_def vma_offset_at_def)
qed

lemma attr_perm_join:
  "vma_can_merge a b \<Longrightarrow> attr_perm (vma_attr (vma_join a b) x) = attr_perm (vma_attr a x) \<and>
     attr_perm (vma_attr a x) = attr_perm (vma_attr b x)"
  using vma_can_mergeD [of a b] by (auto simp: attr_perm_def vma_attr_def)

lemma merge_into_aspace:
  assumes wf: "vma_wf vs" and p: "i < length vs" "j < length vs" "i \<noteq> j" "vma_can_merge (vs ! i) (vs ! j)"
  shows "aspace (vs[j := vma_zero, i := vma_join (vs ! i) (vs ! j)]) a =
    (if in_vma (vs ! i) a \<or> in_vma (vs ! j) a then Some (vma_attr (vma_join (vs ! i) (vs ! j)) a) else aspace vs a)"
  using p in_vma_join [OF p(4) vma_wfD(1) [OF wf p(1)] vma_wfD(1) [OF wf p(2)], of a]
  by (simp add: aspace_update [OF free_slot_wf [OF wf] merge_into_wf [OF assms]] aspace_update [OF wf free_slot_wf [OF wf]])

lemma aspace_in: "vma_wf vs \<Longrightarrow> i < length vs \<Longrightarrow> in_vma (vs ! i) a \<Longrightarrow> aspace vs a = Some (vma_attr (vs ! i) a)"
  using aspace_Some_iff by blast

lemma merge_into_refs:
  assumes p: "i < length vs" "j < length vs" "i \<noteq> j" "vma_can_merge (vs ! i) (vs ! j)"
  shows "int (vma_file_refs (vs[j := vma_zero, i := vma_join (vs ! i) (vs ! j)]) f) =
    int (vma_file_refs vs f) + ops_delta (file_put_op (vm_file (vs ! j))) f"
  using count_if_update [OF p(2), of "\<lambda>v. vm_file v = Some f" vma_zero]
    count_if_update [of i "vs[j := vma_zero]" "\<lambda>v. vm_file v = Some f" "vma_join (vs ! i) (vs ! j)"] p
  by (auto simp: vma_file_refs_def file_put_op_def split: option.splits if_splits)

text \<open>What every merge keeps: \<open>merged\<close> relates the array before and after, with the file operations.\<close>

definition vma_merged :: "vmas \<Rightarrow> vmas \<Rightarrow> file_op list \<Rightarrow> bool" where
  "vma_merged vs ws ops \<longleftrightarrow> vma_wf ws \<and> length ws = length vs \<and> aspace_perm ws = aspace_perm vs \<and>
     (\<forall>f. int (vma_file_refs ws f) = int (vma_file_refs vs f) + ops_delta ops f) \<and>
     ((\<forall>v \<in> set vs. used v \<longrightarrow> vm_file v = None) \<longrightarrow>
        aspace ws = aspace vs \<and> (\<forall>v \<in> set ws. used v \<longrightarrow> vm_file v = None))"

lemma vma_merged_refl [simp]: "vma_wf vs \<Longrightarrow> vma_merged vs vs []"
  by (simp add: vma_merged_def)

lemma vma_merged_trans: "vma_merged vs ws ops1 \<Longrightarrow> vma_merged ws xs ops2 \<Longrightarrow> vma_merged vs xs (ops1 @ ops2)"
  by (simp add: vma_merged_def)

lemma vma_merge_into_merged:
  assumes wf: "vma_wf vs" and p: "vma_merge_pair vs = Some (i, j)" and eq: "vma_merge_into vs i j = (ws, ops)"
  shows "vma_merged vs ws ops"
proof -
  note q = vma_merge_pair_SomeD [OF p]
  have ws: "ws = vs[j := vma_zero, i := vma_join (vs ! i) (vs ! j)]" and ops: "ops = file_put_op (vm_file (vs ! j))"
    using eq vma_merge_into_eq [OF q(3), of vs] by auto
  have perm: "aspace_perm ws a = aspace_perm vs a" for a
    using attr_perm_join [OF q(4), of a] aspace_in [OF wf q(1), of a] aspace_in [OF wf q(2), of a]
    by (auto simp: aspace_perm_def ws merge_into_aspace [OF wf q])
  have anon: "aspace ws a = aspace vs a" if "vm_file (vs ! i) = None" for a
    using vma_attr_join [OF q(4), of a] that aspace_in [OF wf q(1), of a] aspace_in [OF wf q(2), of a]
    by (auto simp: ws merge_into_aspace [OF wf q])
  have "used (vs ! i)" using vma_can_mergeD [OF q(4)] by simp
  then have files: "(\<forall>v \<in> set vs. used v \<longrightarrow> vm_file v = None) \<Longrightarrow> 
     vm_file (vs ! i) = None \<and> (\<forall>v \<in> set ws. used v \<longrightarrow> vm_file v = None)"
    using q by (auto simp: ws all_set_conv_all_nth nth_list_update)
  show ?thesis
    unfolding vma_merged_def
    using merge_into_wf [OF wf q] merge_into_refs [OF q] perm anon files
    by (auto simp: ws ops fun_eq_iff)
qed

lemma vma_merge_all_merged:
  "vma_wf vs \<Longrightarrow> vma_merge_all vs = (ws, ops) \<Longrightarrow> vma_merged vs ws ops \<and> vma_merge_pair ws = None"
proof (induction vs arbitrary: ws ops rule: vma_merge_all.induct)
  case (1 vs)
  show ?case
  proof (cases "vma_merge_pair vs")
    case None
    then show ?thesis using 1(2,3) by (simp add: vma_merge_all.simps [of vs])
  next
    case (Some p)
    obtain i j where p: "p = (i, j)" by (cases p)
    obtain vs1 ops1 where s: "vma_merge_into vs i j = (vs1, ops1)" by (cases "vma_merge_into vs i j")
    obtain vs2 ops2 where s2: "vma_merge_all vs1 = (vs2, ops2)" by (cases "vma_merge_all vs1")
    have m: "vma_merged vs vs1 ops1" using vma_merge_into_merged [OF 1(2) _ s] Some p by simp
    then have "vma_merged vs1 vs2 ops2 \<and> vma_merge_pair vs2 = None"
      using 1(1) [OF Some p [symmetric] s [symmetric] refl _ s2] by (simp add: vma_merged_def)
    then show ?thesis
      using 1(3) Some p s s2 m by (auto simp: vma_merge_all.simps [of vs] intro: vma_merged_trans)
  qed
qed

section \<open>Unmapping\<close>

lemma vma_tail_tail [simp]: "vma_tail (vma_tail v s) e = vma_tail v e"
  by (auto simp: vma_tail_def vma_offset_at_def split: option.splits)

lemma vma_tail_eq: "vma_tail v e = (if vm_file v \<noteq> None then v\<lparr>vm_offset := vma_offset_at v e\<rparr> else v)\<lparr>vm_start := e\<rparr>"
  by (auto simp: vma_tail_def split: option.splits)

lemma vma_unmap_range_cases:
  assumes wf: "vma_wf vs" and i: "i < length vs" and se: "s < e"
  obtains (none) "\<not> vma_overlaps (vs ! i) s e" "vma_unmap_range vs i s e = Some (Inr 0, vs, [], None)"
  | (whole) out where "used (vs ! i)" "s \<le> vm_start (vs ! i)" "vm_end (vs ! i) \<le> e"
      "vma_unmap_range vs i s e = Some (Inr 1, vs[i := vma_zero], file_put_op (vm_file (vs ! i)), out)"
  | (front) out where "used (vs ! i)" "s \<le> vm_start (vs ! i)" "vm_start (vs ! i) < e" "e < vm_end (vs ! i)"
      "vma_unmap_range vs i s e = Some (Inr 1, vs[i := vma_tail (vs ! i) e], [], out)"
  | (rear) out where "used (vs ! i)" "vm_start (vs ! i) < s" "s < vm_end (vs ! i)" "vm_end (vs ! i) \<le> e"
      "vma_unmap_range vs i s e = Some (Inr 1, vs[i := (vs ! i)\<lparr>vm_end := s\<rparr>], [], out)"
  | (full) out where "used (vs ! i)" "vm_start (vs ! i) < s" "e < vm_end (vs ! i)" "vma_alloc_slot vs = None"
      "vma_unmap_range vs i s e = Some (Inl ENOMEM, vs, [], out)"
  | (middle) t out where "used (vs ! i)" "vm_start (vs ! i) < s" "e < vm_end (vs ! i)"
      "t < length vs" "\<not> used (vs ! t)" "t \<noteq> i"
      "vma_unmap_range vs i s e = Some (Inr 1, vs[i := (vs ! i)\<lparr>vm_end := s\<rparr>, t := vma_tail (vs ! i) e],
         (case vm_file (vs ! i) of None \<Rightarrow> [] | Some f \<Rightarrow> [FileGet f]), out)"
proof (cases "vma_overlaps (vs ! i) s e")
  case False
  then show ?thesis by (intro none) (auto simp: vma_unmap_range_def Let_def)
next
  case True
  let ?v = "vs ! i"
  have o: "used ?v" "s < vm_end ?v" "vm_start ?v < e" using True by (auto simp: vma_overlaps_def)
  consider (w) "s \<le> vm_start ?v" "vm_end ?v \<le> e" | (f) "s \<le> vm_start ?v" "e < vm_end ?v"
    | (b) "vm_start ?v < s" "vm_end ?v \<le> e" | (m) "vm_start ?v < s" "e < vm_end ?v"
    by (meson not_le)
  then show ?thesis
  proof cases
    case w
    with True o show ?thesis by (intro whole [of "Some (vm_start ?v, vm_end ?v)"]) (auto simp: vma_unmap_range_def vma_free_slot_def Let_def)
  next
    case f
    with True o show ?thesis by (intro front [of "Some (vm_start ?v, e)"]) (auto simp: vma_unmap_range_def vma_tail_eq Let_def)
  next
    case b
    with True o show ?thesis by (intro rear [of "Some (s, vm_end ?v)"]) (auto simp: vma_unmap_range_def Let_def)
  next
    case m
    then have c: "vma_contains_split_addr ?v s" using o by (simp add: vma_contains_split_addr_def)
    show ?thesis
    proof (cases rule: split_at_cases [where vs = vs and i = i and c = s])
      case none
      with c show ?thesis by simp
    next
      case fl: full
      with m o True show ?thesis by (intro full [of "Some (s, e)"]) (auto simp: vma_unmap_range_def Let_def)
    next
      case (split t)
      let ?ws = "vs[i := ?v\<lparr>vm_end := s\<rparr>, t := vma_tail ?v s]"
      have wf': "vma_wf ?ws" by (rule split_wf(2) [OF wf i split(2,3,1)])
      have "find_vma ?ws s = Some t"
        unfolding find_vma_Some_iff [OF wf'] using split o by (simp add: in_vma_def)
      moreover have "s \<noteq> vm_start ?v" "e \<noteq> vm_end ?v" using m by auto
      ultimately have "vma_unmap_range vs i s e = Some (Inr 1, vs[i := ?v\<lparr>vm_end := s\<rparr>, t := vma_tail ?v e],
          (case vm_file ?v of None \<Rightarrow> [] | Some f \<Rightarrow> [FileGet f]), Some (s, e))"
        using m o True split vma_tail_eq [of "vma_tail ?v s" e]
        by (cases "vm_file ?v") (simp_all add: vma_unmap_range_def Let_def)
      with m split o show ?thesis by (intro middle [of t "Some (s, e)"]) auto
    qed
  qed
qed

lemma vma_ok_tail:
  "vma_ok v \<Longrightarrow> used v \<Longrightarrow> e < vm_end v \<Longrightarrow> vma_ok (vma_tail v e)"
  by (simp add: vma_ok_def)

lemma vma_ok_end:
  "vma_ok v \<Longrightarrow> used v \<Longrightarrow> vm_start v < s \<Longrightarrow> s \<le> vm_end v \<Longrightarrow> vma_ok (v\<lparr>vm_end := s\<rparr>)"
  by (auto simp: vma_ok_def word_nat_order)

lemma middle_wf:
  assumes wf: "vma_wf vs" and i: "i < length vs" and t: "t < length vs" "\<not> used (vs ! t)" "t \<noteq> i"
    and v: "used (vs ! i)" "vm_start (vs ! i) < s" "s < e" "e < vm_end (vs ! i)"
  shows "vma_wf (vs[i := (vs ! i)\<lparr>vm_end := s\<rparr>])"
    and "vma_wf (vs[i := (vs ! i)\<lparr>vm_end := s\<rparr>, t := vma_tail (vs ! i) e])"
proof -
  let ?w1 = "vs[i := (vs ! i)\<lparr>vm_end := s\<rparr>, t := vma_tail (vs ! i) s]"
  have c: "vma_contains_split_addr (vs ! i) s" using v by (auto simp: vma_contains_split_addr_def)
  show "vma_wf (vs[i := (vs ! i)\<lparr>vm_end := s\<rparr>])" by (rule split_wf(1) [OF wf i t(1,2) c])
  have "vma_wf (?w1[t := vma_tail (?w1 ! t) e])"
    using v t vma_wfD(1) [OF wf i]
    by (intro shrink_wf [OF split_wf(2) [OF wf i t(1,2) c]]) (auto simp: less_imp_le intro: vma_ok_tail)
  then show "vma_wf (vs[i := (vs ! i)\<lparr>vm_end := s\<rparr>, t := vma_tail (vs ! i) e])"
    using t by simp
qed

text \<open>One call: it never hits its \<^verbatim>\<open>BUG_ON\<close>, keeps the invariant, changes no address outside the range,
  leaves its slot clear of the range and no other slot entering it.\<close>

lemma vma_unmap_range_spec:
  assumes wf: "vma_wf vs" and i: "i < length vs" and se: "s < e"
  obtains r ws ops out where "vma_unmap_range vs i s e = Some (r, ws, ops, out)"
    "vma_wf ws" "length ws = length vs"
    "\<And>f. int (vma_file_refs ws f) = int (vma_file_refs vs f) + ops_delta ops f"
    "\<And>a. \<not> (s \<le> a \<and> a < e) \<Longrightarrow> aspace ws a = aspace vs a"
    "r = Inl ENOMEM \<and> ws = vs \<and> ops = [] \<and> vma_free_slot_count vs = 0 \<and> vm_start (vs ! i) < s \<and> e < vm_end (vs ! i) \<or>
     (\<exists>n. r = Inr n) \<and> \<not> vma_overlaps (ws ! i) s e \<and>
       (\<forall>k < length vs. k \<noteq> i \<longrightarrow> vma_overlaps (ws ! k) s e \<longrightarrow> ws ! k = vs ! k)"
proof -
  note ok = vma_wfD(1) [OF wf i]
  note asp = aspace_in [OF wf i]
  from wf i se show thesis
  proof (cases rule: vma_unmap_range_cases)
    case none
    then show ?thesis by (intro that [of "Inr 0" vs "[]" None]) (auto simp: wf)
  next
    case (whole out)
    show ?thesis
    proof (rule that [OF whole(4)])
      show wf': "vma_wf (vs[i := vma_zero])" by (rule free_slot_wf [OF wf])
      show "int (vma_file_refs (vs[i := vma_zero]) f) = int (vma_file_refs vs f) + ops_delta (file_put_op (vm_file (vs ! i))) f" for f
        using count_if_update [OF i, of "\<lambda>v. vm_file v = Some f" vma_zero]
        by (auto simp: vma_file_refs_def file_put_op_def split: option.splits if_splits)
      show "aspace (vs[i := vma_zero]) a = aspace vs a" if "\<not> (s \<le> a \<and> a < e)" for a
        using that whole asp [of a] by (auto simp: aspace_update [OF wf wf' i] in_vma_def word_nat_order)
    qed (use i in \<open>auto simp: vma_overlaps_def\<close>)
  next
    case (front out)
    show ?thesis
    proof (rule that [OF front(5)])
      show wf': "vma_wf (vs[i := vma_tail (vs ! i) e])"
        using front ok by (intro shrink_wf [OF wf i]) (auto simp: vma_ok_tail less_imp_le)
      show "int (vma_file_refs (vs[i := vma_tail (vs ! i) e]) f) = int (vma_file_refs vs f) + ops_delta [] f" for f
        using count_if_update [OF i, of "\<lambda>v. vm_file v = Some f" "vma_tail (vs ! i) e"]
        by (auto simp: vma_file_refs_def split: if_splits)
      show "aspace (vs[i := vma_tail (vs ! i) e]) a = aspace vs a" if "\<not> (s \<le> a \<and> a < e)" for a
        using that front asp [of a] by (auto simp: aspace_update [OF wf wf' i] in_vma_def word_nat_order)
    qed (use i in \<open>auto simp: vma_overlaps_def\<close>)
  next
    case (rear out)
    show ?thesis
    proof (rule that [OF rear(5)])
      show wf': "vma_wf (vs[i := (vs ! i)\<lparr>vm_end := s\<rparr>])"
        using rear ok by (intro shrink_wf [OF wf i]) (auto simp: vma_ok_end less_imp_le)
      show "int (vma_file_refs (vs[i := (vs ! i)\<lparr>vm_end := s\<rparr>]) f) = int (vma_file_refs vs f) + ops_delta [] f" for f
        using count_if_update [OF i, of "\<lambda>v. vm_file v = Some f" "(vs ! i)\<lparr>vm_end := s\<rparr>"]
        by (auto simp: vma_file_refs_def split: if_splits)
      show "aspace (vs[i := (vs ! i)\<lparr>vm_end := s\<rparr>]) a = aspace vs a" if "\<not> (s \<le> a \<and> a < e)" for a
        using that rear asp [of a] by (auto simp: aspace_update [OF wf wf' i] in_vma_def word_nat_order)
    qed (use i in \<open>auto simp: vma_overlaps_def\<close>)
  next
    case (full out)
    then show ?thesis by (intro that [OF full(5) wf]) (auto simp: vma_alloc_slot_None_iff)
  next
    case (middle t out)
    let ?ws = "vs[i := (vs ! i)\<lparr>vm_end := s\<rparr>, t := vma_tail (vs ! i) e]"
    note mw = middle_wf [OF wf i middle(4,5,6,1,2) se middle(3)]
    show ?thesis
    proof (rule that [OF middle(7) mw(2)])
      have ft: "vm_file (vs ! t) = None" using vma_wfD(1) [OF wf middle(4)] middle(5) by (simp add: vma_ok_def)
      show "int (vma_file_refs ?ws f) = int (vma_file_refs vs f) +
          ops_delta (case vm_file (vs ! i) of None \<Rightarrow> [] | Some f \<Rightarrow> [FileGet f]) f" for f
        using count_if_update [OF i, of "\<lambda>v. vm_file v = Some f" "(vs ! i)\<lparr>vm_end := s\<rparr>"] middle ft
          count_if_update [of t "vs[i := (vs ! i)\<lparr>vm_end := s\<rparr>]" "\<lambda>v. vm_file v = Some f" "vma_tail (vs ! i) e"]
        by (auto simp: vma_file_refs_def split: option.splits if_splits)
      show "aspace ?ws a = aspace vs a" if "\<not> (s \<le> a \<and> a < e)" for a
        using that middle i asp [of a] se
        by (auto simp: aspace_update [OF mw] aspace_update [OF wf mw(1) i] in_vma_def word_nat_order)
    qed (use i middle in \<open>auto simp: vma_overlaps_def nth_list_update\<close>)
  qed
qed

section \<open>Properties\<close>

text \<open>
  C4: Changing the protection of a range. From a well-formed array with the number of free slots that
  \<^verbatim>\<open>vma_mprotect_slots_needed\<close> asks for, \<^verbatim>\<open>vma_split_range\<close> cannot fail half way, and the following
  \<^verbatim>\<open>vma_update_flags_range\<close> changes exactly the flags of the addresses in the range: every other
  attribute, file offsets included, and every address outside stay as they were, the array stays
  well-formed, and each file gains exactly the references that the new slots hold.
\<close>

theorem vma_protect_range:
  assumes "vma_wf vs" and "s < e"
    and "vma_mprotect_slots_needed vs s e \<le> vma_free_slot_count vs"
    and "vma_split_range vs s e = (r, ws, ops)"
  shows "r = Inr () \<and>
    vma_wf (vma_update_flags_range ws s e fl) \<and>
    (\<forall>a. aspace (vma_update_flags_range ws s e fl) a =
      (if s \<le> a \<and> a < e then map_option (attr_set_flags fl) (aspace vs a) else aspace vs a)) \<and>
    (\<forall>f. int (vma_file_refs (vma_update_flags_range ws s e fl) f) = int (vma_file_refs vs f) + ops_delta ops f)"
proof -
  note b = vma_split_range_budget [OF assms]
  have ref: "vma_refines vs ws ops" by (rule vma_split_range_refines [OF assms(1,4)])
  then have wf: "vma_wf ws" by (simp add: vma_refines_def)
  show ?thesis
    using b(1) vma_update_flags_range_aspace [OF wf b(2,3)] ref
    by (simp add: vma_refines_def vma_update_flags_range_refs)
qed

theorem vma_protect_range_witness:
  "let vs = ex_vma 0x1000 0x5000 3 (Some 7) 0x2000 # replicate 15 vma_zero;
       ws = fst (snd (vma_split_range vs 0x2000 0x3000))
   in vma_wf vs \<and> fst (vma_split_range vs 0x2000 0x3000) = Inr () \<and>
      vma_wf (vma_update_flags_range ws 0x2000 0x3000 1) \<and>
      aspace (vma_update_flags_range ws 0x2000 0x3000 1) 0x2800 = Some (1, VMA_MMAP, Some 7, False, 0x3800)"
proof -
  let ?vs = "ex_vma 0x1000 0x5000 3 (Some 7) 0x2000 # replicate 15 vma_zero"
  have h: "vma_wf ?vs" "(0x2000 :: u64) < 0x3000"
    "vma_mprotect_slots_needed ?vs 0x2000 0x3000 \<le> vma_free_slot_count ?vs"
    by code_simp+
  obtain r ws ops where s: "vma_split_range ?vs 0x2000 0x3000 = (r, ws, ops)"
    by (cases "vma_split_range ?vs 0x2000 0x3000")
  have "map_option (attr_set_flags 1) (aspace ?vs 0x2800) = Some (1, VMA_MMAP, Some 7, False, 0x3800)"
    by code_simp
  then show ?thesis using h(1) s vma_protect_range [OF h s] by (simp add: Let_def)
qed

text \<open>
  C12: \<^verbatim>\<open>vma_merge_all\<close> terminates on every array (it is a total function) and, from a well-formed
  one, yields a well-formed array in which no two areas can be merged any more. No address gains
  or loses a mapping, and its flags, type, file and sharing stay; with no file-backed area the
  address space is the same altogether. The \<^verbatim>\<open>file_put\<close> calls release exactly the references of
  the slots that disappeared.
\<close>

theorem vma_merge_all_spec:
  assumes "vma_wf vs" and "vma_merge_all vs = (ws, ops)"
  shows "vma_wf ws \<and> aspace_perm ws = aspace_perm vs \<and>
    (\<forall>i < length ws. \<forall>j < length ws. i \<noteq> j \<longrightarrow> \<not> vma_can_merge (ws ! i) (ws ! j)) \<and>
    ((\<forall>v \<in> set vs. used v \<longrightarrow> vm_file v = None) \<longrightarrow> aspace ws = aspace vs) \<and>
    (\<forall>f. int (vma_file_refs ws f) = int (vma_file_refs vs f) + ops_delta ops f)"
proof -
  have m: "vma_merged vs ws ops" and none: "vma_merge_pair ws = None"
    using vma_merge_all_merged [OF assms] by auto
  have "\<not> vma_can_merge (ws ! i) (ws ! j)" if "i < length ws" "j < length ws" "i \<noteq> j" for i j
    using none that by (auto simp: vma_merge_pair_def find_None_iff set_product)
  with m show ?thesis by (auto simp: vma_merged_def)
qed

theorem vma_merge_all_spec_witness:
  "let vs = ex_vma 0x5000 0x6000 3 None 0 # ex_vma 0x4000 0x5000 3 None 0 # replicate 14 vma_zero;
       ws = fst (vma_merge_all vs)
   in vma_wf vs \<and> vma_wf ws \<and> aspace ws = aspace vs \<and> vma_free_slot_count ws = 15"
proof -
  let ?vs = "ex_vma 0x5000 0x6000 3 None 0 # ex_vma 0x4000 0x5000 3 None 0 # replicate 14 vma_zero"
  have h: "vma_wf ?vs" by code_simp
  obtain ws ops where s: "vma_merge_all ?vs = (ws, ops)" by (cases "vma_merge_all ?vs")
  have "\<forall>v \<in> set ?vs. used v \<longrightarrow> vm_file v = None" by (simp add: ex_vma_def)
  moreover have "vma_free_slot_count (fst (vma_merge_all ?vs)) = 15" by code_simp
  ultimately show ?thesis using h s vma_merge_all_spec [OF h s] by (simp add: Let_def)
qed


end
