(* ===== verification/Bitmap.thy ===== *)
theory Bitmap
  imports Prelude
begin

text \<open>
  The fixed-size bitmap of \<^verbatim>\<open>include/kernel/bitmap.h\<close>: an array of 64-bit words with a bit count.
  Every helper of the header is modelled on the words, and shown to act on the set of bit numbers
  that the bitmap holds (\<open>bitmap_bits\<close>). The locale \<open>bit_set\<close> states that contract; the PID allocator
  and the run-queue levels of the scheduler use it.
\<close>

section \<open>Compiler builtins\<close>

definition ctzl :: "u64 \<Rightarrow> nat" where
  "ctzl w = (case first_index (bit w) [0..<64] of None \<Rightarrow> 64 | Some n \<Rightarrow> n)"

definition popcountl :: "u64 \<Rightarrow> nat" where
  "popcountl w = count_if (bit w) [0..<64]"

section \<open>Bitmaps\<close>

definition BITMAP_WORD_BITS :: nat where "BITMAP_WORD_BITS = 64"

definition BITMAP_WORDS :: "nat \<Rightarrow> nat" where
  "BITMAP_WORDS nbits' = (nbits' + BITMAP_WORD_BITS - 1) div BITMAP_WORD_BITS"

record bitmap =
  words :: "u64 list"
  nbits :: nat
  nwords :: nat

definition bitmap_word_index :: "nat \<Rightarrow> nat" where
  "bitmap_word_index b = b div BITMAP_WORD_BITS"

definition bitmap_word_offset :: "nat \<Rightarrow> nat" where
  "bitmap_word_offset b = b mod BITMAP_WORD_BITS"

definition bitmap_mask_lo :: "nat \<Rightarrow> u64" where
  "bitmap_mask_lo bits =
     (if bits = 0 then 0 else if bits \<ge> BITMAP_WORD_BITS then NOT 0 else push_bit bits 1 - 1)"

definition bitmap_mask_hi :: "nat \<Rightarrow> u64" where
  "bitmap_mask_hi b = NOT (bitmap_mask_lo b)"

definition bitmap_tail_mask :: "nat \<Rightarrow> u64" where
  "bitmap_tail_mask n = (let tail = n mod BITMAP_WORD_BITS in if tail = 0 then NOT 0 else bitmap_mask_lo tail)"

definition bitmap_init :: "u64 list \<Rightarrow> nat \<Rightarrow> bitmap" where
  "bitmap_init ws n = \<lparr>words = ws, nbits = n, nwords = BITMAP_WORDS n\<rparr>"

definition bitmap_zero :: "bitmap \<Rightarrow> bitmap" where
  "bitmap_zero m = m\<lparr>words := replicate (nwords m) 0 @ drop (nwords m) (words m)\<rparr>"

definition bitmap_fill :: "bitmap \<Rightarrow> bitmap" where
  "bitmap_fill m =
     (let ws = replicate (nwords m) (NOT 0) @ drop (nwords m) (words m) in
      if nwords m > 0
      then m\<lparr>words := ws[nwords m - 1 := ws ! (nwords m - 1) AND bitmap_tail_mask (nbits m)]\<rparr>
      else m\<lparr>words := ws\<rparr>)"

definition bitmap_set :: "bitmap \<Rightarrow> nat \<Rightarrow> bitmap" where
  "bitmap_set m b =
     (if b \<ge> nbits m then m
      else let i = bitmap_word_index b in
        m\<lparr>words := (words m)[i := words m ! i OR push_bit (bitmap_word_offset b) 1]\<rparr>)"

definition bitmap_clear :: "bitmap \<Rightarrow> nat \<Rightarrow> bitmap" where
  "bitmap_clear m b =
     (if b \<ge> nbits m then m
      else let i = bitmap_word_index b in
        m\<lparr>words := (words m)[i := words m ! i AND NOT (push_bit (bitmap_word_offset b) 1)]\<rparr>)"

definition bitmap_test :: "bitmap \<Rightarrow> nat \<Rightarrow> bool" where
  "bitmap_test m b =
     (if b \<ge> nbits m then False
      else words m ! bitmap_word_index b AND push_bit (bitmap_word_offset b) 1 \<noteq> 0)"

definition bitmap_assign :: "bitmap \<Rightarrow> nat \<Rightarrow> bool \<Rightarrow> bitmap" where
  "bitmap_assign m b v = (if v then bitmap_set m b else bitmap_clear m b)"

text \<open>The word loop \<^verbatim>\<open>for (i = lo; i < hi; i++) words[i] = v\<close>.\<close>

definition words_fill :: "u64 list \<Rightarrow> nat \<Rightarrow> nat \<Rightarrow> u64 \<Rightarrow> u64 list" where
  "words_fill ws lo hi v = fold (\<lambda>i ws. ws[i := v]) [lo..<hi] ws"

definition bitmap_set_range :: "bitmap \<Rightarrow> nat \<Rightarrow> nat \<Rightarrow> bitmap" where
  "bitmap_set_range m start count =
     (if count = 0 \<or> start \<ge> nbits m then m
      else
        let end' = start + min count (nbits m - start);
            first = bitmap_word_index start;
            last' = bitmap_word_index (end' - 1);
            start_bit = bitmap_word_offset start;
            end_bit = bitmap_word_offset end';
            last_mask = (if end_bit = 0 then NOT 0 else bitmap_mask_lo end_bit)
        in
        if first = last' then
          m\<lparr>words := (words m)[first := words m ! first OR (bitmap_mask_hi start_bit AND last_mask)]\<rparr>
        else
          let ws1 = (words m)[first := words m ! first OR bitmap_mask_hi start_bit];
              ws2 = words_fill ws1 (first + 1) last' (NOT 0)
          in m\<lparr>words := ws2[last' := ws2 ! last' OR last_mask]\<rparr>)"

definition bitmap_clear_range :: "bitmap \<Rightarrow> nat \<Rightarrow> nat \<Rightarrow> bitmap" where
  "bitmap_clear_range m start count =
     (if count = 0 \<or> start \<ge> nbits m then m
      else
        let end' = start + min count (nbits m - start);
            first = bitmap_word_index start;
            last' = bitmap_word_index (end' - 1);
            start_bit = bitmap_word_offset start;
            end_bit = bitmap_word_offset end';
            last_mask = (if end_bit = 0 then NOT 0 else bitmap_mask_lo end_bit)
        in
        if first = last' then
          m\<lparr>words := (words m)[first := words m ! first AND NOT (bitmap_mask_hi start_bit AND last_mask)]\<rparr>
        else
          let ws1 = (words m)[first := words m ! first AND NOT (bitmap_mask_hi start_bit)];
              ws2 = words_fill ws1 (first + 1) last' 0
          in m\<lparr>words := ws2[last' := ws2 ! last' AND NOT last_mask]\<rparr>)"

text \<open>The word scanned at index \<open>i\<close>: the last word is masked to the valid bits.\<close>

definition tail_masked :: "bitmap \<Rightarrow> nat \<Rightarrow> u64 \<Rightarrow> u64" where
  "tail_masked m i word = (if i + 1 = nwords m then word AND bitmap_tail_mask (nbits m) else word)"

text \<open>The scan shared by the find functions: the first index whose word has a bit set.\<close>

definition scan_words :: "bitmap \<Rightarrow> (nat \<Rightarrow> u64) \<Rightarrow> nat list \<Rightarrow> nat" where
  "scan_words m word is =
     (case List.find (\<lambda>i. word i \<noteq> 0) is of
        None \<Rightarrow> nbits m
      | Some i \<Rightarrow> i * BITMAP_WORD_BITS + ctzl (word i))"

definition bitmap_find_first_set :: "bitmap \<Rightarrow> nat" where
  "bitmap_find_first_set m = scan_words m (\<lambda>i. tail_masked m i (words m ! i)) [0..<nwords m]"

definition bitmap_find_first_zero :: "bitmap \<Rightarrow> nat" where
  "bitmap_find_first_zero m = scan_words m (\<lambda>i. tail_masked m i (NOT (words m ! i))) [0..<nwords m]"

definition bitmap_find_next_set :: "bitmap \<Rightarrow> nat \<Rightarrow> nat" where
  "bitmap_find_next_set m start =
     (if start \<ge> nbits m then nbits m
      else
        let i = bitmap_word_index start;
            offset = bitmap_word_offset start;
            word = tail_masked m i (words m ! i AND bitmap_mask_hi offset)
        in
        if word \<noteq> 0 then i * BITMAP_WORD_BITS + ctzl word
        else scan_words m (\<lambda>i. tail_masked m i (words m ! i)) [i + 1..<nwords m])"

definition bitmap_find_next_zero :: "bitmap \<Rightarrow> nat \<Rightarrow> nat" where
  "bitmap_find_next_zero m start =
     (if start \<ge> nbits m then nbits m
      else
        let i = bitmap_word_index start;
            offset = bitmap_word_offset start;
            word = tail_masked m i (NOT (words m ! i) AND bitmap_mask_hi offset)
        in
        if word \<noteq> 0 then i * BITMAP_WORD_BITS + ctzl word
        else scan_words m (\<lambda>i. tail_masked m i (NOT (words m ! i))) [i + 1..<nwords m])"

definition bitmap_weight :: "bitmap \<Rightarrow> nat" where
  "bitmap_weight m = sum_list (map (\<lambda>i. popcountl (tail_masked m i (words m ! i))) [0..<nwords m])"

definition bitmap_empty :: "bitmap \<Rightarrow> bool" where
  "bitmap_empty m \<longleftrightarrow> bitmap_weight m = 0"

definition bitmap_full :: "bitmap \<Rightarrow> bool" where
  "bitmap_full m \<longleftrightarrow> bitmap_weight m = nbits m"

section \<open>The set of bits a bitmap holds\<close>

definition bitmap_wf :: "bitmap \<Rightarrow> bool" where
  "bitmap_wf m \<longleftrightarrow> nwords m = BITMAP_WORDS (nbits m) \<and> length (words m) = nwords m"

definition bitmap_bits :: "bitmap \<Rightarrow> nat set" where
  "bitmap_bits m = {b. b < nbits m \<and> bit (words m ! (b div 64)) (b mod 64)}"

lemmas word_idx = bitmap_word_index_def bitmap_word_offset_def BITMAP_WORD_BITS_def

lemma bit_lt_64: "bit (w :: u64) k \<Longrightarrow> k < 64"
  using bit_imp_le_length [of w k] by simp

lemma bit_mask_lo: "bit (bitmap_mask_lo n) k \<longleftrightarrow> k < n \<and> k < 64"
proof (cases "n \<ge> 64")
  case True
  then show ?thesis by (auto simp: bitmap_mask_lo_def BITMAP_WORD_BITS_def bit_simps)
next
  case False
  have "push_bit n 1 - 1 = (mask n :: u64)"
    by (simp add: mask_eq_exp_minus_1 push_bit_eq_mult)
  with False show ?thesis
    by (auto simp: bitmap_mask_lo_def BITMAP_WORD_BITS_def bit_simps)
qed

lemma bit_mask_hi: "bit (bitmap_mask_hi n) k \<longleftrightarrow> n \<le> k \<and> k < 64"
  by (auto simp: bitmap_mask_hi_def bit_simps bit_mask_lo)

lemma bit_tail_mask: "bit (bitmap_tail_mask n) k \<longleftrightarrow> k < 64 \<and> (n mod 64 = 0 \<or> k < n mod 64)"
  by (auto simp: bitmap_tail_mask_def BITMAP_WORD_BITS_def Let_def bit_simps bit_mask_lo)

lemma bit_NOT0: "bit (NOT 0 :: u64) k \<longleftrightarrow> k < 64"
  by (simp add: bit_simps)

lemma word_index_less: "bitmap_wf m \<Longrightarrow> b < nbits m \<Longrightarrow> b div 64 < length (words m)"
  unfolding bitmap_wf_def BITMAP_WORDS_def BITMAP_WORD_BITS_def by linarith

lemma valid_bit_iff:
  assumes "bitmap_wf m" "i < nwords m" "k < 64"
  shows "i * 64 + k < nbits m \<longleftrightarrow> (i + 1 = nwords m \<longrightarrow> nbits m mod 64 = 0 \<or> k < nbits m mod 64)"
proof -
  define q r where "q = nbits m div 64" and "r = nbits m mod 64"
  have n: "nbits m = 64 * q + r" "r < 64" by (auto simp: q_def r_def)
  have w: "nwords m = (if r = 0 then q else q + 1)"
    using assms(1) n unfolding bitmap_wf_def BITMAP_WORDS_def BITMAP_WORD_BITS_def by auto
  have *: "nbits m mod 64 = r" by (simp add: r_def)
  show ?thesis unfolding * unfolding n(1) using assms(2,3) n(2) w by (cases "r = 0") auto
qed

lemma bit_tail_masked:
  assumes "bitmap_wf m" "i < nwords m"
  shows "bit (tail_masked m i w) k \<longleftrightarrow> bit w k \<and> k < 64 \<and> i * 64 + k < nbits m"
proof (cases "k < 64")
  case True
  then show ?thesis
    using valid_bit_iff [OF assms] by (auto simp: tail_masked_def bit_simps bit_tail_mask)
next
  case False
  then have "\<not> bit w k" using bit_lt_64 by blast
  then show ?thesis by (simp add: tail_masked_def bit_simps)
qed


text \<open>A word update at index \<open>i\<close> changes the set only within the 64 bits of that word.\<close>

lemma bitmap_bits_less: "b \<in> bitmap_bits m \<Longrightarrow> b < nbits m"
  by (simp add: bitmap_bits_def)

lemma bits_update:
  assumes "bitmap_wf m" "i < nwords m"
  shows "bitmap_bits (m\<lparr>words := (words m)[i := w]\<rparr>) =
    {b. b < nbits m \<and> (if b div 64 = i then bit w (b mod 64) else b \<in> bitmap_bits m)}"
  using assms by (auto simp: bitmap_bits_def bitmap_wf_def nth_list_update)

lemma bits_update_iff:
  assumes "bitmap_wf m" "i < nwords m"
  shows "b \<in> bitmap_bits (m\<lparr>words := (words m)[i := w]\<rparr>) \<longleftrightarrow>
    b < nbits m \<and> (if b div 64 = i then bit w (b mod 64) else b \<in> bitmap_bits m)"
  using bits_update [OF assms] by simp

lemma wf_words_update [simp]:
  "bitmap_wf (m\<lparr>words := (words m)[i := w]\<rparr>) \<longleftrightarrow> bitmap_wf m"
  by (simp add: bitmap_wf_def)

lemma bitmap_init_wf: "length ws = BITMAP_WORDS n \<Longrightarrow> bitmap_wf (bitmap_init ws n)"
  by (simp add: bitmap_wf_def bitmap_init_def)

lemma bitmap_zero_wf: "bitmap_wf m \<Longrightarrow> bitmap_wf (bitmap_zero m)"
  and bitmap_zero_nbits [simp]: "nbits (bitmap_zero m) = nbits m"
  by (simp_all add: bitmap_wf_def bitmap_zero_def)

lemma bitmap_zero_bits:
  assumes "bitmap_wf m"
  shows "bitmap_bits (bitmap_zero m) = {}"
  using assms word_index_less [OF assms]
  by (auto simp: bitmap_bits_def bitmap_zero_def bitmap_wf_def)

lemma bitmap_fill_wf: "bitmap_wf m \<Longrightarrow> bitmap_wf (bitmap_fill m)"
  by (auto simp: bitmap_wf_def bitmap_fill_def Let_def)

lemma bitmap_fill_bits:
  assumes wf: "bitmap_wf m"
  shows "bitmap_bits (bitmap_fill m) = {0..<nbits m}"
proof -
  have "bit (words (bitmap_fill m) ! (b div 64)) (b mod 64)" if b: "b < nbits m" for b
  proof -
    have i: "b div 64 < nwords m" using word_index_less [OF wf b] wf by (simp add: bitmap_wf_def)
    have "b div 64 + 1 = nwords m \<longrightarrow> nbits m mod 64 = 0 \<or> b mod 64 < nbits m mod 64"
      using valid_bit_iff [OF wf i, of "b mod 64"] b by simp
    with i wf show ?thesis
      by (auto simp: bitmap_fill_def Let_def nth_list_update nth_append bit_simps bit_tail_mask bitmap_wf_def)
  qed
  then show ?thesis by (auto simp: bitmap_bits_def bitmap_fill_def Let_def)
qed

lemma bitmap_set_wf [simp]: "bitmap_wf (bitmap_set m b) \<longleftrightarrow> bitmap_wf m"
  and bitmap_clear_wf [simp]: "bitmap_wf (bitmap_clear m b) \<longleftrightarrow> bitmap_wf m"
  and bitmap_set_nbits [simp]: "nbits (bitmap_set m b) = nbits m"
  and bitmap_clear_nbits [simp]: "nbits (bitmap_clear m b) = nbits m"
  by (simp_all add: bitmap_set_def bitmap_clear_def Let_def)

lemma div_mod_eq: "a div 64 = b div 64 \<Longrightarrow> a mod 64 = b mod 64 \<longleftrightarrow> a = b" for a b :: nat
  by (metis div_mult_mod_eq)

lemma bitmap_set_bits:
  assumes wf: "bitmap_wf m"
  shows "bitmap_bits (bitmap_set m b) = (if b < nbits m then insert b (bitmap_bits m) else bitmap_bits m)"
proof (cases "b < nbits m")
  case True
  then have i: "b div 64 < nwords m" using word_index_less [OF wf True] wf by (simp add: bitmap_wf_def)
  have "x \<in> bitmap_bits (bitmap_set m b) \<longleftrightarrow> x = b \<or> x \<in> bitmap_bits m" for x
    using True bits_update_iff [OF wf i, of x]
    by (auto simp: bitmap_set_def Let_def word_idx bit_simps div_mod_eq bitmap_bits_def)
  with True show ?thesis by auto
qed (simp add: bitmap_set_def)

lemma bitmap_clear_bits:
  assumes wf: "bitmap_wf m"
  shows "bitmap_bits (bitmap_clear m b) = bitmap_bits m - {b}"
proof (cases "b < nbits m")
  case True
  then have i: "b div 64 < nwords m" using word_index_less [OF wf True] wf by (simp add: bitmap_wf_def)
  have "x \<in> bitmap_bits (bitmap_clear m b) \<longleftrightarrow> x \<noteq> b \<and> x \<in> bitmap_bits m" for x
    using True bits_update_iff [OF wf i, of x]
    by (auto simp: bitmap_clear_def Let_def word_idx bit_simps div_mod_eq bitmap_bits_def)
  then show ?thesis by auto
next
  case False
  then show ?thesis by (auto simp: bitmap_clear_def bitmap_bits_def)
qed

lemma bitmap_test_iff: "bitmap_test m b \<longleftrightarrow> b \<in> bitmap_bits m"
proof -
  have "w AND push_bit k 1 \<noteq> 0 \<longleftrightarrow> bit w k" for w :: u64 and k
    by (simp add: bit_iff_and_push_bit_not_eq_0)
  then show ?thesis by (auto simp: bitmap_test_def bitmap_bits_def word_idx)
qed

lemma bitmap_assign_bits:
  assumes "bitmap_wf m" "b < nbits m"
  shows "bitmap_bits (bitmap_assign m b v) = {x. if x = b then v else x \<in> bitmap_bits m}"
  using assms by (auto simp: bitmap_assign_def bitmap_set_bits bitmap_clear_bits)


subsection \<open>Ranges\<close>

lemma words_fill_length [simp]: "length (words_fill ws lo hi v) = length ws"
proof -
  have "length (fold (\<lambda>i ws. ws[i := v]) is ws) = length ws" for "is"
    by (induction "is" arbitrary: ws) auto
  then show ?thesis by (simp add: words_fill_def)
qed

lemma words_fill_nth:
  "j < length ws \<Longrightarrow> words_fill ws lo hi v ! j = (if lo \<le> j \<and> j < hi then v else ws ! j)"
proof -
  have "j < length ws \<Longrightarrow> fold (\<lambda>i ws. ws[i := v]) is ws ! j = (if j \<in> set is then v else ws ! j)" for "is"
    by (induction "is" arbitrary: ws) (auto simp: nth_list_update)
  then show "j < length ws \<Longrightarrow> ?thesis" by (simp add: words_fill_def)
qed

lemma same_word_ge: "x div 64 = s div 64 \<Longrightarrow> s mod 64 \<le> x mod 64 \<longleftrightarrow> s \<le> x" for x s :: nat
  by (metis add_le_cancel_left div_mult_mod_eq)

lemma same_word_lt:
  assumes "0 < e" "x div 64 = (e - 1) div 64"
  shows "(e mod 64 = 0 \<or> x mod 64 < e mod 64) \<longleftrightarrow> x < (e :: nat)"
proof -
  define q r where "q = (e - 1) div 64" and "r = (e - 1) mod 64"
  have e: "e = 64 * q + r + 1" "r < 64" using assms(1) by (auto simp: q_def r_def)
  have x: "x = 64 * q + x mod 64" "x mod 64 < 64" unfolding q_def assms(2) [symmetric] by auto
  have m: "e mod 64 = (r + 1) mod 64" using e by simp
  show ?thesis
  proof (cases "r = 63")
    case True
    then show ?thesis using e x m by auto
  next
    case False
    then have "e mod 64 = r + 1" using e m by simp
    then show ?thesis using e x by auto
  qed
qed

definition last_mask :: "nat \<Rightarrow> u64" where
  "last_mask e = (if e mod 64 = 0 then NOT 0 else bitmap_mask_lo (e mod 64))"

lemma last_mask_bit: "bit (last_mask e) (x mod 64) \<longleftrightarrow> e mod 64 = 0 \<or> x mod 64 < e mod 64"
  by (auto simp: last_mask_def bit_simps bit_mask_lo)

lemma div_less_imp: "x div 64 < y div 64 \<Longrightarrow> x < (y :: nat)"
  by (metis div_le_mono linorder_not_less)

text \<open>Where a bit lies relative to the first and the last word of a range.\<close>

lemma range_word_cases:
  fixes x s e :: nat
  assumes "s < e"
  obtains (before) "x div 64 < s div 64" "x < s"
    | (after) "x div 64 > (e - 1) div 64" "x \<ge> e"
    | (middle) "s div 64 < x div 64" "x div 64 < (e - 1) div 64" "s \<le> x" "x < e"
    | (only) "x div 64 = s div 64" "s div 64 = (e - 1) div 64"
    | (first) "x div 64 = s div 64" "s div 64 < (e - 1) div 64" "x < e"
    | (last) "s div 64 < (e - 1) div 64" "x div 64 = (e - 1) div 64" "s \<le> x"
proof -
  have le: "s div 64 \<le> (e - 1) div 64" using assms by (intro div_le_mono) simp
  note lt = div_less_imp [of x s] div_less_imp [of s x] div_less_imp [of "e - 1" x] div_less_imp [of x "e - 1"]
  consider "x div 64 < s div 64" | "x div 64 > (e - 1) div 64"
    | "s div 64 < x div 64" "x div 64 < (e - 1) div 64"
    | "x div 64 = s div 64" "s div 64 = (e - 1) div 64"
    | "x div 64 = s div 64" "s div 64 < (e - 1) div 64"
    | "s div 64 < (e - 1) div 64" "x div 64 = (e - 1) div 64" using le by linarith
  then show thesis
    by cases (use lt assms in \<open>auto intro: that\<close>)
qed

text \<open>Both range operations in one form: combine the words with the masks by \<open>f\<close>, and fill by \<open>v\<close>.\<close>

definition range_words :: "(u64 \<Rightarrow> u64 \<Rightarrow> u64) \<Rightarrow> u64 \<Rightarrow> u64 list \<Rightarrow> nat \<Rightarrow> nat \<Rightarrow> u64 list" where
  "range_words f v ws s e =
     (let fi = s div 64; la = (e - 1) div 64 in
      if fi = la then ws[fi := f (ws ! fi) (bitmap_mask_hi (s mod 64) AND last_mask e)]
      else let ws2 = words_fill (ws[fi := f (ws ! fi) (bitmap_mask_hi (s mod 64))]) (fi + 1) la v
        in ws2[la := f (ws2 ! la) (last_mask e)])"

lemma range_words_length [simp]: "length (range_words f v ws s e) = length ws"
  by (simp add: range_words_def Let_def)

lemma range_words_bit:
  assumes f: "\<And>w k j. j < 64 \<Longrightarrow> bit (f w k) j \<longleftrightarrow> (if bit k j then on else bit w j)"
    and v: "\<And>j. j < 64 \<Longrightarrow> bit v j \<longleftrightarrow> on"
    and se: "s < e" and len: "x div 64 < length ws" "(e - 1) div 64 < length ws"
  shows "bit (range_words f v ws s e ! (x div 64)) (x mod 64) \<longleftrightarrow>
    (if s \<le> x \<and> x < e then on else bit (ws ! (x div 64)) (x mod 64))"
proof -
  have len2: "s div 64 < length ws"
    using div_le_mono [of s "e - 1" 64] se len(2) by linarith
  note ge = same_word_ge [of x s] and lt = same_word_lt [of e x, unfolded last_mask_bit [symmetric]]
  from se show ?thesis
  proof (cases rule: range_word_cases [where x = x])
    case only
    then show ?thesis using len se ge lt by (simp add: range_words_def Let_def f bit_and_iff bit_mask_hi)
  next
    case first
    then show ?thesis using len len2 se ge
      by (simp add: range_words_def Let_def words_fill_nth f bit_mask_hi nth_list_update)
  next
    case last
    then show ?thesis using len len2 se lt
      by (simp add: range_words_def Let_def words_fill_nth f nth_list_update)
  next
    case middle
    then show ?thesis using len len2
      by (simp add: range_words_def Let_def words_fill_nth v nth_list_update)
  qed (use len se in \<open>simp_all add: range_words_def Let_def words_fill_nth nth_list_update\<close>)
qed

lemma range_words_or:
  assumes "s < e" "x div 64 < length ws" "(e - 1) div 64 < length ws"
  shows "bit (range_words (OR) (NOT 0) ws s e ! (x div 64)) (x mod 64) \<longleftrightarrow>
    s \<le> x \<and> x < e \<or> bit (ws ! (x div 64)) (x mod 64)"
  by (subst range_words_bit [where on = True]) (use assms in \<open>auto simp: bit_or_iff bit_NOT0\<close>)

lemma range_words_andnot:
  assumes "s < e" "x div 64 < length ws" "(e - 1) div 64 < length ws"
  shows "bit (range_words (\<lambda>w k. w AND NOT k) 0 ws s e ! (x div 64)) (x mod 64) \<longleftrightarrow>
    \<not> (s \<le> x \<and> x < e) \<and> bit (ws ! (x div 64)) (x mod 64)"
  by (subst range_words_bit [where on = False]) (use assms in \<open>auto simp: bit_and_iff bit_not_iff\<close>)

lemma bitmap_set_range_words:
  assumes "0 < count" "start < nbits m"
  shows "bitmap_set_range m start count =
    m\<lparr>words := range_words (OR) (NOT 0) (words m) start (start + min count (nbits m - start))\<rparr>"
  using assms unfolding bitmap_set_range_def range_words_def last_mask_def by (simp add: Let_def word_idx)

lemma bitmap_clear_range_words:
  assumes "0 < count" "start < nbits m"
  shows "bitmap_clear_range m start count =
    m\<lparr>words := range_words (\<lambda>w k. w AND NOT k) 0 (words m) start (start + min count (nbits m - start))\<rparr>"
  using assms unfolding bitmap_clear_range_def range_words_def last_mask_def by (simp add: Let_def word_idx)

lemma bitmap_set_range_wf [simp]: "bitmap_wf (bitmap_set_range m start count) \<longleftrightarrow> bitmap_wf m"
  by (cases "count = 0 \<or> start \<ge> nbits m")
    (simp add: bitmap_set_range_def, simp add: bitmap_set_range_words bitmap_wf_def)

lemma bitmap_clear_range_wf [simp]: "bitmap_wf (bitmap_clear_range m start count) \<longleftrightarrow> bitmap_wf m"
  by (cases "count = 0 \<or> start \<ge> nbits m")
    (simp add: bitmap_clear_range_def, simp add: bitmap_clear_range_words bitmap_wf_def)

lemma bitmap_set_range_bits:
  assumes wf: "bitmap_wf m"
  shows "bitmap_bits (bitmap_set_range m start count) =
    bitmap_bits m \<union> {b. start \<le> b \<and> b < start + count \<and> b < nbits m}"
proof (cases "count = 0 \<or> start \<ge> nbits m")
  case False
  then have c: "0 < count" "start < nbits m" by auto
  define e where "e = start + min count (nbits m - start)"
  have se: "start < e" "e - 1 < nbits m" "\<And>x. x < nbits m \<Longrightarrow> x < e \<longleftrightarrow> x < start + count"
    using c by (auto simp: e_def)
  have "x \<in> bitmap_bits (bitmap_set_range m start count) \<longleftrightarrow>
      x < nbits m \<and> (start \<le> x \<and> x < e \<or> x \<in> bitmap_bits m)" for x
  proof (cases "x < nbits m")
    case True
    show ?thesis
      using True range_words_or [OF se(1) word_index_less [OF wf True] word_index_less [OF wf se(2)]]
      by (simp add: bitmap_set_range_words [OF c, folded e_def] bitmap_bits_def)
  qed (simp add: bitmap_bits_def bitmap_set_range_words [OF c])
  then show ?thesis using se(3) bitmap_bits_less by (intro set_eqI) blast
qed (auto simp: bitmap_set_range_def)

lemma bitmap_clear_range_bits:
  assumes wf: "bitmap_wf m"
  shows "bitmap_bits (bitmap_clear_range m start count) =
    bitmap_bits m - {b. start \<le> b \<and> b < start + count}"
proof (cases "count = 0 \<or> start \<ge> nbits m")
  case False
  then have c: "0 < count" "start < nbits m" by auto
  define e where "e = start + min count (nbits m - start)"
  have se: "start < e" "e - 1 < nbits m" "\<And>x. x < nbits m \<Longrightarrow> x < e \<longleftrightarrow> x < start + count"
    using c by (auto simp: e_def)
  have "x \<in> bitmap_bits (bitmap_clear_range m start count) \<longleftrightarrow>
      \<not> (start \<le> x \<and> x < e) \<and> x \<in> bitmap_bits m" for x
  proof (cases "x < nbits m")
    case True
    show ?thesis
      using True range_words_andnot [OF se(1) word_index_less [OF wf True] word_index_less [OF wf se(2)]]
      by (simp add: bitmap_clear_range_words [OF c, folded e_def] bitmap_bits_def)
  qed (simp add: bitmap_bits_def bitmap_clear_range_words [OF c])
  then show ?thesis using se(3) bitmap_bits_less by (intro set_eqI) blast
qed (auto simp: bitmap_clear_range_def bitmap_bits_def)


subsection \<open>Searches\<close>

text \<open>\<open>r\<close> is the first number from \<open>s\<close> on below \<open>n\<close> with \<open>P\<close>, or \<open>n\<close> when there is none.\<close>

definition first_from :: "(nat \<Rightarrow> bool) \<Rightarrow> nat \<Rightarrow> nat \<Rightarrow> nat \<Rightarrow> bool" where
  "first_from P s n r \<longleftrightarrow> (r = n \<or> s \<le> r \<and> r < n \<and> P r) \<and> (\<forall>b. s \<le> b \<and> b < r \<and> b < n \<longrightarrow> \<not> P b)"

lemma ctzl_spec:
  assumes "w \<noteq> 0"
  shows "ctzl w < 64 \<and> bit w (ctzl w) \<and> (\<forall>k < ctzl w. \<not> bit w k)"
proof -
  obtain n where "bit w n" using assms by (metis bit_0_eq bit_eqI bot_apply bot_bool_def)
  then have "first_index (bit w) [0..<64] \<noteq> None"
    using bit_lt_64 [of w n] by (auto simp: first_index_None_iff)
  then obtain k where k: "first_index (bit w) [0..<64] = Some k" by blast
  then show ?thesis using k [unfolded first_index_Some_iff] by (auto simp: ctzl_def k)
qed

lemma find_None_upt: "List.find Q [a..<b] = None \<longleftrightarrow> (\<forall>i. a \<le> i \<and> i < b \<longrightarrow> \<not> Q i)"
  by (auto simp: find_None_iff)

lemma find_Some_upt:
  "List.find Q [a..<b] = Some i \<Longrightarrow> a \<le> i \<and> i < b \<and> Q i \<and> (\<forall>j. a \<le> j \<and> j < i \<longrightarrow> \<not> Q j)"
proof -
  assume "List.find Q [a..<b] = Some i"
  then obtain k where k: "k < b - a" "Q (a + k)" "i = a + k" "\<forall>j<k. \<not> Q (a + j)"
    by (auto simp: find_Some_iff)
  have "\<not> Q j" if "a \<le> j" "j < i" for j
    using k(3,4) that by (metis le_add_diff_inverse nat_add_left_cancel_less)
  with k show ?thesis by auto
qed

text \<open>A word whose bit \<open>k\<close> tells \<open>P (i * 64 + k)\<close> locates the first such number of its 64.\<close>

lemma word_first:
  assumes w: "\<And>k. bit w k \<longleftrightarrow> k < 64 \<and> P (i * 64 + k)"
  shows "w = 0 \<longleftrightarrow> (\<forall>b. b div 64 = i \<longrightarrow> \<not> P b)"
    and "w \<noteq> 0 \<Longrightarrow> P (i * 64 + ctzl w) \<and> (\<forall>b. b div 64 = i \<and> b < i * 64 + ctzl w \<longrightarrow> \<not> P b)"
proof -
  have "w = 0 \<longleftrightarrow> (\<forall>k. \<not> bit w k)" by (metis bit_0_eq bit_eqI bot_apply bot_bool_def)
  also have "\<dots> \<longleftrightarrow> (\<forall>b. b div 64 = i \<longrightarrow> \<not> P b)"
  proof
    assume *: "\<forall>k. \<not> bit w k"
    have "\<not> P b" if "b div 64 = i" for b
      using * w [of "b mod 64"] that by (metis div_mult_mod_eq mod_less_divisor zero_less_numeral)
    then show "\<forall>b. b div 64 = i \<longrightarrow> \<not> P b" by blast
  next
    assume "\<forall>b. b div 64 = i \<longrightarrow> \<not> P b"
    then show "\<forall>k. \<not> bit w k" using w by auto
  qed
  finally show "w = 0 \<longleftrightarrow> (\<forall>b. b div 64 = i \<longrightarrow> \<not> P b)" .
  assume "w \<noteq> 0"
  note c = ctzl_spec [OF this]
  have "\<not> P b" if "b div 64 = i" "b < i * 64 + ctzl w" for b
  proof -
    have "b = i * 64 + b mod 64" using that(1) by auto
    then show ?thesis using c w [of "b mod 64"] that(2) by (metis nat_add_left_cancel_less mod_less_divisor zero_less_numeral)
  qed
  then show "P (i * 64 + ctzl w) \<and> (\<forall>b. b div 64 = i \<and> b < i * 64 + ctzl w \<longrightarrow> \<not> P b)"
    using c w by blast
qed

lemma scan_words_first:
  assumes wf: "bitmap_wf m"
    and w: "\<And>i k. i < nwords m \<Longrightarrow> bit (word i) k \<longleftrightarrow> k < 64 \<and> i * 64 + k < nbits m \<and> P (i * 64 + k)"
  shows "first_from P (a * 64) (nbits m) (scan_words m word [a..<nwords m])"
proof -
  have idx: "b div 64 < nwords m" if "b < nbits m" for b
    using word_index_less [OF wf that] wf by (simp add: bitmap_wf_def)
  have ge: "a \<le> b div 64" if "a * 64 \<le> b" for b using that div_le_mono [OF that, of 64] by simp
  have zero: "\<not> P b" if "word (b div 64) = 0" "b < nbits m" for b
    using word_first(1) [where P = "\<lambda>b. b < nbits m \<and> P b", OF w, OF idx [OF that(2)]] that by blast
  show ?thesis
  proof (cases "List.find (\<lambda>i. word i \<noteq> 0) [a..<nwords m]")
    case None
    then have "\<not> P b" if "a * 64 \<le> b" "b < nbits m" for b
      using zero [OF _ that(2)] ge [OF that(1)] idx [OF that(2)] by (auto simp: find_None_upt)
    then show ?thesis by (simp add: scan_words_def None first_from_def)
  next
    case (Some i)
    note i = find_Some_upt [OF Some]
    have wi: "\<And>k. bit (word i) k \<longleftrightarrow> k < 64 \<and> i * 64 + k < nbits m \<and> P (i * 64 + k)" using w i by blast
    note f = word_first(2) [where P = "\<lambda>b. b < nbits m \<and> P b", OF wi]
    have "\<not> P b" if "a * 64 \<le> b" "b < i * 64 + ctzl (word i)" "b < nbits m" for b
    proof (cases "b div 64 = i")
      case True
      then show ?thesis using f i that by blast
    next
      case False
      have "b div 64 < Suc i" using that(2) ctzl_spec [of "word i"] i by (intro less_mult_imp_div_less) simp
      with False show ?thesis using i ge [OF that(1)] zero [OF _ that(3)] by auto
    qed
    then show ?thesis using f i by (auto simp: scan_words_def Some first_from_def BITMAP_WORD_BITS_def)
  qed
qed

lemma set_word:
  assumes "bitmap_wf m" "i < nwords m"
  shows "bit (tail_masked m i (words m ! i)) k \<longleftrightarrow> k < 64 \<and> i * 64 + k < nbits m \<and> i * 64 + k \<in> bitmap_bits m"
  by (cases "k < 64") (auto simp: bit_tail_masked [OF assms] bitmap_bits_def)

lemma zero_word:
  assumes "bitmap_wf m" "i < nwords m"
  shows "bit (tail_masked m i (NOT (words m ! i))) k \<longleftrightarrow> k < 64 \<and> i * 64 + k < nbits m \<and> i * 64 + k \<notin> bitmap_bits m"
  by (cases "k < 64") (auto simp: bit_tail_masked [OF assms] bitmap_bits_def bit_not_iff)

lemma find_first_set_first:
  assumes wf: "bitmap_wf m"
  shows "first_from (\<lambda>b. b \<in> bitmap_bits m) 0 (nbits m) (bitmap_find_first_set m)"
  using scan_words_first [OF wf set_word [OF wf], of 0] by (simp add: bitmap_find_first_set_def)

lemma find_first_zero_first:
  assumes wf: "bitmap_wf m"
  shows "first_from (\<lambda>b. b \<notin> bitmap_bits m) 0 (nbits m) (bitmap_find_first_zero m)"
  using scan_words_first [OF wf zero_word [OF wf], of 0] by (simp add: bitmap_find_first_zero_def)

text \<open>A search from \<open>start\<close>: the rest of its word first, then the following words.\<close>

lemma scan_from_first:
  assumes wf: "bitmap_wf m" and start: "start < nbits m"
    and w: "\<And>i k. i < nwords m \<Longrightarrow> bit (word i) k \<longleftrightarrow> k < 64 \<and> i * 64 + k < nbits m \<and> P (i * 64 + k)"
    and w0: "w0 = word (start div 64) AND bitmap_mask_hi (start mod 64)"
  shows "first_from P start (nbits m)
    (if w0 \<noteq> 0 then start div 64 * 64 + ctzl w0 else scan_words m word [start div 64 + 1..<nwords m])"
proof -
  define i where "i = start div 64"
  have i: "i < nwords m" using word_index_less [OF wf start] wf by (simp add: bitmap_wf_def i_def)
  have ge: "start \<le> i * 64 + k \<longleftrightarrow> start mod 64 \<le> k" if "k < 64" for k
    using same_word_ge [of "i * 64 + k" start] that by (simp add: i_def)
  have b0: "bit w0 k \<longleftrightarrow> k < 64 \<and> (i * 64 + k < nbits m \<and> start \<le> i * 64 + k \<and> P (i * 64 + k))" for k
    unfolding w0 i_def [symmetric] by (auto simp: bit_and_iff bit_mask_hi w [OF i] ge)
  note f = word_first [where P = "\<lambda>b. b < nbits m \<and> start \<le> b \<and> P b", OF b0]
  show ?thesis
  proof (cases "w0 = 0")
    case True
    have rest: "first_from P ((i + 1) * 64) (nbits m) (scan_words m word [i + 1..<nwords m])"
      by (rule scan_words_first [OF wf w])
    have below: "\<not> P b" if "start \<le> b" "b < (i + 1) * 64" "b < nbits m" for b
    proof -
      have "b div 64 = i"
        using div_le_mono [OF that(1), of 64] less_mult_imp_div_less [OF that(2)] by (simp add: i_def)
      then show ?thesis using f(1) True that by blast
    qed
    have le: "start \<le> (i + 1) * 64" using div_mult_mod_eq [of start 64] by (simp add: i_def)
    define r where "r = scan_words m word [i + 1..<nwords m]"
    have "first_from P start (nbits m) r"
      using rest le below unfolding r_def [symmetric] first_from_def by (meson linorder_not_less order_trans)
    then show ?thesis using True by (simp add: i_def r_def)
  next
    case False
    have "\<not> P b" if "start \<le> b" "b < i * 64 + ctzl w0" "b < nbits m" for b
    proof -
      have "b div 64 = i"
        using div_le_mono [OF that(1), of 64] less_mult_imp_div_less [of b "i + 1" 64] that(2) ctzl_spec [OF False]
        by (simp add: i_def)
      then show ?thesis using f(2) [OF False] that by blast
    qed
    then show ?thesis using f(2) [OF False] False by (auto simp: first_from_def i_def [symmetric])
  qed
qed

lemma tail_masked_and: "tail_masked m i (a AND b) = tail_masked m i a AND b"
  by (simp add: tail_masked_def and.assoc and.commute and.left_commute)

lemma find_next_set_first:
  assumes wf: "bitmap_wf m" and start: "start < nbits m"
  shows "first_from (\<lambda>b. b \<in> bitmap_bits m) start (nbits m) (bitmap_find_next_set m start)"
  using scan_from_first [OF wf start set_word [OF wf] refl] start
  by (simp add: bitmap_find_next_set_def Let_def word_idx tail_masked_and split: if_splits)

lemma find_next_zero_first:
  assumes wf: "bitmap_wf m" and start: "start < nbits m"
  shows "first_from (\<lambda>b. b \<notin> bitmap_bits m) start (nbits m) (bitmap_find_next_zero m start)"
  using scan_from_first [OF wf start zero_word [OF wf] refl] start
  by (simp add: bitmap_find_next_zero_def Let_def word_idx tail_masked_and split: if_splits)

subsection \<open>Population count\<close>

lemma popcountl_card: "popcountl w = card {k. bit w k}"
proof -
  have "{k. bit w k} = set (filter (bit w) [0..<64])" using bit_lt_64 by auto
  then show ?thesis
    unfolding popcountl_def count_if_def by (metis distinct_card distinct_filter distinct_upt)
qed

lemma bitmap_weight_card:
  assumes wf: "bitmap_wf m"
  shows "bitmap_weight m = card (bitmap_bits m)"
proof -
  define A where "A i = (\<lambda>k. i * 64 + k) ` {k. bit (tail_masked m i (words m ! i)) k}" for i
  have fin: "finite (A i)" for i
    unfolding A_def by (rule finite_imageI, rule finite_subset [of _ "{..<64}"]) (auto intro: bit_lt_64)
  have div: "b div 64 = i" if "b \<in> A i" for b i
    using that unfolding A_def by (elim imageE CollectE) (frule bit_lt_64, simp)
  have disj: "A i \<inter> A j = {}" if "i \<noteq> j" for i j using that div by blast
  have "bitmap_bits m = (\<Union>i\<in>{..<nwords m}. A i)"
  proof (intro set_eqI iffI)
    fix b assume b: "b \<in> bitmap_bits m"
    then have "b div 64 < nwords m"
      using word_index_less [OF wf bitmap_bits_less [OF b]] wf by (simp add: bitmap_wf_def)
    moreover from this have "b \<in> A (b div 64)"
      unfolding A_def using b bitmap_bits_less [OF b]
      by (intro image_eqI [of _ _ "b mod 64"]) (simp_all add: set_word [OF wf])
    ultimately show "b \<in> (\<Union>i\<in>{..<nwords m}. A i)" by blast
  next
    fix b assume "b \<in> (\<Union>i\<in>{..<nwords m}. A i)"
    then show "b \<in> bitmap_bits m" by (auto simp: A_def set_word [OF wf])
  qed
  also have "card \<dots> = (\<Sum>i<nwords m. card (A i))"
    by (intro card_UN_disjoint) (use disj fin in blast)+
  also have "\<dots> = bitmap_weight m"
    unfolding bitmap_weight_def A_def
    by (simp add: card_image popcountl_card interv_sum_list_conv_sum_set_nat atLeast0LessThan)
  finally show ?thesis by simp
qed

lemma finite_bitmap_bits [simp]: "finite (bitmap_bits m)"
  by (rule finite_subset [of _ "{..<nbits m}"]) (auto simp: bitmap_bits_def)

lemma bitmap_empty_iff: "bitmap_wf m \<Longrightarrow> bitmap_empty m \<longleftrightarrow> bitmap_bits m = {}"
  by (simp add: bitmap_empty_def bitmap_weight_card)

lemma bitmap_full_iff: "bitmap_wf m \<Longrightarrow> bitmap_full m \<longleftrightarrow> bitmap_bits m = {0..<nbits m}"
  using card_subset_eq [of "{0..<nbits m}" "bitmap_bits m"] bitmap_bits_less [of _ m]
  by (auto simp: bitmap_full_def bitmap_weight_card subset_iff)


section \<open>The contract of a bit set\<close>

text \<open>
  What the clients of the bitmap rely on: a set of numbers below a fixed size, insertion and removal, and
  the two searches from the start.
\<close>

locale bit_set =
  fixes invar :: "'m \<Rightarrow> bool"
    and members :: "'m \<Rightarrow> nat set"
    and cap :: "'m \<Rightarrow> nat"
    and put del :: "'m \<Rightarrow> nat \<Rightarrow> 'm"
    and first_set first_zero :: "'m \<Rightarrow> nat"
    and is_empty :: "'m \<Rightarrow> bool"
  assumes put_invar: "invar m \<Longrightarrow> invar (put m b)"
    and del_invar: "invar m \<Longrightarrow> invar (del m b)"
    and put_cap: "cap (put m b) = cap m"
    and del_cap: "cap (del m b) = cap m"
    and below: "b \<in> members m \<Longrightarrow> b < cap m"
    and put_members: "invar m \<Longrightarrow> b < cap m \<Longrightarrow> members (put m b) = insert b (members m)"
    and del_members: "invar m \<Longrightarrow> members (del m b) = members m - {b}"
    and first_set: "invar m \<Longrightarrow> first_from (\<lambda>b. b \<in> members m) 0 (cap m) (first_set m)"
    and first_zero: "invar m \<Longrightarrow> first_from (\<lambda>b. b \<notin> members m) 0 (cap m) (first_zero m)"
    and is_empty: "invar m \<Longrightarrow> is_empty m \<longleftrightarrow> members m = {}"
begin

lemma alloc_none: "invar m \<Longrightarrow> first_zero m \<ge> cap m \<longleftrightarrow> members m = {..<cap m}"
  using first_zero [of m] below [of _ m] unfolding first_from_def by fastforce

lemma alloc_some:
  assumes "invar m" "first_zero m < cap m"
  shows "first_zero m \<notin> members m" "\<And>b. b < first_zero m \<Longrightarrow> b \<in> members m"
    "members (put m (first_zero m)) = insert (first_zero m) (members m)"
  using first_zero [OF assms(1)] assms put_members unfolding first_from_def by auto

lemma first_set_none: "invar m \<Longrightarrow> first_set m \<ge> cap m \<longleftrightarrow> members m = {}"
  using first_set [of m] below [of _ m] unfolding first_from_def by fastforce

lemma first_set_some:
  assumes "invar m" "b \<in> members m"
  shows "first_set m \<in> members m" "first_set m \<le> b"
proof -
  have "b < cap m" using below assms(2) by blast
  then show "first_set m \<le> b"
    using first_set [OF assms(1)] assms(2) unfolding first_from_def
    by (metis le0 linorder_not_less)
  then show "first_set m \<in> members m"
    using first_set [OF assms(1)] \<open>b < cap m\<close> unfolding first_from_def by auto
qed

lemma put_del: "invar m \<Longrightarrow> b < cap m \<Longrightarrow> b \<notin> members m \<Longrightarrow> members (del (put m b) b) = members m"
  by (simp add: put_invar put_members del_members)

end

interpretation bm: bit_set bitmap_wf bitmap_bits nbits bitmap_set bitmap_clear bitmap_find_first_set
    bitmap_find_first_zero bitmap_empty
  by unfold_locales
    (simp_all add: bitmap_bits_less bitmap_set_bits bitmap_clear_bits find_first_set_first
      find_first_zero_first bitmap_empty_iff)

section \<open>Properties\<close>

definition ex_map :: bitmap where
  "ex_map = bitmap_set_range (bitmap_zero (bitmap_init [0, 5] 70)) 3 64"

text \<open>
  C8: the range operations. For every well-formed bitmap, \<^verbatim>\<open>bitmap_set_range\<close> adds exactly the bits of the
  range below the size, \<^verbatim>\<open>bitmap_clear_range\<close> removes exactly the bits of the range (whether the range lies in
  one word, or spans partial first and last words with full words between), and the other bits stay.
\<close>

theorem bitmap_range_spec:
  assumes "bitmap_wf m"
  shows "bitmap_wf (bitmap_set_range m start count) \<and>
    bitmap_bits (bitmap_set_range m start count) =
      bitmap_bits m \<union> {b. start \<le> b \<and> b < start + count \<and> b < nbits m} \<and>
    bitmap_wf (bitmap_clear_range m start count) \<and>
    bitmap_bits (bitmap_clear_range m start count) = bitmap_bits m - {b. start \<le> b \<and> b < start + count}"
  using assms by (simp add: bitmap_set_range_bits bitmap_clear_range_bits)

theorem bitmap_range_spec_witness:
  "bitmap_wf ex_map \<and> 66 \<in> bitmap_bits ex_map \<and> 67 \<notin> bitmap_bits ex_map \<and>
   60 \<notin> bitmap_bits (bitmap_clear_range ex_map 60 6) \<and> 59 \<in> bitmap_bits (bitmap_clear_range ex_map 60 6)"
proof -
  have wf0: "bitmap_wf (bitmap_zero (bitmap_init [0, 5] 70))" by code_simp
  have n: "nbits (bitmap_zero (bitmap_init [0, 5] 70)) = 70" by code_simp
  have z: "bitmap_bits (bitmap_zero (bitmap_init [0, 5] 70)) = {}"
    by (rule bitmap_zero_bits, rule bitmap_init_wf) code_simp
  note s = bitmap_range_spec [OF wf0, of 3 64, unfolded z n ex_map_def [symmetric]]
  have c: "bitmap_bits (bitmap_clear_range ex_map 60 6) = bitmap_bits ex_map - {b. 60 \<le> b \<and> b < 60 + 6}"
    using bitmap_range_spec [of ex_map 60 6] s by blast
  show ?thesis unfolding c using s by auto
qed

text \<open>
  C14: the searches. On a well-formed bitmap each of the four find functions returns the least bit number of
  the wanted kind (from the start position on, for the two \<open>next\<close> functions), and the bitmap's size exactly
  when there is none: bits beyond the size in the last word are never reported.
\<close>

theorem bitmap_search_spec:
  assumes "bitmap_wf m" and "start < nbits m"
  shows "first_from (\<lambda>b. b \<in> bitmap_bits m) 0 (nbits m) (bitmap_find_first_set m) \<and>
    first_from (\<lambda>b. b \<notin> bitmap_bits m) 0 (nbits m) (bitmap_find_first_zero m) \<and>
    first_from (\<lambda>b. b \<in> bitmap_bits m) start (nbits m) (bitmap_find_next_set m start) \<and>
    first_from (\<lambda>b. b \<notin> bitmap_bits m) start (nbits m) (bitmap_find_next_zero m start)"
  using assms by (simp add: find_first_set_first find_first_zero_first find_next_set_first find_next_zero_first)

theorem bitmap_search_spec_witness:
  "bitmap_find_next_zero ex_map 3 = 67 \<and> 66 \<in> bitmap_bits ex_map \<and> 67 \<notin> bitmap_bits ex_map"
proof -
  have wf: "bitmap_wf ex_map" "3 < nbits ex_map" by code_simp+
  have r: "bitmap_find_next_zero ex_map 3 = 67" "nbits ex_map = 70" by code_simp+
  show ?thesis using bitmap_search_spec [OF wf] r by (auto simp: first_from_def)
qed

text \<open>
  Counting. \<^verbatim>\<open>bitmap_weight\<close>, summed by word with the last word masked, is the number of bits in the set;
  so \<^verbatim>\<open>bitmap_empty\<close> and \<^verbatim>\<open>bitmap_full\<close> decide whether no bit, or every bit below the size, is set.
\<close>

theorem bitmap_weight_spec:
  assumes "bitmap_wf m"
  shows "bitmap_weight m = card (bitmap_bits m) \<and> (bitmap_empty m \<longleftrightarrow> bitmap_bits m = {}) \<and>
    (bitmap_full m \<longleftrightarrow> bitmap_bits m = {0..<nbits m})"
  using assms by (simp add: bitmap_weight_card bitmap_empty_iff bitmap_full_iff)

theorem bitmap_weight_spec_witness: "card (bitmap_bits ex_map) = 64 \<and> bitmap_bits ex_map \<noteq> {}"
proof -
  have wf: "bitmap_wf ex_map" by code_simp
  have w: "bitmap_weight ex_map = 64" by code_simp
  show ?thesis using bitmap_weight_spec [OF wf] w by (metis card.empty zero_neq_numeral)
qed

end
