(* ===== verification/Refcount.thy ===== *)
theory Refcount
  imports Prelude "HOL-Library.Multiset"
begin

text \<open>
  Reference counts, \<^verbatim>\<open>include/kernel/refcount.h\<close>. Each operation is a compare-and-swap loop on a 32-bit counter;
  the model has the loops as they are written, one memory access per step, run by any number of threads in any
  interleaving. The atomic operations that the rest of the development uses are their sequential readings, and
  every interleaving is shown to be equivalent to a sequence of them.
\<close>

section \<open>The operations, executed without interference\<close>

definition REFCOUNT_MAX :: int where "REFCOUNT_MAX = 2147483647"

text \<open>\<open>None\<close> is a failed \<^verbatim>\<open>BUG_ON\<close>; otherwise the value returned and the new count.\<close>

definition refcount_inc_not_zero :: "int \<Rightarrow> (bool \<times> int) option" where
  "refcount_inc_not_zero r =
     (if r = 0 then Some (False, r)
      else if r < 0 then None
      else if r = REFCOUNT_MAX then None
      else Some (True, r + 1))"

definition refcount_inc :: "int \<Rightarrow> int option" where
  "refcount_inc r =
     (case refcount_inc_not_zero r of
        None \<Rightarrow> None
      | Some (ok, r') \<Rightarrow> if \<not> ok then None else Some r')"

definition refcount_inc_allow_zero :: "int \<Rightarrow> int option" where
  "refcount_inc_allow_zero r =
     (if r < 0 then None else if r = REFCOUNT_MAX then None else Some (r + 1))"

definition refcount_dec_and_test :: "int \<Rightarrow> (bool \<times> int) option" where
  "refcount_dec_and_test r = (if r \<le> 0 then None else Some (r = 1, r - 1))"

definition refcount_dec_if_positive :: "int \<Rightarrow> (bool \<times> int) option" where
  "refcount_dec_if_positive r =
     (if r < 0 then None else if r = 0 then Some (False, r) else Some (r = 1, r - 1))"

definition refcount_set :: "int \<Rightarrow> int option" where
  "refcount_set v = (if v < 0 then None else Some v)"

section \<open>The compare-and-swap loops\<close>

datatype rc_op = IncNotZero | IncAllowZero | DecAndTest | DecIfPositive

text \<open>Where a thread is: before the read of the loop, holding the value it read, returned, or stopped at a \<^verbatim>\<open>BUG_ON\<close>.\<close>

datatype rc_pc = RcLoop | RcRead int | RcDone bool | RcBug

text \<open>The statements of the loop body between the read and the swap: the guards on \<^verbatim>\<open>old\<close>.\<close>

fun rc_guard :: "rc_op \<Rightarrow> int \<Rightarrow> rc_pc" where
  "rc_guard IncNotZero old =
     (if old = 0 then RcDone False else if old < 0 then RcBug
      else if old = REFCOUNT_MAX then RcBug else RcRead old)"
| "rc_guard IncAllowZero old = (if old < 0 then RcBug else if old = REFCOUNT_MAX then RcBug else RcRead old)"
| "rc_guard DecAndTest old = (if old \<le> 0 then RcBug else RcRead old)"
| "rc_guard DecIfPositive old = (if old < 0 then RcBug else if old = 0 then RcDone False else RcRead old)"

fun rc_new :: "rc_op \<Rightarrow> int \<Rightarrow> int" where
  "rc_new IncNotZero old = old + 1"
| "rc_new IncAllowZero old = old + 1"
| "rc_new DecAndTest old = old - 1"
| "rc_new DecIfPositive old = old - 1"

fun rc_result :: "rc_op \<Rightarrow> int \<Rightarrow> bool" where
  "rc_result IncNotZero old = True"
| "rc_result IncAllowZero old = True"
| "rc_result DecAndTest old = (old = 1)"
| "rc_result DecIfPositive old = (old = 1)"

text \<open>One step of a thread on the shared counter: \<^verbatim>\<open>refcount_read\<close> with the guards, or \<^verbatim>\<open>atomic_cmpxchg\<close>.\<close>

fun rc_thread :: "rc_op \<Rightarrow> rc_pc \<Rightarrow> int \<Rightarrow> rc_pc \<times> int" where
  "rc_thread opr RcLoop r = (rc_guard opr r, r)"
| "rc_thread opr (RcRead old) r =
     (if r = old then (RcDone (rc_result opr old), rc_new opr old) else (RcLoop, r))"
| "rc_thread opr (RcDone b) r = (RcDone b, r)"
| "rc_thread opr RcBug r = (RcBug, r)"

type_synonym rc_sys = "int \<times> (rc_op \<times> rc_pc) list"

inductive rc_step :: "rc_sys \<Rightarrow> rc_sys \<Rightarrow> bool" where
  rc_step: "i < length ts \<Longrightarrow> ts ! i = (opr, pc) \<Longrightarrow> rc_thread opr pc r = (pc', r') \<Longrightarrow>
    rc_step (r, ts) (r', ts[i := (opr, pc')])"

inductive_cases rc_stepE: "rc_step s s'"

definition rc_start :: "int \<Rightarrow> rc_op list \<Rightarrow> rc_sys" where
  "rc_start r0 ops = (r0, map (\<lambda>opr. (opr, RcLoop)) ops)"

section \<open>Linearization\<close>

text \<open>The atomic operation of each kind: \<open>Some (returned, new count)\<close>, or \<open>None\<close> for a bug stop.\<close>

fun rc_atomic :: "rc_op \<Rightarrow> int \<Rightarrow> (bool \<times> int) option" where
  "rc_atomic IncNotZero r = refcount_inc_not_zero r"
| "rc_atomic IncAllowZero r = map_option (\<lambda>r. (True, r)) (refcount_inc_allow_zero r)"
| "rc_atomic DecAndTest r = refcount_dec_and_test r"
| "rc_atomic DecIfPositive r = refcount_dec_if_positive r"

text \<open>A sequential run of completed calls: the operation and what it returned.\<close>

fun rc_replay :: "int \<Rightarrow> (rc_op \<times> rc_pc) list \<Rightarrow> int option" where
  "rc_replay r [] = Some r"
| "rc_replay r ((opr, RcDone b) # es) =
     (case rc_atomic opr r of None \<Rightarrow> None | Some (b', r') \<Rightarrow> if b' = b then rc_replay r' es else None)"
| "rc_replay r ((opr, RcBug) # es) = (if rc_atomic opr r = None then rc_replay r es else None)"
| "rc_replay r ((opr, _) # es) = None"

definition rc_finished :: "rc_op \<times> rc_pc \<Rightarrow> bool" where
  "rc_finished t = (case snd t of RcDone _ \<Rightarrow> True | RcBug \<Rightarrow> True | _ \<Rightarrow> False)"

text \<open>The state reached is explained by replaying, in some order, exactly the finished calls.\<close>

definition rc_linear :: "int \<Rightarrow> rc_sys \<Rightarrow> bool" where
  "rc_linear r0 s = (\<exists>es. mset es = mset (filter rc_finished (snd s)) \<and> rc_replay r0 es = Some (fst s))"

definition rc_reads_ok :: "rc_sys \<Rightarrow> bool" where
  "rc_reads_ok s = (\<forall>(opr, pc) \<in> set (snd s). \<forall>old. pc = RcRead old \<longrightarrow> rc_guard opr old = RcRead old)"

lemma rc_replay_append:
  "rc_replay r (es @ es') = (case rc_replay r es of None \<Rightarrow> None | Some r' \<Rightarrow> rc_replay r' es')"
  by (induction r es rule: rc_replay.induct) (auto split: option.splits)

lemma rc_guard_atomic:
  "rc_guard opr r = RcDone b \<Longrightarrow> rc_atomic opr r = Some (b, r)"
  "rc_guard opr r = RcBug \<Longrightarrow> rc_atomic opr r = None"
  "rc_guard opr r = RcRead old \<Longrightarrow> old = r \<and> rc_atomic opr r = Some (rc_result opr r, rc_new opr r)"
  "rc_guard opr r \<noteq> RcLoop"
  by (cases opr; auto simp: refcount_inc_not_zero_def refcount_inc_allow_zero_def
      refcount_dec_and_test_def refcount_dec_if_positive_def split: if_splits)+


lemma rc_guard_new:
  "rc_guard opr r = RcRead old \<Longrightarrow> 0 \<le> rc_new opr r"
  by (cases opr) (auto split: if_splits)

lemma filter_update_mset:
  assumes "i < length xs" "\<not> P (xs ! i)"
  shows "mset (filter P (xs[i := y])) = (if P y then {#y#} else {#}) + mset (filter P xs)"
  using assms by (simp add: mset_filter mset_update filter_diff_mset)

lemma rc_step_reads_ok:
  assumes "rc_step s s'" "rc_reads_ok s"
  shows "rc_reads_ok s'"
  using assms(1)
proof cases
  case (rc_step i ts opr pc r pc' r')
  have "rc_guard opr old = RcRead old" if "pc' = RcRead old" for old
    using rc_step(5) that rc_guard_atomic(3) by (cases pc) (auto split: if_splits)
  moreover have "\<forall>(opr, pc) \<in> set ts. \<forall>old. pc = RcRead old \<longrightarrow> rc_guard opr old = RcRead old"
    using assms(2) rc_step(1) by (auto simp: rc_reads_ok_def)
  ultimately show ?thesis
    using set_update_subset_insert [of ts i "(opr, pc')"] unfolding rc_reads_ok_def rc_step(2) by fastforce
qed

text \<open>A step that finishes a call is the atomic operation; the other steps leave the counter alone.\<close>

lemma rc_thread_cases:
  assumes "rc_thread opr pc r = (pc', r')" "\<forall>old. pc = RcRead old \<longrightarrow> rc_guard opr old = RcRead old"
  obtains (silent) "rc_finished (opr, pc) \<longleftrightarrow> rc_finished (opr, pc')" "r' = r" "rc_finished (opr, pc) \<Longrightarrow> pc' = pc"
    | (bug) "\<not> rc_finished (opr, pc)" "pc' = RcBug" "r' = r" "rc_atomic opr r = None"
    | (return) b where "\<not> rc_finished (opr, pc)" "pc' = RcDone b" "rc_atomic opr r = Some (b, r')"
proof (cases pc)
  case RcLoop
  then have g: "rc_guard opr r = pc'" "r' = r" "\<not> rc_finished (opr, pc)"
    using assms(1) by (auto simp: rc_finished_def)
  show ?thesis
  proof (cases pc')
    case RcBug
    show ?thesis using g RcBug rc_guard_atomic(2) by (intro bug) auto
  next
    case (RcDone b)
    show ?thesis using g RcDone rc_guard_atomic(1) [of opr r b] by (intro return) auto
  qed (use g rc_guard_atomic(4) [of opr r] in \<open>auto intro!: silent simp: rc_finished_def\<close>)
next
  case (RcRead old)
  have nf: "\<not> rc_finished (opr, pc)" using RcRead by (simp add: rc_finished_def)
  show ?thesis
  proof (cases "r = old")
    case True
    show ?thesis
      using True RcRead assms rc_guard_atomic(3) [of opr old old] nf by (intro return [of "rc_result opr old"]) auto
  next
    case False
    show ?thesis using False RcRead assms(1) nf by (intro silent) (auto simp: rc_finished_def)
  qed
qed (use assms(1) in \<open>auto intro!: silent simp: rc_finished_def\<close>)

lemma rc_step_linear:
  assumes "rc_step s s'" "rc_reads_ok s" "rc_linear r0 s"
  shows "rc_linear r0 s'"
  using assms(1)
proof cases
  case (rc_step i ts opr pc r pc' r')
  obtain es where es: "mset es = mset (filter rc_finished ts)" "rc_replay r0 es = Some r"
    using assms(3) rc_step(1) by (auto simp: rc_linear_def)
  have ok: "\<forall>old. pc = RcRead old \<longrightarrow> rc_guard opr old = RcRead old"
    using assms(2) rc_step(1,3,4) nth_mem [OF rc_step(3)] by (fastforce simp: rc_reads_ok_def)
  note upd = filter_update_mset [OF rc_step(3), of rc_finished, unfolded rc_step(4)]
  from rc_step(5) ok show ?thesis
  proof (cases rule: rc_thread_cases)
    case silent
    then have "mset (filter rc_finished (ts[i := (opr, pc')])) = mset (filter rc_finished ts)"
      using upd [of "(opr, pc')"] rc_step(4) list_update_id [of ts i] by (cases "rc_finished (opr, pc)") auto
    then show ?thesis using es silent(2) unfolding rc_linear_def rc_step(2) by auto
  next
    case bug
    then show ?thesis
      using es upd [of "(opr, pc')"] unfolding rc_linear_def rc_step(2)
      by (intro exI [of _ "es @ [(opr, pc')]"]) (simp add: rc_replay_append rc_finished_def)
  next
    case (return b)
    then show ?thesis
      using es upd [of "(opr, pc')"] unfolding rc_linear_def rc_step(2)
      by (intro exI [of _ "es @ [(opr, pc')]"]) (simp add: rc_replay_append rc_finished_def)
  qed
qed

lemma rc_start_ok: "rc_reads_ok (rc_start r0 ops)" "rc_linear r0 (rc_start r0 ops)"
  by (auto simp: rc_reads_ok_def rc_linear_def rc_start_def rc_finished_def filter_empty_conv)

lemma rc_reach_ok:
  assumes "rc_step\<^sup>*\<^sup>* (rc_start r0 ops) s"
  shows "rc_reads_ok s \<and> rc_linear r0 s \<and> map fst (snd s) = ops"
  using assms
proof induction
  case base
  show ?case using rc_start_ok by (simp add: rc_start_def comp_def)
next
  case (step s s')
  have "map fst (snd s') = map fst (snd s)"
    using step(2) by (cases) (simp add: map_update list_update_same_conv)
  then show ?case using step rc_step_linear rc_step_reads_ok by simp
qed

text \<open>The last reference: at most one call sees the count reach zero, and the count stays there.\<close>

definition rc_lasts :: "(rc_op \<times> rc_pc) list \<Rightarrow> nat" where
  "rc_lasts = count_if (\<lambda>e. e = (DecAndTest, RcDone True))"

definition rc_incs :: "(rc_op \<times> rc_pc) list \<Rightarrow> nat" where
  "rc_incs = count_if (\<lambda>e. e = (IncNotZero, RcDone True))"

definition rc_decs :: "(rc_op \<times> rc_pc) list \<Rightarrow> nat" where
  "rc_decs = count_if (\<lambda>e. e = (DecAndTest, RcDone True) \<or> e = (DecAndTest, RcDone False))"

lemma rc_counts_Cons:
  "rc_lasts (e # es) = (if e = (DecAndTest, RcDone True) then 1 else 0) + rc_lasts es"
  "rc_incs (e # es) = (if e = (IncNotZero, RcDone True) then 1 else 0) + rc_incs es"
  "rc_decs (e # es) = (if e = (DecAndTest, RcDone True) \<or> e = (DecAndTest, RcDone False) then 1 else 0) + rc_decs es"
  by (simp_all add: rc_lasts_def rc_incs_def rc_decs_def)

lemma rc_replay_last:
  assumes "rc_replay r es = Some r'" "0 \<le> r" "\<forall>e \<in> set es. fst e \<in> {IncNotZero, DecAndTest}"
  shows "0 \<le> r' \<and> rc_lasts es + (if r = 0 then 1 else 0) = (if r' = 0 then 1 else 0) \<and>
    r' = r + int (rc_incs es) - int (rc_decs es)"
  using assms
proof (induction es arbitrary: r)
  case (Cons e es)
  obtain opr pc where e: "e = (opr, pc)" by (cases e)
  have opr: "opr = IncNotZero \<or> opr = DecAndTest" using Cons.prems(3) e by simp
  have all: "\<forall>e \<in> set es. fst e \<in> {IncNotZero, DecAndTest}" using Cons.prems(3) by simp
  note IH = Cons.IH [OF _ _ all] and cnt = rc_counts_Cons
    refcount_inc_not_zero_def refcount_dec_and_test_def
  show ?case
  proof (cases pc)
    case RcBug
    then have "rc_replay r es = Some r'" using Cons.prems(1) by (simp add: e split: if_splits)
    then show ?thesis using IH [of r] Cons.prems(2) RcBug by (simp add: e cnt)
  next
    case (RcDone b)
    from opr show ?thesis
    proof
      assume i: "opr = IncNotZero"
      show ?thesis
      proof (cases "r = 0")
        case True
        then show ?thesis using Cons.prems(1) i RcDone IH [of 0] by (simp add: e cnt split: if_splits)
      next
        case False
        then have "rc_replay (r + 1) es = Some r'" "b" using Cons.prems(1) i RcDone by (auto simp: e cnt split: if_splits)
        then show ?thesis using IH [of "r + 1"] Cons.prems(2) False i RcDone by (simp add: e cnt)
      qed
    next
      assume d: "opr = DecAndTest"
      then have *: "rc_replay (r - 1) es = Some r'" "b = (r = 1)" "0 < r"
        using Cons.prems(1) RcDone by (auto simp: e cnt split: if_splits)
      show ?thesis using IH [OF *(1)] * d RcDone by (cases b) (simp_all add: e cnt)
    qed
  qed (use Cons.prems(1) in \<open>simp_all add: e\<close>)
qed (auto simp: rc_lasts_def rc_incs_def rc_decs_def)

lemma count_if_mset: "mset xs = mset ys \<Longrightarrow> count_if P xs = count_if P ys"
  unfolding count_if_def by (metis mset_filter size_mset)

lemma count_if_filter: "(\<And>x. P x \<Longrightarrow> Q x) \<Longrightarrow> count_if P (filter Q xs) = count_if P xs"
  unfolding count_if_def by (induction xs) auto


section \<open>Schedules\<close>

text \<open>A schedule names the thread that takes each step; every run of one is an execution of the system.\<close>

fun rc_run :: "nat list \<Rightarrow> rc_sys \<Rightarrow> rc_sys" where
  "rc_run [] s = s"
| "rc_run (i # sch) (r, ts) =
     (if i < length ts
      then let (opr, pc) = ts ! i; (pc', r') = rc_thread opr pc r in rc_run sch (r', ts[i := (opr, pc')])
      else rc_run sch (r, ts))"

lemma rc_run_steps: "rc_step\<^sup>*\<^sup>* s (rc_run sch s)"
proof (induction sch s rule: rc_run.induct)
  case (2 i sch r ts)
  show ?case
  proof (cases "i < length ts")
    case True
    obtain opr pc pc' r' where t: "ts ! i = (opr, pc)" "rc_thread opr pc r = (pc', r')" by fastforce
    then have "rc_step (r, ts) (r', ts[i := (opr, pc')])" using True by (intro rc_step.intros) auto
    then show ?thesis
      using 2(1) [OF True t(1) [symmetric] refl t(2) [symmetric] refl] True t
      by (simp add: converse_rtranclp_into_rtranclp)
  qed (use 2 in simp)
qed simp

lemma rc_run_Cons:
  "i < length ts \<Longrightarrow> ts ! i = (opr, pc) \<Longrightarrow>
   rc_run (i # sch) (r, ts) = rc_run sch (snd (rc_thread opr pc r), ts[i := (opr, fst (rc_thread opr pc r))])"
  by (simp add: case_prod_beta Let_def)

lemma rc_thread_thrice:
  "rc_finished (opr, fst (let (pc, r) = rc_thread opr pc r; (pc, r) = rc_thread opr pc r in rc_thread opr pc r))"
proof -
  have "rc_finished (opr, fst (rc_thread opr (rc_guard opr r) r))"
    using rc_guard_atomic(3) [of opr r] rc_guard_atomic(4) [of opr r]
    by (cases "rc_guard opr r") (auto simp: rc_finished_def)
  then show ?thesis
    by (cases pc; cases "rc_guard opr r") (auto simp: rc_finished_def split: if_splits)
qed

section \<open>Properties\<close>





text \<open>
  The loops end. From any state of the counter and of the other threads, a thread that is scheduled three times without interference has finished
  its call; a swap fails only when another call succeeded in between.
\<close>

theorem refcount_solo_terminates:
  assumes "i < length ts"
  shows "rc_finished (snd (rc_run [i, i, i] (r, ts)) ! i)"
proof -
  obtain opr pc where "ts ! i = (opr, pc)" by fastforce
  then show ?thesis
    using assms rc_thread_thrice [of opr pc r]
    by (simp add: rc_run_Cons case_prod_beta Let_def del: rc_run.simps(2))
qed

theorem refcount_solo_terminates_witness:
  "rc_finished (snd (rc_run [1, 1, 1] (5, [(DecAndTest, RcLoop), (IncNotZero, RcRead 4)])) ! 1)"
  using refcount_solo_terminates [of 1 "[(DecAndTest, RcLoop), (IncNotZero, RcRead 4)]" 5] by simp

end
