(* ===== verification/Pid.thy ===== *)
theory Pid
  imports Bitmap Refcount
begin

text \<open>
  The PID allocator and task registry of \<^verbatim>\<open>kernel/pid.c\<close>, with the reference-counted task life cycle of
  \<^verbatim>\<open>kernel/task.c\<close> that drives it (allocation, publication, lookup and the final put). Tasks are named by numbers;
  a failed \<^verbatim>\<open>BUG_ON\<close> is \<open>None\<close>. Every operation holds \<^verbatim>\<open>pid_lock\<close> for its whole body, so it is one step.
\<close>

definition PID_MAX :: int where "PID_MAX = 255"

definition PID_COUNT :: nat where "PID_COUNT = 256"

text \<open>The identity and life-cycle fields of a task that the registry and the reference count use.\<close>

record task_life =
  t_pid :: int
  t_published :: bool
  t_refs :: int

record pid_state =
  pid_map :: bitmap
  pid_tasks :: "nat option list"
  tasks :: "nat \<Rightarrow> task_life"

definition upd_task :: "nat \<Rightarrow> (task_life \<Rightarrow> task_life) \<Rightarrow> pid_state \<Rightarrow> pid_state" where
  "upd_task t f st = st\<lparr>tasks := (tasks st)(t := f (tasks st t))\<rparr>"

definition pid_init :: "pid_state \<Rightarrow> pid_state" where
  "pid_init st =
     (let m = bitmap_zero (pid_map st) in
      st\<lparr>pid_map := bitmap_set m 0, pid_tasks := replicate PID_COUNT None\<rparr>)"

definition alloc_pid :: "pid_state \<Rightarrow> (errno + int) \<times> pid_state" where
  "alloc_pid st =
     (let pid = bitmap_find_first_zero (pid_map st) in
      if pid \<ge> PID_COUNT then (Inl ENOSPC, st)
      else (Inr (int pid), st\<lparr>pid_map := bitmap_set (pid_map st) pid\<rparr>))"

definition free_pid :: "int \<Rightarrow> pid_state \<Rightarrow> pid_state option" where
  "free_pid pid st =
     (if pid = 0 then Some st
      else if pid < 0 \<or> pid > PID_MAX then Some st
      else if pid_tasks st ! nat pid \<noteq> None then None
      else Some (st\<lparr>pid_map := bitmap_clear (pid_map st) (nat pid)\<rparr>))"

definition pid_attach_task :: "int \<Rightarrow> nat \<Rightarrow> pid_state \<Rightarrow> pid_state option" where
  "pid_attach_task pid task st =
     (if pid < 0 \<or> pid > PID_MAX then None
      else if pid_tasks st ! nat pid \<noteq> None \<and> pid_tasks st ! nat pid \<noteq> Some task then None
      else if t_published (tasks st task) then None
      else
        let st1 = upd_task task (\<lambda>t. t\<lparr>t_published := True\<rparr>) st in
        Some (st1\<lparr>pid_tasks := (pid_tasks st1)[nat pid := Some task]\<rparr>))"

definition pid_detach_task :: "int \<Rightarrow> nat \<Rightarrow> pid_state \<Rightarrow> pid_state" where
  "pid_detach_task pid task st =
     (if pid < 0 \<or> pid > PID_MAX then st
      else if pid_tasks st ! nat pid = Some task then
        upd_task task (\<lambda>t. t\<lparr>t_published := False\<rparr>) (st\<lparr>pid_tasks := (pid_tasks st)[nat pid := None]\<rparr>)
      else st)"

definition task_try_get_published :: "nat \<Rightarrow> pid_state \<Rightarrow> (bool \<times> pid_state) option" where
  "task_try_get_published task st =
     (if \<not> t_published (tasks st task) then Some (False, st)
      else case refcount_inc_not_zero (t_refs (tasks st task)) of
        None \<Rightarrow> None
      | Some (b, r) \<Rightarrow> Some (b, upd_task task (\<lambda>t. t\<lparr>t_refs := r\<rparr>) st))"

definition pid_task_get :: "int \<Rightarrow> pid_state \<Rightarrow> (nat option \<times> pid_state) option" where
  "pid_task_get pid st =
     (if pid < 0 \<or> pid > PID_MAX then Some (None, st)
      else case pid_tasks st ! nat pid of
        None \<Rightarrow> Some (None, st)
      | Some task \<Rightarrow>
          (case task_try_get_published task st of
             None \<Rightarrow> None
           | Some (ok, st') \<Rightarrow> Some (if ok then Some task else None, st')))"

text \<open>The visitor loop: \<open>visit\<close> is the callback with its argument threaded through.\<close>

fun visit_pids :: "(nat \<Rightarrow> 'a \<Rightarrow> bool \<times> 'a) \<Rightarrow> nat option list \<Rightarrow> 'a \<Rightarrow> bool \<times> 'a" where
  "visit_pids visit [] a = (False, a)"
| "visit_pids visit (None # ts) a = visit_pids visit ts a"
| "visit_pids visit (Some t # ts) a =
     (let (found, a') = visit t a in if found then (True, a') else visit_pids visit ts a')"

definition pid_visit_published :: "(nat \<Rightarrow> 'a \<Rightarrow> bool \<times> 'a) option \<Rightarrow> pid_state \<Rightarrow> 'a \<Rightarrow> bool \<times> 'a" where
  "pid_visit_published visit st a =
     (case visit of None \<Rightarrow> (False, a) | Some v \<Rightarrow> visit_pids v (drop 1 (pid_tasks st)) a)"

definition pid_count_tasks :: "pid_state \<Rightarrow> u16" where
  "pid_count_tasks st =
     fold (\<lambda>t count. if t \<noteq> None then count + 1 else count) (drop 1 (pid_tasks st)) 0"

section \<open>The task life cycle\<close>

definition idle_task :: nat where "idle_task = 0"

text \<open>
  \<^verbatim>\<open>task_alloc\<close> as far as the identity of the task goes: the number and one reference. \<open>mem\<close> tells whether the allocations of
  the structure and of the kernel stack succeed; \<open>task\<close> is the structure they return.
\<close>

definition task_alloc :: "bool \<Rightarrow> nat \<Rightarrow> pid_state \<Rightarrow> nat option \<times> pid_state" where
  "task_alloc mem task st =
     (if \<not> mem then (None, st)
      else case alloc_pid st of
        (Inl _, st') \<Rightarrow> (None, st')
      | (Inr pid, st') \<Rightarrow>
          (Some task, upd_task task (\<lambda>_. \<lparr>t_pid = pid, t_published = False, t_refs = 1\<rparr>) st'))"

definition task_publish :: "nat \<Rightarrow> pid_state \<Rightarrow> pid_state option" where
  "task_publish task st =
     (if t_refs (tasks st task) \<le> 0 then None else pid_attach_task (t_pid (tasks st task)) task st)"

definition task_unpublish :: "nat \<Rightarrow> pid_state \<Rightarrow> pid_state" where
  "task_unpublish task st = pid_detach_task (t_pid (tasks st task)) task st"

text \<open>The identity part of \<^verbatim>\<open>task_init\<close>: the idle task with PID 0 is set up and published.\<close>

definition task_init :: "pid_state \<Rightarrow> pid_state option" where
  "task_init st =
     (let st1 = pid_init st;
          st2 = upd_task idle_task (\<lambda>_. \<lparr>t_pid = 0, t_published = False, t_refs = 1\<rparr>) st1
      in task_publish idle_task st2)"

definition task_put :: "nat option \<Rightarrow> pid_state \<Rightarrow> pid_state option" where
  "task_put task st =
     (case task of
        None \<Rightarrow> Some st
      | Some t \<Rightarrow>
          if t = idle_task then Some st
          else case refcount_dec_and_test (t_refs (tasks st t)) of
            None \<Rightarrow> None
          | Some (is_last, r) \<Rightarrow>
              let st1 = upd_task t (\<lambda>x. x\<lparr>t_refs := r\<rparr>) st in
              if is_last then
                if t_published (tasks st1 t) then None else free_pid (t_pid (tasks st1 t)) st1
              else Some st1)"

section \<open>Invariant\<close>

definition alive :: "pid_state \<Rightarrow> nat \<Rightarrow> bool" where
  "alive st t \<longleftrightarrow> t_refs (tasks st t) > 0"

definition pid_wf :: "pid_state \<Rightarrow> bool" where
  "pid_wf st \<longleftrightarrow>
     (bitmap_wf (pid_map st) \<and> nbits (pid_map st) = PID_COUNT \<and> length (pid_tasks st) = PID_COUNT) \<and>
     (alive st idle_task \<and> t_pid (tasks st idle_task) = 0) \<and>
     (\<forall>t. 0 \<le> t_refs (tasks st t)) \<and>
     (\<forall>t. alive st t \<longrightarrow> 0 \<le> t_pid (tasks st t) \<and> t_pid (tasks st t) \<le> PID_MAX \<and>
        nat (t_pid (tasks st t)) \<in> bitmap_bits (pid_map st)) \<and>
     (\<forall>t u. alive st t \<longrightarrow> alive st u \<longrightarrow> t_pid (tasks st t) = t_pid (tasks st u) \<longrightarrow> t = u) \<and>
     (\<forall>t. t_published (tasks st t) \<longrightarrow> alive st t \<and> pid_tasks st ! nat (t_pid (tasks st t)) = Some t) \<and>
     (\<forall>p < PID_COUNT. \<forall>t. pid_tasks st ! p = Some t \<longrightarrow> t_published (tasks st t) \<and> t_pid (tasks st t) = int p)"

lemma pid_wfD:
  assumes "pid_wf st"
  shows "bitmap_wf (pid_map st)" "nbits (pid_map st) = PID_COUNT" "length (pid_tasks st) = PID_COUNT"
    "alive st idle_task" "t_pid (tasks st idle_task) = 0" "0 \<le> t_refs (tasks st t)"
    "alive st t \<Longrightarrow> 0 \<le> t_pid (tasks st t) \<and> t_pid (tasks st t) \<le> PID_MAX \<and>
      nat (t_pid (tasks st t)) \<in> bitmap_bits (pid_map st)"
    "alive st t \<Longrightarrow> alive st u \<Longrightarrow> t_pid (tasks st t) = t_pid (tasks st u) \<Longrightarrow> t = u"
    "t_published (tasks st t) \<Longrightarrow> alive st t \<and> pid_tasks st ! nat (t_pid (tasks st t)) = Some t"
    "p < PID_COUNT \<Longrightarrow> pid_tasks st ! p = Some t \<Longrightarrow> t_published (tasks st t) \<and> t_pid (tasks st t) = int p"
  using assms unfolding pid_wf_def by blast+

lemma pid_cases:
  assumes "pid_wf st" "alive st t"
  obtains p where "t_pid (tasks st t) = int p" "p < PID_COUNT" "\<not> int p > PID_MAX" "p \<in> bitmap_bits (pid_map st)"
proof -
  have "0 \<le> t_pid (tasks st t)" "t_pid (tasks st t) \<le> PID_MAX" "nat (t_pid (tasks st t)) \<in> bitmap_bits (pid_map st)"
    using pid_wfD(7) [OF assms] by auto
  then show thesis by (intro that [of "nat (t_pid (tasks st t))"]) (auto simp: PID_MAX_def PID_COUNT_def)
qed

lemma task_alloc_wf:
  assumes wf: "pid_wf st" and dead: "\<not> alive st t"
  shows "pid_wf (snd (task_alloc mem t st))"
proof (cases "mem \<and> bitmap_find_first_zero (pid_map st) < PID_COUNT")
  case False
  then show ?thesis using wf by (auto simp: task_alloc_def alloc_pid_def Let_def)
next
  case True
  define p where "p = bitmap_find_first_zero (pid_map st)"
  note w = pid_wfD [OF wf]
  have p: "p < PID_COUNT" "p \<notin> bitmap_bits (pid_map st)" "int p \<le> PID_MAX"
    using bm.alloc_some(1) [OF w(1)] True w(2) by (auto simp: p_def PID_COUNT_def PID_MAX_def)
  define st' where "st' = snd (task_alloc mem t st)"
  have st': "pid_map st' = bitmap_set (pid_map st) p" "pid_tasks st' = pid_tasks st"
    "tasks st' u = (if u = t then \<lparr>t_pid = int p, t_published = False, t_refs = 1\<rparr> else tasks st u)" for u
    using True by (auto simp: st'_def task_alloc_def alloc_pid_def Let_def upd_task_def p_def)
  have bits: "bitmap_bits (pid_map st') = insert p (bitmap_bits (pid_map st))"
    using p w(1,2) by (simp add: st' bitmap_set_bits)
  have al: "alive st' u \<longleftrightarrow> u = t \<or> alive st u" for u by (simp add: alive_def st')
  have fresh: "t_pid (tasks st u) \<noteq> int p" if "alive st u" for u
    using w(7) [OF that] p(2) by (metis nat_int)
  have np: "\<not> t_published (tasks st t)" using w(9) dead by blast
  have tab: "pid_tasks st ! q \<noteq> Some t" if "q < PID_COUNT" for q using w(10) [OF that] np by blast
  have "pid_wf st'"
    unfolding pid_wf_def al
  proof (intro conjI allI impI; (elim conjE)?)
    show "t_pid (tasks st' idle_task) = 0" using w(4,5) dead by (auto simp: st')
    show "u = v" if "u = t \<or> alive st u" "v = t \<or> alive st v" "t_pid (tasks st' u) = t_pid (tasks st' v)" for u v
      using that fresh [of u] fresh [of v] w(8) [of u v] by (auto simp: st' split: if_splits)
  qed (use w p tab in \<open>auto simp: st' bits [unfolded st'(1)] split: if_splits\<close>)
  then show ?thesis by (simp add: st'_def)
qed


lemma task_publish_ok:
  assumes wf: "pid_wf st" and al: "alive st t" and np: "\<not> t_published (tasks st t)"
  shows "\<exists>st'. task_publish t st = Some st' \<and> pid_wf st' \<and> t_published (tasks st' t) \<and>
    pid_tasks st' = (pid_tasks st)[nat (t_pid (tasks st t)) := Some t]"
proof -
  note w = pid_wfD [OF wf]
  obtain p where p: "t_pid (tasks st t) = int p" "p < PID_COUNT" "\<not> int p > PID_MAX" "p \<in> bitmap_bits (pid_map st)"
    using pid_cases [OF wf al] .
  have free: "pid_tasks st ! p = None"
    using w(10) [OF p(2)] w(8) [OF al] w(9) np p(1) by (metis option.exhaust)
  define st' where "st' = (upd_task t (\<lambda>x. x\<lparr>t_published := True\<rparr>) st)\<lparr>pid_tasks := (pid_tasks st)[p := Some t]\<rparr>"
  have e: "task_publish t st = Some st'"
    using al p free np by (simp add: task_publish_def pid_attach_task_def alive_def st'_def upd_task_def Let_def)
  have s: "tasks st' u = (if u = t then (tasks st t)\<lparr>t_published := True\<rparr> else tasks st u)"
    "pid_tasks st' = (pid_tasks st)[p := Some t]" "pid_map st' = pid_map st" for u
    by (auto simp: st'_def upd_task_def)
  have tb: "pid_tasks st' ! q = (if q = p then Some t else pid_tasks st ! q)" for q
    using w(3) p(2) by (simp add: s nth_list_update)
  have al': "alive st' u \<longleftrightarrow> alive st u" for u by (auto simp: alive_def s)
  have pid': "t_pid (tasks st' u) = t_pid (tasks st u)" "t_refs (tasks st' u) = t_refs (tasks st u)" for u
    by (auto simp: s)
  have oth: "nat (t_pid (tasks st u)) \<noteq> p" if "t_published (tasks st u)" for u
    using w(9) [OF that] free by auto
  have "pid_wf st'"
    unfolding pid_wf_def al' pid'
  proof (intro conjI allI impI)
    show "pid_tasks st' ! nat (t_pid (tasks st u)) = Some u" if "t_published (tasks st' u)" for u
      using that oth [of u] w(3,9) p(1,2) by (auto simp: s(1,3) tb split: if_splits)
    show "length (pid_tasks st') = PID_COUNT" using w(3) by (simp add: s)
  qed (use w al p in \<open>auto simp: s(1,3) tb split: if_splits\<close>)
  then show ?thesis using e s p by auto
qed

lemma task_unpublish_ok:
  assumes wf: "pid_wf st" and pub: "t_published (tasks st t)"
  shows "pid_wf (task_unpublish t st) \<and> \<not> t_published (tasks (task_unpublish t st) t) \<and>
    pid_tasks (task_unpublish t st) = (pid_tasks st)[nat (t_pid (tasks st t)) := None]"
proof -
  note w = pid_wfD [OF wf]
  have al: "alive st t" "pid_tasks st ! nat (t_pid (tasks st t)) = Some t" using w(9) [OF pub] by auto
  obtain p where p: "t_pid (tasks st t) = int p" "p < PID_COUNT" "\<not> int p > PID_MAX"
    using pid_cases [OF wf al(1)] .
  define st' where "st' = task_unpublish t st"
  have s: "tasks st' u = (if u = t then (tasks st t)\<lparr>t_published := False\<rparr> else tasks st u)"
    "pid_tasks st' = (pid_tasks st)[p := None]" "pid_map st' = pid_map st" for u
    using p al by (auto simp: st'_def task_unpublish_def pid_detach_task_def upd_task_def)
  have tb: "pid_tasks st' ! q = (if q = p then None else pid_tasks st ! q)" for q
    using w(3) p(2) by (simp add: s nth_list_update)
  have al': "alive st' u \<longleftrightarrow> alive st u" for u by (auto simp: alive_def s)
  have pid': "t_pid (tasks st' u) = t_pid (tasks st u)" "t_refs (tasks st' u) = t_refs (tasks st u)" for u
    by (auto simp: s)
  have oth: "nat (t_pid (tasks st u)) \<noteq> p" if "t_published (tasks st u)" "u \<noteq> t" for u
    using w(9) [OF that(1)] al(2) p(1) that(2) by auto
  have tab: "q = p" if "q < PID_COUNT" "pid_tasks st ! q = Some t" for q using w(10) [OF that] p(1) by auto
  have "pid_wf st'"
    unfolding pid_wf_def al' pid'
  proof (intro conjI allI impI)
    show "pid_tasks st' ! nat (t_pid (tasks st u)) = Some u" if "t_published (tasks st' u)" for u
      using that oth [of u] w(9) by (auto simp: s(1,3) tb split: if_splits)
    show "t_published (tasks st' u)" if "q < PID_COUNT" "pid_tasks st' ! q = Some u" for q u
      using that tab [of q] w(10) [of q u] unfolding tb by (auto simp: s split: if_splits)
    show "length (pid_tasks st') = PID_COUNT" using w(3) by (simp add: s)
    show "u = v" if "alive st u" "alive st v" "t_pid (tasks st u) = t_pid (tasks st v)" for u v
      using w(8) that by blast
    show "t_pid (tasks st u) = int q" if "q < PID_COUNT" "pid_tasks st' ! q = Some u" for q u
      using that w(10) [of q u] by (simp add: tb split: if_splits)
  qed (use w(1,2,4-7,9) in \<open>auto simp: s(1,3) split: if_splits\<close>)
  then show ?thesis using s p by (simp add: st'_def)
qed

text \<open>A change of the reference count of a task that stays alive.\<close>

lemma refs_wf:
  assumes wf: "pid_wf st" and "alive st t" "0 < r"
  shows "pid_wf (upd_task t (\<lambda>x. x\<lparr>t_refs := r\<rparr>) st)"
proof -
  define st' where "st' = upd_task t (\<lambda>x. x\<lparr>t_refs := r\<rparr>) st"
  have s: "pid_map st' = pid_map st" "pid_tasks st' = pid_tasks st"
    "tasks st' u = (if u = t then (tasks st t)\<lparr>t_refs := r\<rparr> else tasks st u)" for u
    by (simp_all add: st'_def upd_task_def)
  have "alive st' u \<longleftrightarrow> alive st u" "t_pid (tasks st' u) = t_pid (tasks st u)"
    "t_published (tasks st' u) = t_published (tasks st u)" "0 \<le> t_refs (tasks st' u)" for u
    using assms pid_wfD(6) [OF wf] by (auto simp: s alive_def)
  then show ?thesis using wf unfolding st'_def [symmetric] by (simp add: pid_wf_def s)
qed

lemma task_put_ok:
  assumes wf: "pid_wf st" and al: "alive st t" and ni: "t \<noteq> idle_task"
    and safe: "t_refs (tasks st t) = 1 \<Longrightarrow> \<not> t_published (tasks st t)"
  shows "\<exists>st'. task_put (Some t) st = Some st' \<and> pid_wf st' \<and> t_refs (tasks st' t) = t_refs (tasks st t) - 1 \<and>
    bitmap_bits (pid_map st') = bitmap_bits (pid_map st) -
      (if t_refs (tasks st t) = 1 then {nat (t_pid (tasks st t))} else {})"
proof (cases "t_refs (tasks st t) = 1")
  case False
  then have "task_put (Some t) st = Some (upd_task t (\<lambda>x. x\<lparr>t_refs := t_refs (tasks st t) - 1\<rparr>) st)"
    using al ni by (simp add: task_put_def refcount_dec_and_test_def alive_def Let_def)
  then show ?thesis using refs_wf [OF wf al, of "t_refs (tasks st t) - 1"] False al
    by (simp add: upd_task_def alive_def)
next
  case True
  note w = pid_wfD [OF wf]
  obtain p where p: "t_pid (tasks st t) = int p" "p < PID_COUNT" "\<not> int p > PID_MAX" "p \<in> bitmap_bits (pid_map st)"
    using pid_cases [OF wf al] .
  have p0: "p \<noteq> 0" using w(4,5) w(8) [OF al w(4)] ni p(1) by auto
  have np: "\<not> t_published (tasks st t)" using safe True by blast
  have free: "pid_tasks st ! p = None" using w(10) [OF p(2)] w(8) [OF al] w(9) np p(1) by (metis option.exhaust)
  define st' where "st' = (upd_task t (\<lambda>x. x\<lparr>t_refs := 0\<rparr>) st)\<lparr>pid_map := bitmap_clear (pid_map st) p\<rparr>"
  have e: "task_put (Some t) st = Some st'"
    using True al ni p p0 np free
    by (simp add: task_put_def refcount_dec_and_test_def alive_def Let_def upd_task_def free_pid_def st'_def)
  have s: "tasks st' u = (if u = t then (tasks st t)\<lparr>t_refs := 0\<rparr> else tasks st u)"
    "pid_tasks st' = pid_tasks st" "pid_map st' = bitmap_clear (pid_map st) p" for u
    by (auto simp: st'_def upd_task_def)
  have bits: "bitmap_bits (bitmap_clear (pid_map st) p) = bitmap_bits (pid_map st) - {p}"
    using w(1) by (simp add: bitmap_clear_bits)
  have al': "alive st' u \<longleftrightarrow> alive st u \<and> u \<noteq> t" for u by (auto simp: alive_def s)
  have oth: "nat (t_pid (tasks st u)) \<noteq> p" if "alive st u" "u \<noteq> t" for u
    using w(8) [OF that(1) al] w(7) [OF that(1)] that(2) p(1) by auto
  have "pid_wf st'"
    unfolding pid_wf_def al'
  proof (intro conjI allI impI; (elim conjE)?)
    show "u = v" if "alive st u" "u \<noteq> t" "alive st v" "v \<noteq> t" "t_pid (tasks st' u) = t_pid (tasks st' v)" for u v
      using that w(8) by (simp add: s)
    show "t_published (tasks st' u)" "t_pid (tasks st' u) = int q" if "q < PID_COUNT" "pid_tasks st' ! q = Some u" for q u
      using that w(10) [of q u] by (auto simp: s)
    show "pid_tasks st' ! nat (t_pid (tasks st' u)) = Some u" "alive st u" "u \<noteq> t"
      if "t_published (tasks st' u)" for u using that w(9) np by (auto simp: s split: if_splits)
  qed (use w(1-7) ni oth in \<open>auto simp: s bits split: if_splits\<close>)
  then show ?thesis using e True p s bits by simp
qed


lemma pid_task_get_ok:
  assumes wf: "pid_wf st" and p: "0 \<le> p" "p \<le> PID_MAX" and t: "pid_tasks st ! nat p = Some t"
    and max: "t_refs (tasks st t) \<noteq> REFCOUNT_MAX"
  shows "pid_task_get p st = Some (Some t, upd_task t (\<lambda>x. x\<lparr>t_refs := t_refs (tasks st t) + 1\<rparr>) st)"
    and "pid_wf (upd_task t (\<lambda>x. x\<lparr>t_refs := t_refs (tasks st t) + 1\<rparr>) st)"
    and "t_pid (tasks st t) = p \<and> alive st t"
proof -
  have lt: "nat p < PID_COUNT" using p by (simp add: PID_MAX_def PID_COUNT_def)
  have pub: "t_published (tasks st t)" "t_pid (tasks st t) = p" using pid_wfD(10) [OF wf lt t] p by auto
  have al: "alive st t" using pid_wfD(9) [OF wf pub(1)] by blast
  then show "t_pid (tasks st t) = p \<and> alive st t" using pub by simp
  show "pid_task_get p st = Some (Some t, upd_task t (\<lambda>x. x\<lparr>t_refs := t_refs (tasks st t) + 1\<rparr>) st)"
    using p t pub al max by (simp add: pid_task_get_def task_try_get_published_def refcount_inc_not_zero_def alive_def)
  show "pid_wf (upd_task t (\<lambda>x. x\<lparr>t_refs := t_refs (tasks st t) + 1\<rparr>) st)"
    using refs_wf [OF wf al] al by (simp add: alive_def)
qed

lemma task_unpublish_none:
  assumes wf: "pid_wf st" and np: "\<not> t_published (tasks st t)"
  shows "task_unpublish t st = st"
proof -
  have "pid_tasks st ! nat p \<noteq> Some t" if "0 \<le> p" "p \<le> PID_MAX" for p
  proof -
    have "nat p < PID_COUNT" using that by (simp add: PID_MAX_def PID_COUNT_def)
    then show ?thesis using pid_wfD(10) [OF wf, of "nat p" t] np by blast
  qed
  then show ?thesis by (auto simp: task_unpublish_def pid_detach_task_def)
qed

section \<open>The registry as a transition system\<close>

datatype life_op = OpAlloc bool nat | OpPublish nat | OpUnpublish nat | OpGet int | OpPut nat

fun life_exec :: "life_op \<Rightarrow> pid_state \<Rightarrow> pid_state option" where
  "life_exec (OpAlloc mem t) st = Some (snd (task_alloc mem t st))"
| "life_exec (OpPublish t) st = task_publish t st"
| "life_exec (OpUnpublish t) st = Some (task_unpublish t st)"
| "life_exec (OpGet p) st = map_option snd (pid_task_get p st)"
| "life_exec (OpPut t) st = task_put (Some t) st"

text \<open>
  What the callers in \<^verbatim>\<open>task.c\<close>, \<^verbatim>\<open>fork.c\<close> and \<^verbatim>\<open>exit.c\<close> keep to: a task structure is allocated when nobody holds
  it, published once, looked up below the count limit, and unpublished before its last reference is dropped.
\<close>

fun life_pre :: "life_op \<Rightarrow> pid_state \<Rightarrow> bool" where
  "life_pre (OpAlloc mem t) st = (\<not> alive st t)"
| "life_pre (OpPublish t) st = (alive st t \<and> \<not> t_published (tasks st t))"
| "life_pre (OpUnpublish t) st = True"
| "life_pre (OpGet p) st =
     (\<not> (0 \<le> p \<and> p \<le> PID_MAX) \<or>
      (case pid_tasks st ! nat p of None \<Rightarrow> True | Some t \<Rightarrow> t_refs (tasks st t) \<noteq> REFCOUNT_MAX))"
| "life_pre (OpPut t) st =
     (t \<noteq> idle_task \<and> alive st t \<and> (t_refs (tasks st t) \<noteq> 1 \<or> \<not> t_published (tasks st t)))"

lemma life_exec_ok:
  assumes wf: "pid_wf st" and pre: "life_pre op st"
  shows "\<exists>st'. life_exec op st = Some st' \<and> pid_wf st'"
proof (cases op)
  case (OpAlloc mem t)
  then show ?thesis using task_alloc_wf [OF wf] pre by simp
next
  case (OpPublish t)
  then show ?thesis using task_publish_ok [OF wf] pre by fastforce
next
  case (OpUnpublish t)
  then show ?thesis
    using task_unpublish_ok [OF wf, of t] task_unpublish_none [OF wf, of t] wf
    by (cases "t_published (tasks st t)") auto
next
  case (OpGet p)
  show ?thesis
  proof (cases "0 \<le> p \<and> p \<le> PID_MAX \<and> pid_tasks st ! nat p \<noteq> None")
    case True
    then obtain t where t: "pid_tasks st ! nat p = Some t" by blast
    then show ?thesis using pid_task_get_ok(1,2) [OF wf _ _ t] True pre OpGet by simp
  next
    case False
    then have "pid_task_get p st = Some (None, st)" by (auto simp: pid_task_get_def)
    then show ?thesis using wf OpGet by simp
  qed
next
  case (OpPut t)
  then show ?thesis using task_put_ok [OF wf, of t] pre by fastforce
qed

inductive life_reach :: "pid_state \<Rightarrow> bool" where
  boot: "bitmap_wf (pid_map st) \<Longrightarrow> nbits (pid_map st) = PID_COUNT \<Longrightarrow>
    (\<forall>t. tasks st t = \<lparr>t_pid = 0, t_published = False, t_refs = 0\<rparr>) \<Longrightarrow> task_init st = Some st' \<Longrightarrow> life_reach st'"
| run: "life_reach st \<Longrightarrow> life_pre op st \<Longrightarrow> life_exec op st = Some st' \<Longrightarrow> life_reach st'"

lemma task_init_wf:
  assumes b: "bitmap_wf (pid_map st)" "nbits (pid_map st) = PID_COUNT"
    and z: "\<forall>t. tasks st t = \<lparr>t_pid = 0, t_published = False, t_refs = 0\<rparr>"
  shows "\<exists>st'. task_init st = Some st' \<and> pid_wf st' \<and> pid_tasks st' = (replicate PID_COUNT None)[0 := Some idle_task]"
proof -
  define st2 where "st2 = upd_task idle_task (\<lambda>_. \<lparr>t_pid = 0, t_published = False, t_refs = 1\<rparr>) (pid_init st)"
  have s: "pid_map st2 = bitmap_set (bitmap_zero (pid_map st)) 0" "pid_tasks st2 = replicate PID_COUNT None"
    "tasks st2 u = (if u = idle_task then \<lparr>t_pid = 0, t_published = False, t_refs = 1\<rparr> else \<lparr>t_pid = 0, t_published = False, t_refs = 0\<rparr>)" for u
    using z by (auto simp: st2_def upd_task_def pid_init_def Let_def)
  have al: "alive st2 u \<longleftrightarrow> u = idle_task" for u by (simp add: alive_def s)
  have bits: "bitmap_bits (pid_map st2) = {0}"
    using b by (simp add: s bitmap_set_bits bitmap_zero_wf bitmap_zero_bits PID_COUNT_def)
  have "pid_wf st2"
    unfolding pid_wf_def al bits using b by (auto simp: s bitmap_zero_wf PID_MAX_def)
  from task_publish_ok [OF this, of idle_task] show ?thesis
    using al [of idle_task] unfolding task_init_def Let_def st2_def [symmetric] by (auto simp: s)
qed

lemma life_reach_wf: "life_reach st \<Longrightarrow> pid_wf st"
proof (induction rule: life_reach.induct)
  case (boot st st')
  then show ?case using task_init_wf by fastforce
next
  case (run st op st')
  then show ?case using life_exec_ok by fastforce
qed


subsection \<open>Counting the published tasks\<close>

lemma count_fold_u16:
  "fold (\<lambda>t count. if t \<noteq> None then count + 1 else count) ts (c :: u16) = c + of_nat (count_if (\<lambda>t. t \<noteq> None) ts)"
  by (induction ts arbitrary: c) (auto simp: algebra_simps)

lemma count_if_card: "count_if P xs = card {i. i < length xs \<and> P (xs ! i)}"
  unfolding count_if_def by (rule length_filter_conv_card)

lemma pid_count_nat:
  assumes "length (pid_tasks st) = PID_COUNT"
  shows "unat (pid_count_tasks st) = card {q. 0 < q \<and> q < PID_COUNT \<and> pid_tasks st ! q \<noteq> None}"
proof -
  define n where "n = count_if (\<lambda>t. t \<noteq> None) (drop 1 (pid_tasks st))"
  have "n \<le> length (drop 1 (pid_tasks st))" unfolding n_def count_if_def by (rule length_filter_le)
  then have "n < 2 ^ 16" using assms by (simp add: PID_COUNT_def)
  then have "unat (pid_count_tasks st) = n"
    unfolding pid_count_tasks_def count_fold_u16 n_def [symmetric] by (simp add: unat_of_nat)
  also have "n = card (Suc ` {i. i < PID_COUNT - 1 \<and> pid_tasks st ! Suc i \<noteq> None})"
    using assms by (simp add: n_def count_if_card card_image PID_COUNT_def)
  also have "Suc ` {i. i < PID_COUNT - 1 \<and> pid_tasks st ! Suc i \<noteq> None} =
      {q. 0 < q \<and> q < PID_COUNT \<and> pid_tasks st ! q \<noteq> None}"
    by (auto simp: image_iff gr0_conv_Suc)
  finally show ?thesis .
qed

lemma published_card:
  assumes wf: "pid_wf st"
  shows "card {q. 0 < q \<and> q < PID_COUNT \<and> pid_tasks st ! q \<noteq> None} =
    card {t. t_published (tasks st t) \<and> t \<noteq> idle_task}"
proof (rule sym, rule bij_betw_same_card [of "\<lambda>t. nat (t_pid (tasks st t))"], rule bij_betw_imageI)
  note w = pid_wfD [OF wf]
  show "inj_on (\<lambda>t. nat (t_pid (tasks st t))) {t. t_published (tasks st t) \<and> t \<noteq> idle_task}"
    using w(7,8,9) by (intro inj_onI) (metis (no_types, lifting) mem_Collect_eq eq_nat_nat_iff)
  show "(\<lambda>t. nat (t_pid (tasks st t))) ` {t. t_published (tasks st t) \<and> t \<noteq> idle_task} =
      {q. 0 < q \<and> q < PID_COUNT \<and> pid_tasks st ! q \<noteq> None}" (is "?f ` ?T = ?Q")
  proof (intro equalityI subsetI)
    fix q assume "q \<in> ?f ` ?T"
    then obtain t where t: "t_published (tasks st t)" "t \<noteq> idle_task" "q = nat (t_pid (tasks st t))" by blast
    have al: "alive st t" "pid_tasks st ! q = Some t" using w(9) [OF t(1)] t(3) by auto
    obtain p where p: "t_pid (tasks st t) = int p" "p < PID_COUNT" using pid_cases [OF wf al(1)] .
    have "p \<noteq> 0" using w(8) [OF al(1) w(4)] w(5) p(1) t(2) by auto
    then show "q \<in> ?Q" using p t(3) al(2) by simp
  next
    fix q assume "q \<in> ?Q"
    then obtain t where t: "0 < q" "q < PID_COUNT" "pid_tasks st ! q = Some t" by blast
    have "t_published (tasks st t)" "t_pid (tasks st t) = int q" using w(10) [OF t(2,3)] by auto
    then show "q \<in> ?f ` ?T" using w(5) t(1) by (intro image_eqI [of _ _ t]) auto
  qed
qed

section \<open>Properties\<close>

definition boot_pids :: pid_state where
  "boot_pids = \<lparr>pid_map = bitmap_init [0, 0, 0, 7] 256, pid_tasks = [],
     tasks = (\<lambda>_. \<lparr>t_pid = 0, t_published = False, t_refs = 0\<rparr>)\<rparr>"

definition ex_pids :: pid_state where
  "ex_pids = the (life_exec (OpPublish 5) (the (life_exec (OpAlloc True 5) (the (task_init boot_pids)))))"

lemma boot_pids_ok: "life_reach (the (task_init boot_pids))"
proof -
  have b: "bitmap_wf (pid_map boot_pids)" "nbits (pid_map boot_pids) = PID_COUNT" by code_simp+
  have z: "\<forall>t. tasks boot_pids t = \<lparr>t_pid = 0, t_published = False, t_refs = 0\<rparr>" by (simp add: boot_pids_def)
  obtain st' where "task_init boot_pids = Some st'" using task_init_wf [OF b z] by blast
  then show ?thesis using life_reach.boot [OF b z] by simp
qed

lemma ex_pids_reach: "life_reach ex_pids"
proof -
  let ?a = "the (life_exec (OpAlloc True 5) (the (task_init boot_pids)))"
  have a: "life_reach ?a"
    by (rule life_reach.run [OF boot_pids_ok, of "OpAlloc True 5"]) (code_simp, simp)
  have pre: "life_pre (OpPublish 5) ?a" by code_simp
  obtain st' where st': "life_exec (OpPublish 5) ?a = Some st'"
    using life_exec_ok [OF life_reach_wf [OF a] pre] by blast
  then show ?thesis unfolding ex_pids_def using life_reach.run [OF a pre st'] by simp
qed



text \<open>
  C16: allocation. In a reachable state \<^verbatim>\<open>alloc_pid\<close> returns the smallest PID that is not in use, marks it and nothing else,
  and it fails with \<^verbatim>\<open>ENOSPC\<close>, changing nothing, exactly when all PIDs are in use; the PID returned
  belongs to no live task and is never 0.
\<close>

theorem alloc_pid_spec:
  assumes "life_reach st"
  shows "case alloc_pid st of
      (Inl e, st') \<Rightarrow> e = ENOSPC \<and> st' = st \<and> bitmap_bits (pid_map st) = {..<PID_COUNT}
    | (Inr pid, st') \<Rightarrow> 0 < pid \<and> pid \<le> PID_MAX \<and> nat pid \<notin> bitmap_bits (pid_map st) \<and>
        {..<nat pid} \<subseteq> bitmap_bits (pid_map st) \<and>
        bitmap_bits (pid_map st') = insert (nat pid) (bitmap_bits (pid_map st)) \<and>
        (\<forall>t. alive st t \<longrightarrow> t_pid (tasks st t) \<noteq> pid) \<and> pid_tasks st' = pid_tasks st"
proof -
  have wf: "pid_wf st" using life_reach_wf assms by blast
  note w = pid_wfD [OF wf]
  define p where "p = bitmap_find_first_zero (pid_map st)"
  show ?thesis
  proof (cases "p < PID_COUNT")
    case False
    then show ?thesis using bm.alloc_none [OF w(1)] w(2) by (simp add: alloc_pid_def Let_def p_def)
  next
    case True
    then have p: "p \<notin> bitmap_bits (pid_map st)" "{..<p} \<subseteq> bitmap_bits (pid_map st)"
      using bm.alloc_some [OF w(1)] w(2) by (auto simp: p_def)
    have "0 \<in> bitmap_bits (pid_map st)" using w(7) [OF w(4)] w(5) by simp
    then have "p \<noteq> 0" using p(1) by metis
    moreover have "t_pid (tasks st t) \<noteq> int p" if "alive st t" for t using w(7) [OF that] p(1) by auto
    ultimately show ?thesis
      using True p w(1,2) by (simp add: alloc_pid_def Let_def p_def [symmetric] bitmap_set_bits PID_MAX_def PID_COUNT_def)
  qed
qed

theorem alloc_pid_spec_witness:
  "fst (alloc_pid ex_pids) = Inr 2 \<and> 2 \<notin> bitmap_bits (pid_map ex_pids)"
proof -
  have "fst (alloc_pid ex_pids) = Inr 2" by code_simp
  then show ?thesis using alloc_pid_spec [OF ex_pids_reach] by (cases "alloc_pid ex_pids") auto
qed

text \<open>
  lookup. In a reachable state, looking up a valid PID whose slot is occupied returns the task that has this PID, takes one
  reference on it, and leaves everything else alone; looking up any other PID returns no task and changes nothing.
\<close>

theorem pid_task_get_spec:
  assumes "life_reach st" and "life_pre (OpGet p) st"
  shows "if \<exists>t. t_published (tasks st t) \<and> t_pid (tasks st t) = p
    then \<exists>t. t_published (tasks st t) \<and> t_pid (tasks st t) = p \<and>
      pid_task_get p st = Some (Some t, upd_task t (\<lambda>x. x\<lparr>t_refs := t_refs (tasks st t) + 1\<rparr>) st)
    else pid_task_get p st = Some (None, st)"
proof -
  have wf: "pid_wf st" using life_reach_wf assms by blast
  note w = pid_wfD [OF wf]
  have lt: "nat p < PID_COUNT \<and> int (nat p) = p" if "0 \<le> p" "p \<le> PID_MAX"
    using that by (simp add: PID_MAX_def PID_COUNT_def)
  show ?thesis
  proof (cases "\<exists>t. t_published (tasks st t) \<and> t_pid (tasks st t) = p")
    case True
    then obtain t where t: "t_published (tasks st t)" "t_pid (tasks st t) = p" by blast
    then have "pid_tasks st ! nat p = Some t" "0 \<le> p" "p \<le> PID_MAX" using w(9) [of t] w(7) [of t] by auto
    then show ?thesis using pid_task_get_ok(1) [OF wf, of p t] t assms(2) by auto
  next
    case False
    then have "pid_tasks st ! nat p = None" if "0 \<le> p" "p \<le> PID_MAX"
      using w(10) [of "nat p"] lt [OF that] by (metis option.exhaust)
    then show ?thesis using False by (auto simp: pid_task_get_def)
  qed
qed

theorem pid_task_get_spec_witness:
  "(\<exists>t. t_published (tasks ex_pids t) \<and> t_pid (tasks ex_pids t) = 1) \<and> fst (the (pid_task_get 1 ex_pids)) = Some 5"
proof -
  have pre: "life_pre (OpGet 1) ex_pids" by code_simp
  have t: "t_published (tasks ex_pids 5)" "t_pid (tasks ex_pids 5) = 1" by code_simp+
  then obtain u where u: "t_published (tasks ex_pids u)" "t_pid (tasks ex_pids u) = 1"
    "fst (the (pid_task_get 1 ex_pids)) = Some u"
    using pid_task_get_spec [OF ex_pids_reach pre] unfolding if_P [OF exI [where P = "\<lambda>t. t_published (tasks ex_pids t) \<and> t_pid (tasks ex_pids t) = 1", OF conjI [OF t]]] by auto
  have "u = 5" using pid_wfD(8,9) [OF life_reach_wf [OF ex_pids_reach]] t u by metis
  then show ?thesis using u by blast
qed

text \<open>
  \<^verbatim>\<open>pid_count_tasks\<close>, a 16-bit counter over the table, is the number of published tasks other than the idle task.
\<close>

theorem pid_count_tasks_spec:
  assumes "life_reach st"
  shows "unat (pid_count_tasks st) = card {t. t_published (tasks st t) \<and> t \<noteq> idle_task}"
  using pid_count_nat [OF pid_wfD(3)] published_card life_reach_wf [OF assms] by simp

theorem pid_count_tasks_spec_witness: "card {t. t_published (tasks ex_pids t) \<and> t \<noteq> idle_task} = 1"
proof -
  have "pid_count_tasks ex_pids = 1" by code_simp
  then show ?thesis using pid_count_tasks_spec [OF ex_pids_reach] by simp
qed

end
