(* ===== verification/Ring.thy ===== *)
theory Ring
  imports Prelude
begin

text \<open>
  Ring buffers as the kernel lays them out: \<open>ring xs cap tail n\<close> is the sequence of the \<open>n\<close> elements that start at
  index \<open>tail\<close> of an array of \<open>cap\<close> slots and wrap around its end. The FIFO of \<^verbatim>\<open>kfifo.h\<close> and the pipe of \<^verbatim>\<open>fs/pipe.c\<close> share
  these lemmas. The locale \<open>fifo_queue\<close> is the contract of a bounded queue, refined by operation sequences.
\<close>

definition ring :: "'a list \<Rightarrow> nat \<Rightarrow> nat \<Rightarrow> nat \<Rightarrow> 'a list" where
  "ring xs cap tail n = map (\<lambda>i. xs ! ((tail + i) mod cap)) [0..<n]"

definition blit :: "'a list \<Rightarrow> nat \<Rightarrow> 'a list \<Rightarrow> 'a list" where
  "blit xs off bs = take off xs @ bs @ drop (off + length bs) xs"

lemma ring_length [simp]: "length (ring xs cap tail n) = n"
  by (simp add: ring_def)

lemma ring_0 [simp]: "ring xs cap tail 0 = []"
  by (simp add: ring_def)

lemma ring_nth: "i < n \<Longrightarrow> ring xs cap tail n ! i = xs ! ((tail + i) mod cap)"
  by (simp add: ring_def)

lemma blit_length: "off + length bs \<le> length xs \<Longrightarrow> length (blit xs off bs) = length xs"
  by (simp add: blit_def)

lemma blit_nth:
  "off + length bs \<le> length xs \<Longrightarrow> i < length xs \<Longrightarrow>
   blit xs off bs ! i = (if off \<le> i \<and> i < off + length bs then bs ! (i - off) else xs ! i)"
  by (auto simp: blit_def nth_append min_def)

text \<open>Removing \<open>k\<close> elements at the tail.\<close>

lemma ring_drop: "k \<le> n \<Longrightarrow> ring xs cap ((tail + k) mod cap) (n - k) = drop k (ring xs cap tail n)"
  by (rule nth_equalityI) (auto simp: ring_nth mod_simps ac_simps)

text \<open>The first \<open>k\<close> elements, when they do not wrap, are a slice of the array.\<close>

lemma ring_take_linear:
  assumes "k \<le> n" "tail + k \<le> cap" "length xs = cap"
  shows "take k (ring xs cap tail n) = take k (drop tail xs)"
  using assms by (intro nth_equalityI) (auto simp: ring_nth)

lemma mod_ring_inj:
  assumes "i < cap" "j < cap" "(t + i) mod cap = (t + j) mod cap"
  shows "i = (j :: nat)"
proof -
  have "int i mod int cap = int j mod int cap"
    using assms(3) by (metis mod_add_left_eq mod_diff_left_eq of_nat_add of_nat_mod add_diff_cancel_left')
  then show ?thesis using assms(1,2) by simp
qed

text \<open>Writing a block at the head that does not reach the end of the array.\<close>

lemma ring_blit:
  assumes len: "length xs = cap" and h: "head = (tail + n) mod cap" and room: "n + length bs \<le> cap"
    and lin: "head + length bs \<le> cap" and pos: "0 < cap"
  shows "ring (blit xs head bs) cap tail (n + length bs) = ring xs cap tail n @ bs"
proof (rule nth_equalityI)
  show "length (ring (blit xs head bs) cap tail (n + length bs)) = length (ring xs cap tail n @ bs)" by simp
  fix i assume "i < length (ring (blit xs head bs) cap tail (n + length bs))"
  then have i: "i < n + length bs" by simp
  define q where "q = (tail + i) mod cap"
  have q: "q < cap" using pos by (simp add: q_def)
  have nq: "blit xs head bs ! q = (if head \<le> q \<and> q < head + length bs then bs ! (q - head) else xs ! q)"
    using blit_nth [of head bs xs q] lin len q by simp
  show "ring (blit xs head bs) cap tail (n + length bs) ! i = (ring xs cap tail n @ bs) ! i"
  proof (cases "i < n")
    case True
    have "\<not> (head \<le> q \<and> q < head + length bs)"
    proof
      assume *: "head \<le> q \<and> q < head + length bs"
      define k where "k = q - head"
      have k: "k < length bs" "q = head + k" using * by (auto simp: k_def)
      have "(tail + (n + k)) mod cap = (head + k) mod cap" by (simp add: h mod_simps ac_simps)
      also have "\<dots> = q" using k(2) q by simp
      finally have "(tail + (n + k)) mod cap = (tail + i) mod cap" by (simp add: q_def)
      then have "n + k = i" using mod_ring_inj [of "n + k" cap i tail] k(1) room True by simp
      then show False using True by simp
    qed
    then have "blit xs head bs ! q = xs ! q" using nq by auto
    then show ?thesis using True by (simp add: ring_nth nth_append q_def)
  next
    case False
    define k where "k = i - n"
    have k: "k < length bs" "i = n + k" using False i by (auto simp: k_def)
    have "q = (head + k) mod cap" by (simp add: q_def h k(2) mod_simps ac_simps)
    then have "q = head + k" using k(1) lin by simp
    then show ?thesis using False i nq k by (simp add: ring_nth nth_append q_def)
  qed
qed

lemma ring_snoc:
  assumes "length xs = cap" "head = (tail + n) mod cap" "n < cap"
  shows "ring (xs[head := v]) cap tail (Suc n) = ring xs cap tail n @ [v]"
proof -
  have h: "head < cap" using assms by simp
  then have "xs[head := v] = blit xs head [v]" using assms(1) by (simp add: blit_def upd_conv_take_nth_drop)
  then show ?thesis using ring_blit [of xs cap head tail n "[v]"] assms h by simp
qed

section \<open>The contract of a bounded queue\<close>

text \<open>A sequence of queue operations: \<open>Some e\<close> puts \<open>e\<close>, \<open>None\<close> gets. The outputs are the errors and the elements got.\<close>

fun fifo_run :: "('s \<Rightarrow> 'e \<Rightarrow> (errno + unit) \<times> 's) \<Rightarrow> ('s \<Rightarrow> (errno + 'e) \<times> 's) \<Rightarrow> 'e option list \<Rightarrow> 's \<Rightarrow>
    (errno + 'e option) list \<times> 's" where
  "fifo_run put get [] s = ([], s)"
| "fifo_run put get (Some e # ops) s =
     (let (r, s') = put s e; (outs, s'') = fifo_run put get ops s' in
      ((case r of Inl er \<Rightarrow> Inl er | Inr _ \<Rightarrow> Inr None) # outs, s''))"
| "fifo_run put get (None # ops) s =
     (let (r, s') = get s; (outs, s'') = fifo_run put get ops s' in
      ((case r of Inl er \<Rightarrow> Inl er | Inr e \<Rightarrow> Inr (Some e)) # outs, s''))"

text \<open>The same operations on a list that holds at most \<open>lim\<close> elements.\<close>

fun fifo_spec :: "errno \<Rightarrow> errno \<Rightarrow> nat \<Rightarrow> 'e option list \<Rightarrow> 'e list \<Rightarrow> (errno + 'e option) list \<times> 'e list" where
  "fifo_spec fe ee lim [] q = ([], q)"
| "fifo_spec fe ee lim (Some e # ops) q =
     (let (r, q') = (if length q = lim then (Inl fe, q) else (Inr None, q @ [e]));
          (outs, q'') = fifo_spec fe ee lim ops q' in
      (r # outs, q''))"
| "fifo_spec fe ee lim (None # ops) q =
     (let (r, q') = (case q of [] \<Rightarrow> (Inl ee, q) | e # es \<Rightarrow> (Inr (Some e), es));
          (outs, q'') = fifo_spec fe ee lim ops q' in
      (r # outs, q''))"

text \<open>
  \<open>put\<close> and \<open>get\<close> report the error, or the element, together with the new state. The errors a full or an empty queue
  reports are parameters.
\<close>

locale fifo_queue =
  fixes invar :: "'s \<Rightarrow> bool"
    and contents :: "'s \<Rightarrow> 'e list"
    and limit :: "'s \<Rightarrow> nat"
    and elem_ok :: "'s \<Rightarrow> 'e \<Rightarrow> bool"
    and put :: "'s \<Rightarrow> 'e \<Rightarrow> (errno + unit) \<times> 's"
    and get :: "'s \<Rightarrow> (errno + 'e) \<times> 's"
    and full_err empty_err :: errno
  assumes put_full: "invar s \<Longrightarrow> elem_ok s e \<Longrightarrow> length (contents s) = limit s \<Longrightarrow> put s e = (Inl full_err, s)"
    and put_room: "invar s \<Longrightarrow> elem_ok s e \<Longrightarrow> length (contents s) \<noteq> limit s \<Longrightarrow>
      \<exists>s'. put s e = (Inr (), s') \<and> invar s' \<and> contents s' = contents s @ [e] \<and> limit s' = limit s \<and> elem_ok s' = elem_ok s"
    and get_empty: "invar s \<Longrightarrow> contents s = [] \<Longrightarrow> get s = (Inl empty_err, s)"
    and get_some: "invar s \<Longrightarrow> contents s = e # es \<Longrightarrow>
      \<exists>s'. get s = (Inr e, s') \<and> invar s' \<and> contents s' = es \<and> limit s' = limit s \<and> elem_ok s' = elem_ok s"
    and bounded: "invar s \<Longrightarrow> length (contents s) \<le> limit s"
begin

lemma run_refines_spec:
  assumes "invar s" "\<forall>e. Some e \<in> set ops \<longrightarrow> elem_ok s e"
  shows "fst (fifo_run put get ops s) = fst (fifo_spec full_err empty_err (limit s) ops (contents s)) \<and>
    invar (snd (fifo_run put get ops s)) \<and>
    contents (snd (fifo_run put get ops s)) = snd (fifo_spec full_err empty_err (limit s) ops (contents s))"
  using assms
proof (induction ops arbitrary: s)
  case (Cons opn ops)
  have ok: "\<forall>e. Some e \<in> set ops \<longrightarrow> elem_ok s e" using Cons.prems(2) by auto
  show ?case
  proof (cases opn)
    case (Some e)
    then have oke: "elem_ok s e" using Cons.prems(2) by simp
    show ?thesis
    proof (cases "length (contents s) = limit s")
      case True
      then show ?thesis using put_full [OF Cons.prems(1) oke] Cons.IH [OF Cons.prems(1) ok] Some
        by (simp add: case_prod_beta Let_def)
    next
      case False
      then obtain s' where "put s e = (Inr (), s')" "invar s'" "contents s' = contents s @ [e]"
        "limit s' = limit s" "elem_ok s' = elem_ok s" using put_room [OF Cons.prems(1) oke] by blast
      then show ?thesis using Cons.IH [of s'] ok False Some by (simp add: case_prod_beta Let_def)
    qed
  next
    case None
    show ?thesis
    proof (cases "contents s")
      case Nil
      then show ?thesis using get_empty [OF Cons.prems(1)] Cons.IH [OF Cons.prems(1) ok] None
        by (simp add: case_prod_beta Let_def)
    next
      case c: (Cons e es)
      then obtain s' where "get s = (Inr e, s')" "invar s'" "contents s' = es"
        "limit s' = limit s" "elem_ok s' = elem_ok s" using get_some [OF Cons.prems(1)] by blast
      then show ?thesis using Cons.IH [of s'] ok c None by (simp add: case_prod_beta Let_def)
    qed
  qed
qed simp

end

end
