(* ===== verification/Kfifo.thy ===== *)
theory Kfifo
  imports Ring
begin

text \<open>
  The FIFO of fixed-size objects of \<^verbatim>\<open>include/kernel/kfifo.h\<close>, down to the bytes of its storage: an element is
  copied to and from \<open>storage + index * elem_size\<close>. Sizes are natural numbers; the one multiplication whose overflow the code checks is
  checked against 64 bits. A null pointer is \<open>None\<close>.
\<close>

record kfifo =
  storage :: "u8 list option"
  elem_size :: nat
  capacity :: nat
  head :: nat
  tail :: nat
  count :: nat

definition check_mul_overflow :: "nat \<Rightarrow> nat \<Rightarrow> bool" where
  "check_mul_overflow a b \<longleftrightarrow> a * b \<ge> 2 ^ 64"

definition KFIFO_INIT :: "u8 list option \<Rightarrow> nat \<Rightarrow> nat \<Rightarrow> kfifo" where
  "KFIFO_INIT buf es n = \<lparr>storage = buf, elem_size = es, capacity = n, head = 0, tail = 0, count = 0\<rparr>"

definition kfifo_config_valid :: "u8 list option \<Rightarrow> nat \<Rightarrow> nat \<Rightarrow> bool" where
  "kfifo_config_valid st es n \<longleftrightarrow> st \<noteq> None \<and> es \<noteq> 0 \<and> n \<noteq> 0 \<and> \<not> check_mul_overflow es n"

definition kfifo_valid :: "kfifo \<Rightarrow> bool" where
  "kfifo_valid f \<longleftrightarrow>
     kfifo_config_valid (storage f) (elem_size f) (capacity f) \<and>
     head f < capacity f \<and> tail f < capacity f \<and> count f \<le> capacity f"

definition kfifo_init :: "kfifo \<Rightarrow> u8 list option \<Rightarrow> nat \<Rightarrow> nat \<Rightarrow> (errno + unit) \<times> kfifo" where
  "kfifo_init f st es n =
     (let f0 = \<lparr>storage = None, elem_size = 0, capacity = 0, head = 0, tail = 0, count = 0\<rparr> in
      if \<not> kfifo_config_valid st es n then (Inl EINVAL, f0)
      else (Inr (), f0\<lparr>storage := st, elem_size := es, capacity := n\<rparr>))"

definition kfifo_empty :: "kfifo \<Rightarrow> bool" where "kfifo_empty f \<longleftrightarrow> count f = 0"

definition kfifo_full :: "kfifo \<Rightarrow> bool" where "kfifo_full f \<longleftrightarrow> count f = capacity f"

definition kfifo_reset :: "kfifo \<Rightarrow> (errno + unit) \<times> kfifo" where
  "kfifo_reset f =
     (if \<not> kfifo_valid f then (Inl EINVAL, f) else (Inr (), f\<lparr>head := 0, tail := 0, count := 0\<rparr>))"

text \<open>\<^verbatim>\<open>kfifo_slot\<close> with the \<^verbatim>\<open>memcpy\<close> that reads or writes one object there.\<close>

definition kfifo_slot_read :: "kfifo \<Rightarrow> nat \<Rightarrow> u8 list" where
  "kfifo_slot_read f index = take (elem_size f) (drop (index * elem_size f) (the (storage f)))"

definition kfifo_slot_write :: "kfifo \<Rightarrow> nat \<Rightarrow> u8 list \<Rightarrow> kfifo" where
  "kfifo_slot_write f index bs = f\<lparr>storage := Some (blit (the (storage f)) (index * elem_size f) bs)\<rparr>"

definition kfifo_next :: "kfifo \<Rightarrow> nat \<Rightarrow> nat" where
  "kfifo_next f index = (if index = capacity f - 1 then 0 else index + 1)"

definition kfifo_put :: "kfifo \<Rightarrow> u8 list option \<Rightarrow> (errno + unit) \<times> kfifo" where
  "kfifo_put f element =
     (if \<not> kfifo_valid f \<or> element = None then (Inl EINVAL, f)
      else if kfifo_full f then (Inl ENOSPC, f)
      else
        let f1 = kfifo_slot_write f (head f) (take (elem_size f) (the element));
            f2 = f1\<lparr>head := kfifo_next f1 (head f1)\<rparr>
        in (Inr (), f2\<lparr>count := count f2 + 1\<rparr>))"

definition kfifo_get :: "kfifo \<Rightarrow> (errno + u8 list) \<times> kfifo" where
  "kfifo_get f =
     (if \<not> kfifo_valid f then (Inl EINVAL, f)
      else if kfifo_empty f then (Inl ENODATA, f)
      else
        let element = kfifo_slot_read f (tail f);
            f1 = f\<lparr>tail := kfifo_next f (tail f)\<rparr>
        in (Inr element, f1\<lparr>count := count f1 - 1\<rparr>))"

definition kfifo_peek :: "kfifo \<Rightarrow> errno + u8 list" where
  "kfifo_peek f =
     (if \<not> kfifo_valid f then Inl EINVAL
      else if kfifo_empty f then Inl ENODATA
      else Inr (kfifo_slot_read f (tail f)))"

fun kfifo_in_loop :: "u8 list list \<Rightarrow> kfifo \<Rightarrow> kfifo" where
  "kfifo_in_loop [] f = f"
| "kfifo_in_loop (e # es) f =
     (let f1 = kfifo_slot_write f (head f) e in
      kfifo_in_loop es (f1\<lparr>head := kfifo_next f1 (head f1)\<rparr>))"

text \<open>\<open>elements\<close> is the array of objects at the pointer \<^verbatim>\<open>elements\<close>; its length is \<^verbatim>\<open>nr_elements\<close>.\<close>

definition kfifo_in :: "kfifo \<Rightarrow> u8 list list option \<Rightarrow> nat \<Rightarrow> nat \<times> kfifo" where
  "kfifo_in f elements nr_elements =
     (if \<not> kfifo_valid f \<or> (nr_elements \<noteq> 0 \<and> elements = None) then (0, f)
      else
        let nr_copy = (if nr_elements > capacity f - count f then capacity f - count f else nr_elements);
            f1 = kfifo_in_loop (take nr_copy (case elements of None \<Rightarrow> [] | Some es \<Rightarrow> es)) f
        in (nr_copy, f1\<lparr>count := count f1 + nr_copy\<rparr>))"

fun kfifo_out_loop :: "nat \<Rightarrow> kfifo \<Rightarrow> u8 list list \<times> kfifo" where
  "kfifo_out_loop 0 f = ([], f)"
| "kfifo_out_loop (Suc n) f =
     (let e = kfifo_slot_read f (tail f);
          (es, f') = kfifo_out_loop n (f\<lparr>tail := kfifo_next f (tail f)\<rparr>)
      in (e # es, f'))"

text \<open>\<open>elements\<close> tells whether the destination pointer is not null; the objects copied are returned.\<close>

definition kfifo_out :: "kfifo \<Rightarrow> bool \<Rightarrow> nat \<Rightarrow> u8 list list \<times> nat \<times> kfifo" where
  "kfifo_out f elements nr_elements =
     (if \<not> kfifo_valid f \<or> (nr_elements \<noteq> 0 \<and> \<not> elements) then ([], 0, f)
      else
        let nr_copy = (if nr_elements > count f then count f else nr_elements);
            (es, f1) = kfifo_out_loop nr_copy f
        in (es, nr_copy, f1\<lparr>count := count f1 - nr_copy\<rparr>))"

section \<open>The queue a FIFO holds\<close>

definition kfifo_slots :: "kfifo \<Rightarrow> u8 list list" where
  "kfifo_slots f = map (kfifo_slot_read f) [0..<capacity f]"

definition kfifo_items :: "kfifo \<Rightarrow> u8 list list" where
  "kfifo_items f = ring (kfifo_slots f) (capacity f) (tail f) (count f)"

definition kfifo_wf :: "kfifo \<Rightarrow> bool" where
  "kfifo_wf f \<longleftrightarrow>
     kfifo_valid f \<and> length (the (storage f)) = elem_size f * capacity f \<and>
     head f = (tail f + count f) mod capacity f"

lemma kfifo_wfD:
  assumes "kfifo_wf f"
  shows "kfifo_valid f" "0 < capacity f" "0 < elem_size f" "head f < capacity f" "tail f < capacity f" "count f \<le> capacity f"
    "length (the (storage f)) = elem_size f * capacity f" "head f = (tail f + count f) mod capacity f"
    "storage f \<noteq> None" "\<not> check_mul_overflow (elem_size f) (capacity f)"
  using assms by (auto simp: kfifo_wf_def kfifo_valid_def kfifo_config_valid_def)

lemma kfifo_next_mod: "index < capacity f \<Longrightarrow> kfifo_next f index = Suc index mod capacity f"
  by (auto simp: kfifo_next_def mod_Suc)

lemma slots_length [simp]: "length (kfifo_slots f) = capacity f"
  by (simp add: kfifo_slots_def)

lemma slot_bound:
  assumes "i < n" "0 < es"
  shows "i * es + es \<le> es * (n :: nat)"
  using mult_le_mono1 [of "Suc i" n es] assms by (simp add: ac_simps)

text \<open>Slots do not overlap: a write to slot \<open>i\<close> is a list update of the array of objects.\<close>

lemma slots_write:
  assumes i: "i < capacity f" and len: "length (the (storage f)) = elem_size f * capacity f" "0 < elem_size f"
    and bs: "length bs = elem_size f"
  shows "kfifo_slots (kfifo_slot_write f i bs) = (kfifo_slots f)[i := bs]"
proof (rule nth_equalityI)
  let ?es = "elem_size f" and ?st = "the (storage f)"
  show "length (kfifo_slots (kfifo_slot_write f i bs)) = length ((kfifo_slots f)[i := bs])"
    by (simp add: kfifo_slot_write_def)
  fix j assume "j < length (kfifo_slots (kfifo_slot_write f i bs))"
  then have j: "j < capacity f" by (simp add: kfifo_slot_write_def)
  have bi: "i * ?es + ?es \<le> length ?st" "j * ?es + ?es \<le> length ?st" using slot_bound i j len by auto
  have "take ?es (drop (j * ?es) (blit ?st (i * ?es) bs)) = (if j = i then bs else take ?es (drop (j * ?es) ?st))"
  proof (rule nth_equalityI)
    show "length (take ?es (drop (j * ?es) (blit ?st (i * ?es) bs))) = length (if j = i then bs else take ?es (drop (j * ?es) ?st))"
      using bi bs by (simp add: blit_length)
    fix k assume "k < length (take ?es (drop (j * ?es) (blit ?st (i * ?es) bs)))"
    then have k: "k < ?es" by simp
    have "i * ?es \<le> j * ?es + k \<and> j * ?es + k < i * ?es + ?es \<longleftrightarrow> j = i"
    proof
      assume *: "i * ?es \<le> j * ?es + k \<and> j * ?es + k < i * ?es + ?es"
      have "(j * ?es + k) div ?es = j" using k by simp
      moreover have "(j * ?es + k) div ?es = i" using * len(2) by (intro div_nat_eqI) (auto simp: ac_simps)
      ultimately show "j = i" by simp
    qed (use k in auto)
    then show "take ?es (drop (j * ?es) (blit ?st (i * ?es) bs)) ! k = (if j = i then bs else take ?es (drop (j * ?es) ?st)) ! k"
      using blit_nth [of "i * ?es" bs ?st "j * ?es + k"] bi bs k by (auto simp: blit_length)
  qed
  then show "kfifo_slots (kfifo_slot_write f i bs) ! j = (kfifo_slots f)[i := bs] ! j"
    using j i by (simp add: kfifo_slots_def kfifo_slot_write_def kfifo_slot_read_def nth_list_update)
qed


text \<open>
  One object in, one object out. The bulk loops keep the count aside until their end, so the lemmas speak of the FIFO
  with the count it stands for.
\<close>

definition kfifo_push :: "kfifo \<Rightarrow> u8 list \<Rightarrow> kfifo" where
  "kfifo_push f e = (let f1 = kfifo_slot_write f (head f) e in f1\<lparr>head := kfifo_next f1 (head f1)\<rparr>)"

definition kfifo_pop :: "kfifo \<Rightarrow> kfifo" where
  "kfifo_pop f = f\<lparr>tail := kfifo_next f (tail f)\<rparr>"

lemma kfifo_push_fields [simp]:
  "elem_size (kfifo_push f e) = elem_size f" "capacity (kfifo_push f e) = capacity f"
  "tail (kfifo_push f e) = tail f" "count (kfifo_push f e) = count f" "head (kfifo_push f e) = kfifo_next f (head f)"
  by (simp_all add: kfifo_push_def kfifo_slot_write_def Let_def kfifo_next_def)

lemma slots_count [simp]: "kfifo_slots (f\<lparr>count := n\<rparr>) = kfifo_slots f" "kfifo_slots (f\<lparr>head := h\<rparr>) = kfifo_slots f"
  "kfifo_slots (f\<lparr>tail := t\<rparr>) = kfifo_slots f"
  by (simp_all add: kfifo_slots_def kfifo_slot_read_def)

lemma kfifo_push_ok:
  assumes wf: "kfifo_wf (f\<lparr>count := n\<rparr>)" and room: "n < capacity f" and e: "length e = elem_size f"
  shows "kfifo_wf ((kfifo_push f e)\<lparr>count := Suc n\<rparr>)"
    and "kfifo_items ((kfifo_push f e)\<lparr>count := Suc n\<rparr>) = kfifo_items (f\<lparr>count := n\<rparr>) @ [e]"
proof -
  note w = kfifo_wfD [OF wf, simplified]
  have b: "head f * elem_size f + length e \<le> length (the (storage f))"
    using slot_bound [OF w(4,3)] w(7) e by simp
  have st: "storage (kfifo_push f e) = Some (blit (the (storage f)) (head f * elem_size f) e)"
    by (simp add: kfifo_push_def kfifo_slot_write_def Let_def)
  show "kfifo_wf ((kfifo_push f e)\<lparr>count := Suc n\<rparr>)"
    using w room b
    by (simp add: kfifo_wf_def kfifo_valid_def kfifo_config_valid_def st kfifo_next_mod blit_length mod_Suc_eq mod_simps)
  have "kfifo_slots (kfifo_push f e) = (kfifo_slots f)[head f := e]"
    using slots_write [of "head f" f e] w e by (simp add: kfifo_push_def Let_def)
  then show "kfifo_items ((kfifo_push f e)\<lparr>count := Suc n\<rparr>) = kfifo_items (f\<lparr>count := n\<rparr>) @ [e]"
    using ring_snoc [of "kfifo_slots f" "capacity f" "head f" "tail f" n e] w(8) room
    by (simp add: kfifo_items_def)
qed

lemma kfifo_pop_ok:
  assumes wf: "kfifo_wf (f\<lparr>count := Suc n\<rparr>)"
  shows "kfifo_wf ((kfifo_pop f)\<lparr>count := n\<rparr>)"
    and "kfifo_items (f\<lparr>count := Suc n\<rparr>) = kfifo_slot_read f (tail f) # kfifo_items ((kfifo_pop f)\<lparr>count := n\<rparr>)"
proof -
  note w = kfifo_wfD [OF wf, simplified]
  have t: "kfifo_next f (tail f) = (tail f + 1) mod capacity f" using w(5) by (simp add: kfifo_next_mod)
  show "kfifo_wf ((kfifo_pop f)\<lparr>count := n\<rparr>)"
    using w by (simp add: kfifo_wf_def kfifo_valid_def kfifo_config_valid_def kfifo_pop_def t mod_simps)
  have "drop 1 (kfifo_items (f\<lparr>count := Suc n\<rparr>)) = kfifo_items ((kfifo_pop f)\<lparr>count := n\<rparr>)"
    using ring_drop [of 1 "Suc n" "kfifo_slots f" "capacity f" "tail f"]
    by (simp add: kfifo_items_def kfifo_pop_def t)
  moreover have "kfifo_items (f\<lparr>count := Suc n\<rparr>) ! 0 = kfifo_slot_read f (tail f)"
    "length (kfifo_items (f\<lparr>count := Suc n\<rparr>)) = Suc n"
    using w(5) by (simp_all add: kfifo_items_def ring_nth kfifo_slots_def kfifo_slot_read_def)
  ultimately show "kfifo_items (f\<lparr>count := Suc n\<rparr>) = kfifo_slot_read f (tail f) # kfifo_items ((kfifo_pop f)\<lparr>count := n\<rparr>)"
    by (metis Cons_nth_drop_Suc One_nat_def drop0 zero_less_Suc)
qed

lemma kfifo_same_count: "f\<lparr>count := count f\<rparr> = f"
  by simp

lemma kfifo_put_room:
  assumes wf: "kfifo_wf f" and "count f \<noteq> capacity f" and e: "length e = elem_size f"
  shows "kfifo_put f (Some e) = (Inr (), (kfifo_push f e)\<lparr>count := Suc (count f)\<rparr>)"
    and "kfifo_wf ((kfifo_push f e)\<lparr>count := Suc (count f)\<rparr>)"
    and "kfifo_items ((kfifo_push f e)\<lparr>count := Suc (count f)\<rparr>) = kfifo_items f @ [e]"
proof -
  note w = kfifo_wfD [OF wf]
  show "kfifo_put f (Some e) = (Inr (), (kfifo_push f e)\<lparr>count := Suc (count f)\<rparr>)"
    using assms w(1)
    by (simp add: kfifo_put_def kfifo_full_def Let_def kfifo_push_def kfifo_slot_write_def)
  have "count f < capacity f" using w(6) assms(2) by simp
  then show "kfifo_wf ((kfifo_push f e)\<lparr>count := Suc (count f)\<rparr>)"
    "kfifo_items ((kfifo_push f e)\<lparr>count := Suc (count f)\<rparr>) = kfifo_items f @ [e]"
    using kfifo_push_ok [where f = f and n = "count f" and e = e] wf e by simp_all
qed

lemma kfifo_get_some:
  assumes wf: "kfifo_wf f" and "count f = Suc n"
  shows "kfifo_get f = (Inr (kfifo_slot_read f (tail f)), (kfifo_pop f)\<lparr>count := n\<rparr>)"
    and "kfifo_wf ((kfifo_pop f)\<lparr>count := n\<rparr>)"
    and "kfifo_items f = kfifo_slot_read f (tail f) # kfifo_items ((kfifo_pop f)\<lparr>count := n\<rparr>)"
proof -
  show "kfifo_get f = (Inr (kfifo_slot_read f (tail f)), (kfifo_pop f)\<lparr>count := n\<rparr>)"
    using assms kfifo_wfD(1) [OF wf] by (simp add: kfifo_get_def kfifo_empty_def kfifo_pop_def Let_def)
  have "f\<lparr>count := Suc n\<rparr> = f" using assms(2) by (metis kfifo_same_count)
  then show "kfifo_wf ((kfifo_pop f)\<lparr>count := n\<rparr>)"
    "kfifo_items f = kfifo_slot_read f (tail f) # kfifo_items ((kfifo_pop f)\<lparr>count := n\<rparr>)"
    using kfifo_pop_ok [where f = f and n = n] wf by simp_all
qed

lemma kfifo_items_length [simp]: "length (kfifo_items f) = count f"
  by (simp add: kfifo_items_def)

interpretation kf: fifo_queue kfifo_wf kfifo_items capacity "\<lambda>f e. length e = elem_size f"
    "\<lambda>f e. kfifo_put f (Some e)" kfifo_get ENOSPC ENODATA
proof unfold_locales
  fix f :: kfifo and e :: "u8 list" and es
  show "kfifo_put f (Some e) = (Inl ENOSPC, f)"
    if "kfifo_wf f" "length e = elem_size f" "length (kfifo_items f) = capacity f"
    using that kfifo_wfD(1) by (simp add: kfifo_put_def kfifo_full_def)
  show "\<exists>f'. kfifo_put f (Some e) = (Inr (), f') \<and> kfifo_wf f' \<and> kfifo_items f' = kfifo_items f @ [e] \<and>
      capacity f' = capacity f \<and> (\<lambda>e. length e = elem_size f') = (\<lambda>e. length e = elem_size f)"
    if "kfifo_wf f" "length e = elem_size f" "length (kfifo_items f) \<noteq> capacity f"
    using kfifo_put_room [where f = f and e = e] that by simp
  show "kfifo_get f = (Inl ENODATA, f)" if "kfifo_wf f" "kfifo_items f = []"
    using that kfifo_wfD(1) kfifo_items_length [of f] by (simp add: kfifo_get_def kfifo_empty_def)
  show "\<exists>f'. kfifo_get f = (Inr e, f') \<and> kfifo_wf f' \<and> kfifo_items f' = es \<and>
      capacity f' = capacity f \<and> (\<lambda>e. length e = elem_size f') = (\<lambda>e. length e = elem_size f)"
    if "kfifo_wf f" "kfifo_items f = e # es"
  proof -
    have "count f = Suc (length es)" using that(2) kfifo_items_length [of f] by simp
    then show ?thesis using kfifo_get_some [OF that(1)] that(2) by (simp add: kfifo_pop_def)
  qed
  show "length (kfifo_items f) \<le> capacity f" if "kfifo_wf f" using that kfifo_wfD(6) by simp
qed


lemma in_loop_Cons: "kfifo_in_loop (e # es) f = kfifo_in_loop es (kfifo_push f e)"
  by (simp add: kfifo_push_def Let_def)

lemma kfifo_in_loop_ok:
  assumes "kfifo_wf (f\<lparr>count := n\<rparr>)" "n + length es \<le> capacity f" "\<forall>e \<in> set es. length e = elem_size f"
  shows "kfifo_wf ((kfifo_in_loop es f)\<lparr>count := n + length es\<rparr>) \<and>
    kfifo_items ((kfifo_in_loop es f)\<lparr>count := n + length es\<rparr>) = kfifo_items (f\<lparr>count := n\<rparr>) @ es \<and>
    count (kfifo_in_loop es f) = count f"
  using assms
proof (induction es arbitrary: f n)
  case (Cons e es)
  note p = kfifo_push_ok [OF Cons.prems(1), of e]
  show ?case
    using p Cons.IH [where f = "kfifo_push f e" and n = "Suc n"] Cons.prems(2,3)
    by (simp add: in_loop_Cons del: kfifo_in_loop.simps(2))
qed simp

lemma out_loop_Suc:
  "kfifo_out_loop (Suc n) f =
    (kfifo_slot_read f (tail f) # fst (kfifo_out_loop n (kfifo_pop f)), snd (kfifo_out_loop n (kfifo_pop f)))"
  by (simp add: kfifo_pop_def Let_def case_prod_beta)

lemma kfifo_out_loop_ok:
  assumes "kfifo_wf (f\<lparr>count := k + n\<rparr>)"
  shows "kfifo_wf ((snd (kfifo_out_loop k f))\<lparr>count := n\<rparr>) \<and>
    kfifo_items (f\<lparr>count := k + n\<rparr>) = fst (kfifo_out_loop k f) @ kfifo_items ((snd (kfifo_out_loop k f))\<lparr>count := n\<rparr>) \<and>
    length (fst (kfifo_out_loop k f)) = k \<and> count (snd (kfifo_out_loop k f)) = count f"
  using assms
proof (induction k arbitrary: f)
  case (Suc k)
  note p = kfifo_pop_ok [where f = f and n = "k + n"]
  have c: "count (kfifo_pop f) = count f" by (simp add: kfifo_pop_def)
  show ?case
    using p Suc.IH [of "kfifo_pop f"] Suc.prems c by (simp add: out_loop_Suc del: kfifo_out_loop.simps(2))
qed simp

lemma in_loop_count [simp]: "count (kfifo_in_loop es f) = count f"
  by (induction es arbitrary: f) (simp_all add: in_loop_Cons del: kfifo_in_loop.simps(2))

lemma out_loop_count [simp]: "count (snd (kfifo_out_loop k f)) = count f"
  by (induction k arbitrary: f) (simp_all add: out_loop_Suc kfifo_pop_def del: kfifo_out_loop.simps(2))

section \<open>Properties\<close>

definition ex_fifo :: kfifo where
  "ex_fifo = snd (kfifo_init (KFIFO_INIT None 0 0) (Some [0, 0, 0, 0, 0, 0]) 2 3)"

lemma ex_fifo_fields:
  "elem_size ex_fifo = 2" "capacity ex_fifo = 3" "count ex_fifo = 0" "kfifo_items ex_fifo = []"
  by (simp_all add: ex_fifo_def kfifo_init_def kfifo_config_valid_def check_mul_overflow_def Let_def kfifo_items_def)

lemma ex_fifo_ok: "kfifo_wf ex_fifo"
  by (simp add: ex_fifo_def kfifo_init_def kfifo_wf_def kfifo_valid_def kfifo_config_valid_def
      check_mul_overflow_def Let_def)

text \<open>
  C7: first in, first out. On a well-formed FIFO, any sequence of \<^verbatim>\<open>kfifo_put\<close> and \<^verbatim>\<open>kfifo_get\<close> calls
  returns, byte for byte, what the same calls on a list bounded by the capacity return: the objects in the order they
  were put, \<^verbatim>\<open>ENOSPC\<close> exactly when the list is full and \<^verbatim>\<open>ENODATA\<close> exactly when it is empty, however often
  the indices wrap around the end of the storage.
\<close>

theorem kfifo_fifo_order:
  assumes "kfifo_wf f" and "\<forall>e. Some e \<in> set ops \<longrightarrow> length e = elem_size f"
  shows "fst (fifo_run (\<lambda>f e. kfifo_put f (Some e)) kfifo_get ops f) =
      fst (fifo_spec ENOSPC ENODATA (capacity f) ops (kfifo_items f)) \<and>
    kfifo_wf (snd (fifo_run (\<lambda>f e. kfifo_put f (Some e)) kfifo_get ops f)) \<and>
    kfifo_items (snd (fifo_run (\<lambda>f e. kfifo_put f (Some e)) kfifo_get ops f)) =
      snd (fifo_spec ENOSPC ENODATA (capacity f) ops (kfifo_items f))"
  using kf.run_refines_spec [OF assms] .

theorem kfifo_fifo_order_witness:
  "fst (fifo_run (\<lambda>f e. kfifo_put f (Some e)) kfifo_get
      [Some [1, 2], Some [3, 4], None, Some [5, 6], Some [7, 8], Some [9, 9], None] ex_fifo) =
    [Inr None, Inr None, Inr (Some [1, 2]), Inr None, Inr None, Inl ENOSPC, Inr (Some [3, 4])]"
proof -
  have wf: "kfifo_wf ex_fifo" by (rule ex_fifo_ok)
  note es = ex_fifo_fields
  let ?ops = "[Some [1, 2], Some [3, 4], None, Some [5, 6], Some [7, 8], Some [9, 9], None] :: u8 list option list"
  have ok: "\<forall>e. Some e \<in> set ?ops \<longrightarrow> length e = elem_size ex_fifo" by (auto simp: es)
  have "fst (fifo_spec ENOSPC ENODATA 3 ?ops []) =
      [Inr None, Inr None, Inr (Some [1, 2]), Inr None, Inr None, Inl ENOSPC, Inr (Some [3, 4])]" by simp
  with conjunct1 [OF kfifo_fifo_order [OF wf ok], unfolded es] show ?thesis by (rule trans)
qed

text \<open>
  the bulk operations. \<^verbatim>\<open>kfifo_in\<close> appends the first objects of its input up to the free room, and \<^verbatim>\<open>kfifo_out\<close> removes and returns the oldest objects up to the
  number asked for; both keep the FIFO well formed and report how many objects they moved.
\<close>

theorem kfifo_bulk_spec:
  assumes wf: "kfifo_wf f" and es: "\<forall>e \<in> set es. length e = elem_size f"
  defines "k \<equiv> min (length es) (capacity f - count f)"
  shows "fst (kfifo_in f (Some es) (length es)) = k \<and> kfifo_wf (snd (kfifo_in f (Some es) (length es))) \<and>
    kfifo_items (snd (kfifo_in f (Some es) (length es))) = kfifo_items f @ take k es \<and>
    (case kfifo_out f True n of (out, m, f') \<Rightarrow>
       m = min n (count f) \<and> out = take m (kfifo_items f) \<and> kfifo_wf f' \<and> kfifo_items f' = drop m (kfifo_items f))"
proof -
  note w = kfifo_wfD [OF wf]
  have k: "length (take k es) = k" "count f + k \<le> capacity f" using w(6) by (auto simp: k_def)
  have el: "\<forall>e \<in> set (take k es). length e = elem_size f" using es by (meson in_set_takeD)
  have k': "k = (if length es > capacity f - count f then capacity f - count f else length es)" by (simp add: k_def min_def)
  have i: "kfifo_in f (Some es) (length es) = (k, (kfifo_in_loop (take k es) f)\<lparr>count := count f + k\<rparr>)"
    using w(1) by (simp add: kfifo_in_def Let_def k' [symmetric])
  define m where "m = min n (count f)"
  have m: "m + (count f - m) = count f" by (simp add: m_def)
  have m': "m = (if n > count f then count f else n)" by (simp add: m_def min_def)
  have o: "kfifo_out f True n = (fst (kfifo_out_loop m f), m, (snd (kfifo_out_loop m f))\<lparr>count := count f - m\<rparr>)"
    using w(1) by (simp add: kfifo_out_def Let_def case_prod_beta m' [symmetric])
  note out = kfifo_out_loop_ok [where f = f and k = m and n = "count f - m", unfolded m, simplified, OF wf]
  have "kfifo_items f = fst (kfifo_out_loop m f) @ kfifo_items ((snd (kfifo_out_loop m f))\<lparr>count := count f - m\<rparr>)"
    "length (fst (kfifo_out_loop m f)) = m" using out by blast+
  then have res: "fst (kfifo_out_loop m f) = take m (kfifo_items f)"
    "kfifo_items ((snd (kfifo_out_loop m f))\<lparr>count := count f - m\<rparr>) = drop m (kfifo_items f)"
    by (metis append_eq_conv_conj)+
  have "kfifo_wf ((snd (kfifo_out_loop m f))\<lparr>count := count f - m\<rparr>)" using out by blast
  then show ?thesis
    using kfifo_in_loop_ok [where f = f and n = "count f" and es = "take k es", unfolded k(1), OF _ k(2) el] wf res
    unfolding i o m_def [symmetric] by simp
qed

theorem kfifo_bulk_spec_witness:
  "fst (kfifo_in ex_fifo (Some [[1, 2], [3, 4], [5, 6], [7, 8]]) 4) = 3 \<and>
   kfifo_items (snd (kfifo_in ex_fifo (Some [[1, 2], [3, 4], [5, 6], [7, 8]]) 4)) = [[1, 2], [3, 4], [5, 6]]"
proof -
  have wf: "kfifo_wf ex_fifo" by (rule ex_fifo_ok)
  note es = ex_fifo_fields
  show ?thesis using kfifo_bulk_spec [OF wf, of "[[1, 2], [3, 4], [5, 6], [7, 8]]" 0] by (simp add: es eval_nat_numeral)
qed

text \<open>
  \<^verbatim>\<open>kfifo_init\<close> accepts exactly the configurations with a buffer, a positive object size and capacity, and a byte count that
  fits 64 bits; over storage of that many bytes it gives a well-formed empty FIFO, and it rejects the others with
  \<^verbatim>\<open>EINVAL\<close>, leaving a descriptor that every operation refuses.
\<close>

theorem kfifo_init_spec:
  "case kfifo_init f st es n of
     (Inr _, f') \<Rightarrow> kfifo_config_valid st es n \<and>
       (length (the st) = es * n \<longrightarrow> kfifo_wf f' \<and> kfifo_items f' = [] \<and> capacity f' = n \<and> elem_size f' = es)
   | (Inl e, f') \<Rightarrow> e = EINVAL \<and> \<not> kfifo_config_valid st es n \<and>
       kfifo_put f' x = (Inl EINVAL, f') \<and> kfifo_get f' = (Inl EINVAL, f') \<and> kfifo_peek f' = Inl EINVAL \<and>
       fst (kfifo_in f' y k) = 0 \<and> kfifo_out f' b k = ([], 0, f') \<and> kfifo_reset f' = (Inl EINVAL, f')"
proof (cases "kfifo_config_valid st es n")
  case True
  then show ?thesis
    by (simp add: kfifo_init_def kfifo_wf_def kfifo_valid_def kfifo_items_def Let_def)
      (simp add: kfifo_config_valid_def)
next
  case False
  have "\<not> kfifo_valid \<lparr>storage = None, elem_size = 0, capacity = 0, head = 0, tail = 0, count = 0\<rparr>"
    by (simp add: kfifo_valid_def)
  then show ?thesis using False
    by (simp add: kfifo_init_def kfifo_put_def kfifo_get_def kfifo_peek_def kfifo_in_def kfifo_out_def kfifo_reset_def)
qed

theorem kfifo_init_spec_witness:
  "kfifo_wf (snd (kfifo_init ex_fifo (Some [0, 0, 0, 0]) 2 2)) \<and> fst (kfifo_init ex_fifo (Some [0]) (2 ^ 63) 2) = Inl EINVAL"
proof -
  have "kfifo_config_valid (Some [0, 0, 0, 0]) 2 2" "\<not> kfifo_config_valid (Some [0]) (2 ^ 63) 2"
    by (simp_all add: kfifo_config_valid_def check_mul_overflow_def)
  then show ?thesis
    using kfifo_init_spec [where f = ex_fifo and st = "Some [0, 0, 0, 0]" and es = 2 and n = 2]
    by (simp add: kfifo_init_def Let_def)
qed

end
