(* ===== verification/Pipe.thy ===== *)
theory Pipe
  imports Ring
begin

text \<open>
  Pipes, \<^verbatim>\<open>fs/pipe.c\<close>. A pipe is a page used as a ring of bytes under a spin lock. Readers, writers and splicers are
  threads; each section of their loops that runs under the lock is one step, and the steps of any number of
  threads interleave freely (\<open>pipe_step\<close>). Sleeping in \<^verbatim>\<open>wait_for\<close> is a state that a thread leaves when its probe holds, or
  with an error.
\<close>

definition PIPE_SIZE :: nat where "PIPE_SIZE = 4096"

definition PIPE_BUF :: nat where "PIPE_BUF = 4096"

record pipe_buffer =
  pdata :: "u8 list"
  phead :: nat
  ptail :: nat
  pused :: nat
  readers :: int
  writers :: int

definition pipe_linear_tail :: "pipe_buffer \<Rightarrow> nat" where
  "pipe_linear_tail p =
     (let until_end = PIPE_SIZE - ptail p in if pused p < until_end then pused p else until_end)"

definition pipe_linear_head_space :: "pipe_buffer \<Rightarrow> nat" where
  "pipe_linear_head_space p =
     (let space = PIPE_SIZE - pused p; until_end = PIPE_SIZE - phead p in
      if space < until_end then space else until_end)"

definition pipe_read_probe :: "pipe_buffer \<Rightarrow> bool" where
  "pipe_read_probe p \<longleftrightarrow> pused p > 0 \<or> writers p = 0"

definition pipe_write_probe :: "nat \<Rightarrow> pipe_buffer \<Rightarrow> bool" where
  "pipe_write_probe min_space p \<longleftrightarrow> PIPE_SIZE - pused p \<ge> min_space \<or> readers p = 0"

definition pipe_commit_read_locked :: "pipe_buffer \<Rightarrow> nat \<Rightarrow> pipe_buffer" where
  "pipe_commit_read_locked p count =
     p\<lparr>ptail := (ptail p + count) mod PIPE_SIZE, pused := pused p - count\<rparr>"

text \<open>The copy loop of a write; \<open>None\<close> when it does not end. \<open>bs\<close> are the bytes not yet copied.\<close>

partial_function (option) pipe_commit_write_locked :: "pipe_buffer \<Rightarrow> u8 list \<Rightarrow> pipe_buffer option" where
  "pipe_commit_write_locked p bs =
     (if bs = [] then Some p
      else
        let linear = pipe_linear_head_space p;
            chunk = (if length bs > linear then linear else length bs)
        in pipe_commit_write_locked
             (p\<lparr>pdata := blit (pdata p) (phead p) (take chunk bs),
                phead := (phead p + chunk) mod PIPE_SIZE, pused := pused p + chunk\<rparr>)
             (drop chunk bs))"

section \<open>Threads\<close>

text \<open>
  Where a call is: at the head of its loop, asleep, writing a copied chunk to the output file with the lock released (splice),
  returned with a count or an error, or stopped at a \<^verbatim>\<open>BUG_ON\<close>.
\<close>

datatype ppc = PLoop | PWait | PWrite "u8 list" | PRet "errno + nat" | PBug

text \<open>One pass through the loop of \<^verbatim>\<open>pipe_read\<close>; \<open>buf\<close> holds the bytes read so far.\<close>

definition pipe_read_iter :: "bool \<Rightarrow> nat \<Rightarrow> u8 list \<Rightarrow> pipe_buffer \<Rightarrow> u8 list \<times> ppc \<times> pipe_buffer" where
  "pipe_read_iter nonblock count buf p =
     (if \<not> length buf < count then (buf, PRet (Inr (length buf)), p)
      else if pused p = 0 then
        if writers p = 0 \<or> length buf > 0 then (buf, PRet (Inr (length buf)), p)
        else if nonblock then (buf, PRet (Inl EAGAIN), p)
        else (buf, PWait, p)
      else
        let linear = pipe_linear_tail p;
            chunk = (if count - length buf > linear then linear else count - length buf)
        in (buf @ take chunk (drop (ptail p) (pdata p)), PLoop, pipe_commit_read_locked p chunk))"

text \<open>One pass through the loop of \<^verbatim>\<open>pipe_write\<close>; \<open>don\<close> is the number of bytes of \<open>buf\<close> written so far.\<close>

definition write_min_space :: "u8 list \<Rightarrow> nat" where
  "write_min_space buf = (if length buf \<le> PIPE_BUF then length buf else 1)"

definition pipe_write_iter :: "bool \<Rightarrow> u8 list \<Rightarrow> nat \<Rightarrow> pipe_buffer \<Rightarrow> (nat \<times> ppc \<times> pipe_buffer) option" where
  "pipe_write_iter nonblock buf don p =
     (if \<not> don < length buf then Some (don, PRet (Inr don), p)
      else if readers p = 0 then Some (don, PRet (if don > 0 then Inr don else Inl EPIPE), p)
      else
        let space = PIPE_SIZE - pused p in
        if space < write_min_space buf then
          if nonblock then Some (don, PRet (if don > 0 then Inr don else Inl EAGAIN), p)
          else Some (don, PWait, p)
        else if length buf \<le> PIPE_BUF then
          map_option (\<lambda>p'. (length buf, PRet (Inr (length buf)), p')) (pipe_commit_write_locked p buf)
        else
          let n = (if space > length buf - don then length buf - don else space) in
          map_option (\<lambda>p'. (don + n, PLoop, p')) (pipe_commit_write_locked p (take n (drop don buf))))"

text \<open>
  One pass through the loop of \<^verbatim>\<open>pipe_splice_to_file\<close>, up to the unlock before \<^verbatim>\<open>vfs_write_pos\<close>; \<open>page\<close> tells whether the bounce
  page is already there, \<open>mem\<close> whether \<^verbatim>\<open>get_free_page\<close> succeeds.
\<close>

definition pipe_splice_iter :: "bool \<Rightarrow> bool \<Rightarrow> nat \<Rightarrow> nat \<Rightarrow> bool \<Rightarrow> pipe_buffer \<Rightarrow> bool \<times> ppc" where
  "pipe_splice_iter mem nonblock len don page p =
     (if \<not> don < len then (page, PRet (Inr don))
      else if pused p = 0 then
        if writers p = 0 \<or> don > 0 then (page, PRet (Inr don))
        else if nonblock then (page, PRet (Inl EAGAIN))
        else (page, PWait)
      else
        let chunk = (if len - don > pipe_linear_tail p then pipe_linear_tail p else len - don) in
        if \<not> page then
          if mem then (True, PLoop) else (page, PRet (if don > 0 then Inr don else Inl ENOMEM))
        else (page, PWrite (take chunk (drop (ptail p) (pdata p)))))"

text \<open>The second locked section: \<open>ret\<close> is what \<^verbatim>\<open>vfs_write_pos\<close> returned for the copied chunk.\<close>

definition pipe_splice_commit :: "nat \<Rightarrow> nat \<Rightarrow> u8 list \<Rightarrow> pipe_buffer \<Rightarrow> nat \<times> ppc \<times> pipe_buffer" where
  "pipe_splice_commit ret don chunk p =
     (if ret = 0 then (don, PRet (Inr don), p)
      else if ret > pused p then (don, PBug, p)
      else
        (don + ret, if ret < length chunk then PRet (Inr (don + ret)) else PLoop, pipe_commit_read_locked p ret))"

text \<open>\<^verbatim>\<open>pipe_release\<close> by access mode; the last component says that the buffer is freed.\<close>

definition pipe_release :: "bool \<Rightarrow> bool \<Rightarrow> pipe_buffer \<Rightarrow> pipe_buffer \<times> bool" where
  "pipe_release mode_read mode_write p =
     (let p1 = (if mode_read \<and> readers p > 0 then p\<lparr>readers := readers p - 1\<rparr> else p);
          p2 = (if mode_write \<and> writers p1 > 0 then p1\<lparr>writers := writers p1 - 1\<rparr> else p1)
      in (p2, readers p2 = 0 \<and> writers p2 = 0))"

definition POLLIN :: u32 where "POLLIN = 1"
definition POLLOUT :: u32 where "POLLOUT = 4"
definition POLLERR :: u32 where "POLLERR = 8"
definition POLLHUP :: u32 where "POLLHUP = 16"

text \<open>\<^verbatim>\<open>pipe_poll\<close> without a wait session.\<close>

definition pipe_poll :: "bool \<Rightarrow> bool \<Rightarrow> u32 \<Rightarrow> pipe_buffer \<Rightarrow> u32" where
  "pipe_poll mode_read mode_write events p =
     (let m0 = 0;
          m1 = (if events AND POLLIN \<noteq> 0 \<and> mode_read
                then (let a = (if pused p > 0 then m0 OR POLLIN else m0)
                      in if writers p = 0 then a OR POLLHUP else a)
                else m0)
      in if events AND POLLOUT \<noteq> 0 \<and> mode_write
         then if readers p = 0 then m1 OR POLLERR
              else if pused p < PIPE_SIZE then m1 OR POLLOUT else m1
         else m1)"

datatype pthread =
    PReader bool nat "u8 list" ppc
  | PWriter bool "u8 list" nat ppc
  | PSplicer bool nat nat bool ppc

datatype plabel = Tau | Took "u8 list" | Put "u8 list"

type_synonym psys = "pipe_buffer \<times> pthread list"

inductive pipe_step :: "psys \<Rightarrow> nat \<times> plabel \<Rightarrow> psys \<Rightarrow> bool" where
  do_read: "i < length ts \<Longrightarrow> ts ! i = PReader nb n buf PLoop \<Longrightarrow> pipe_read_iter nb n buf p = (buf', pc', p') \<Longrightarrow>
    pipe_step (p, ts) (i, Took (drop (length buf) buf')) (p', ts[i := PReader nb n buf' pc'])"
| read_wake: "i < length ts \<Longrightarrow> ts ! i = PReader nb n buf PWait \<Longrightarrow> pipe_read_probe p \<Longrightarrow>
    pipe_step (p, ts) (i, Tau) (p, ts[i := PReader nb n buf PLoop])"
| read_fail: "i < length ts \<Longrightarrow> ts ! i = PReader nb n buf PWait \<Longrightarrow>
    pipe_step (p, ts) (i, Tau) (p, ts[i := PReader nb n buf (PRet (if buf \<noteq> [] then Inr (length buf) else Inl e))])"
| do_write: "i < length ts \<Longrightarrow> ts ! i = PWriter nb buf don PLoop \<Longrightarrow> pipe_write_iter nb buf don p = Some (don', pc', p') \<Longrightarrow>
    pipe_step (p, ts) (i, Put (take (don' - don) (drop don buf))) (p', ts[i := PWriter nb buf don' pc'])"
| write_wake: "i < length ts \<Longrightarrow> ts ! i = PWriter nb buf don PWait \<Longrightarrow> pipe_write_probe (write_min_space buf) p \<Longrightarrow>
    pipe_step (p, ts) (i, Tau) (p, ts[i := PWriter nb buf don PLoop])"
| write_fail: "i < length ts \<Longrightarrow> ts ! i = PWriter nb buf don PWait \<Longrightarrow>
    pipe_step (p, ts) (i, Tau) (p, ts[i := PWriter nb buf don (PRet (if don > 0 then Inr don else Inl e))])"
| do_splice: "i < length ts \<Longrightarrow> ts ! i = PSplicer nb len don page PLoop \<Longrightarrow>
    pipe_splice_iter mem nb len don page p = (page', pc') \<Longrightarrow>
    pipe_step (p, ts) (i, Tau) (p, ts[i := PSplicer nb len don page' pc'])"
| splice_wake: "i < length ts \<Longrightarrow> ts ! i = PSplicer nb len don page PWait \<Longrightarrow> pipe_read_probe p \<Longrightarrow>
    pipe_step (p, ts) (i, Tau) (p, ts[i := PSplicer nb len don page PLoop])"
| splice_fail: "i < length ts \<Longrightarrow> ts ! i = PSplicer nb len don page PWait \<Longrightarrow>
    pipe_step (p, ts) (i, Tau) (p, ts[i := PSplicer nb len don page (PRet (if don > 0 then Inr don else Inl e))])"
| splice_write: "i < length ts \<Longrightarrow> ts ! i = PSplicer nb len don page (PWrite chunk) \<Longrightarrow> ret \<le> length chunk \<Longrightarrow>
    pipe_splice_commit ret don chunk p = (don', pc', p') \<Longrightarrow>
    pipe_step (p, ts) (i, Tau) (p', ts[i := PSplicer nb len don' page pc'])"
| splice_error: "i < length ts \<Longrightarrow> ts ! i = PSplicer nb len don page (PWrite chunk) \<Longrightarrow>
    pipe_step (p, ts) (i, Tau) (p, ts[i := PSplicer nb len don page (PRet (if don > 0 then Inr don else Inl e))])"
| do_release: "pipe_release mr mw p = (p', False) \<Longrightarrow> pipe_step (p, ts) (i, Tau) (p', ts)"

inductive pipe_steps :: "psys \<Rightarrow> (nat \<times> plabel) list \<Rightarrow> psys \<Rightarrow> bool" where
  none: "pipe_steps s [] s"
| more: "pipe_steps s ls s' \<Longrightarrow> pipe_step s' l s'' \<Longrightarrow> pipe_steps s (ls @ [l]) s''"

section \<open>The bytes in a pipe\<close>

definition pipe_wf :: "pipe_buffer \<Rightarrow> bool" where
  "pipe_wf p \<longleftrightarrow>
     length (pdata p) = PIPE_SIZE \<and> phead p < PIPE_SIZE \<and> ptail p < PIPE_SIZE \<and> pused p \<le> PIPE_SIZE \<and>
     phead p = (ptail p + pused p) mod PIPE_SIZE \<and> 0 \<le> readers p \<and> 0 \<le> writers p"

definition pipe_contents :: "pipe_buffer \<Rightarrow> u8 list" where
  "pipe_contents p = ring (pdata p) PIPE_SIZE (ptail p) (pused p)"

lemma pipe_wfD:
  assumes "pipe_wf p"
  shows "length (pdata p) = PIPE_SIZE" "phead p < PIPE_SIZE" "ptail p < PIPE_SIZE" "pused p \<le> PIPE_SIZE"
    "phead p = (ptail p + pused p) mod PIPE_SIZE" "0 \<le> readers p" "0 \<le> writers p"
  using assms by (simp_all add: pipe_wf_def)

lemma PIPE_SIZE_pos: "0 < PIPE_SIZE"
  by (simp add: PIPE_SIZE_def)

lemma commit_read_ok:
  assumes wf: "pipe_wf p" and n: "n \<le> pused p"
  shows "pipe_wf (pipe_commit_read_locked p n)"
    and "pipe_contents (pipe_commit_read_locked p n) = drop n (pipe_contents p)"
proof -
  note w = pipe_wfD [OF wf]
  have "((ptail p + n) mod PIPE_SIZE + (pused p - n)) mod PIPE_SIZE = phead p"
    using n w(5) mod_add_left_eq [of "ptail p + n" PIPE_SIZE "pused p - n"] by simp
  then show "pipe_wf (pipe_commit_read_locked p n)"
    using w n PIPE_SIZE_pos by (simp add: pipe_wf_def pipe_commit_read_locked_def)
  show "pipe_contents (pipe_commit_read_locked p n) = drop n (pipe_contents p)"
    using ring_drop [OF n] by (simp add: pipe_contents_def pipe_commit_read_locked_def)
qed

lemma linear_tail_le: "pipe_wf p \<Longrightarrow> pipe_linear_tail p \<le> pused p \<and> ptail p + pipe_linear_tail p \<le> PIPE_SIZE"
  using pipe_wfD(3) [of p] by (auto simp: pipe_linear_tail_def Let_def)

lemma linear_slice:
  assumes wf: "pipe_wf p" and n: "n \<le> pipe_linear_tail p"
  shows "take n (drop (ptail p) (pdata p)) = take n (pipe_contents p)"
  using ring_take_linear [of n "pused p" "ptail p" PIPE_SIZE "pdata p"] linear_tail_le [OF wf] n pipe_wfD(1) [OF wf]
  by (simp add: pipe_contents_def)


lemma commit_write_ok:
  assumes "pipe_wf p" "length bs \<le> PIPE_SIZE - pused p"
  shows "\<exists>p'. pipe_commit_write_locked p bs = Some p' \<and> pipe_wf p' \<and> pipe_contents p' = pipe_contents p @ bs"
  using assms
proof (induction "length bs" arbitrary: p bs rule: less_induct)
  case less
  show ?case
  proof (cases "bs = []")
    case True
    then show ?thesis using less.prems by (simp add: pipe_commit_write_locked.simps)
  next
    case False
    note w = pipe_wfD [OF less.prems(1)]
    define c where "c = (if length bs > pipe_linear_head_space p then pipe_linear_head_space p else length bs)"
    have c: "0 < c" "c \<le> length bs" "phead p + c \<le> PIPE_SIZE" "pused p + c \<le> PIPE_SIZE"
      using False less.prems(2) w(2,4) by (auto simp: c_def pipe_linear_head_space_def Let_def)
    define q where "q = p\<lparr>pdata := blit (pdata p) (phead p) (take c bs),
      phead := (phead p + c) mod PIPE_SIZE, pused := pused p + c\<rparr>"
    have "(phead p + c) mod PIPE_SIZE = (ptail p + (pused p + c)) mod PIPE_SIZE"
      by (simp add: w(5) mod_simps ac_simps)
    then have qwf: "pipe_wf q"
      using w c PIPE_SIZE_pos by (simp add: pipe_wf_def q_def blit_length)
    have qc: "pipe_contents q = pipe_contents p @ take c bs"
      using ring_blit [of "pdata p" PIPE_SIZE "phead p" "ptail p" "pused p" "take c bs"] w c PIPE_SIZE_pos
      by (simp add: pipe_contents_def q_def)
    have "pipe_commit_write_locked p bs = pipe_commit_write_locked q (drop c bs)"
      using False by (subst pipe_commit_write_locked.simps) (simp add: Let_def c_def q_def)
    moreover obtain p' where "pipe_commit_write_locked q (drop c bs) = Some p'" "pipe_wf p'"
      "pipe_contents p' = pipe_contents q @ drop c bs"
    proof -
      have "length (drop c bs) < length bs" "length (drop c bs) \<le> PIPE_SIZE - pused q"
        using c less.prems(2) by (auto simp: q_def)
      then show thesis using less.hyps [of "drop c bs" q] qwf that by blast
    qed
    ultimately show ?thesis using qc by simp
  qed
qed

lemma read_iter_ok:
  assumes wf: "pipe_wf p" and r: "pipe_read_iter nb n buf p = (buf', pc', p')" and len: "length buf \<le> n"
  obtains bs where "buf' = buf @ bs" "pipe_contents p = bs @ pipe_contents p'" "pipe_wf p'" "length buf' \<le> n"
    "\<forall>k. pc' = PRet (Inr k) \<longrightarrow> k = length buf'" "\<forall>e. pc' = PRet (Inl e) \<longrightarrow> buf' = []"
proof (cases "length buf < n \<and> pused p \<noteq> 0")
  case False
  then have "buf' = buf" "p' = p" "\<forall>k. pc' = PRet (Inr k) \<longrightarrow> k = length buf'" "\<forall>e. pc' = PRet (Inl e) \<longrightarrow> buf' = []"
    using r by (auto simp: pipe_read_iter_def split: if_splits)
  then show thesis using that [of "[]"] wf len by simp
next
  case True
  define c where "c = (if n - length buf > pipe_linear_tail p then pipe_linear_tail p else n - length buf)"
  have c: "c \<le> pipe_linear_tail p" "c \<le> n - length buf" by (auto simp: c_def)
  have cu: "c \<le> pused p" using linear_tail_le [OF wf] c by simp
  have e: "buf' = buf @ take c (pipe_contents p)" "p' = pipe_commit_read_locked p c" "pc' = PLoop"
    using r True linear_slice [OF wf c(1)] by (auto simp: pipe_read_iter_def Let_def c_def split: if_splits)
  show thesis
    by (rule that [OF e(1)]) (use commit_read_ok [OF wf cu] c e True in auto)
qed

lemma write_iter_ok:
  assumes wf: "pipe_wf p" and d: "don \<le> length buf" "length buf \<le> PIPE_BUF \<Longrightarrow> don = 0 \<or> don = length buf"
  shows "\<exists>don' pc' p'. pipe_write_iter nb buf don p = Some (don', pc', p') \<and> pipe_wf p' \<and> don \<le> don' \<and> don' \<le> length buf \<and>
    pipe_contents p' = pipe_contents p @ take (don' - don) (drop don buf) \<and>
    (length buf \<le> PIPE_BUF \<longrightarrow> don' = 0 \<or> don' = length buf) \<and>
    (\<forall>k. pc' = PRet (Inr k) \<longrightarrow> k = don') \<and> (\<forall>e. pc' = PRet (Inl e) \<longrightarrow> don' = 0)"
proof -
  define space where "space = PIPE_SIZE - pused p"
  consider (quiet) "\<not> don < length buf \<or> readers p = 0 \<or> space < write_min_space buf"
    | (atomic) "don < length buf" "readers p \<noteq> 0" "\<not> space < write_min_space buf" "length buf \<le> PIPE_BUF"
    | (part) "don < length buf" "readers p \<noteq> 0" "\<not> space < write_min_space buf" "\<not> length buf \<le> PIPE_BUF"
    by blast
  then show ?thesis
  proof cases
    case quiet
    then show ?thesis using wf d by (auto simp: pipe_write_iter_def space_def Let_def)
  next
    case atomic
    then have "don = 0" "length buf \<le> PIPE_SIZE - pused p" using d by (auto simp: write_min_space_def space_def)
    then show ?thesis using commit_write_ok [OF wf, of buf] atomic
      by (auto simp: pipe_write_iter_def space_def Let_def)
  next
    case part
    define n where "n = (if space > length buf - don then length buf - don else space)"
    have n: "n \<le> length buf - don" "n \<le> space" by (auto simp: n_def)
    obtain p' where p': "pipe_commit_write_locked p (take n (drop don buf)) = Some p'" "pipe_wf p'"
      "pipe_contents p' = pipe_contents p @ take n (drop don buf)"
      using commit_write_ok [OF wf, of "take n (drop don buf)"] n by (auto simp: space_def)
    have "pipe_write_iter nb buf don p = Some (don + n, PLoop, p')"
      using part p'(1) by (simp add: pipe_write_iter_def space_def [symmetric] Let_def n_def [symmetric])
    then show ?thesis using p' n part d(1) by auto
  qed
qed


section \<open>Executions\<close>

fun label_put :: "plabel \<Rightarrow> u8 list" where
  "label_put (Put bs) = bs"
| "label_put _ = []"

fun label_took :: "plabel \<Rightarrow> u8 list" where
  "label_took (Took bs) = bs"
| "label_took _ = []"

definition put_bytes :: "(nat \<times> plabel) list \<Rightarrow> u8 list" where
  "put_bytes ls = concat (map (label_put \<circ> snd) ls)"

definition took_bytes :: "(nat \<times> plabel) list \<Rightarrow> u8 list" where
  "took_bytes ls = concat (map (label_took \<circ> snd) ls)"

definition labels_of :: "nat \<Rightarrow> (nat \<times> plabel) list \<Rightarrow> (nat \<times> plabel) list" where
  "labels_of i ls = filter (\<lambda>l. fst l = i) ls"

text \<open>A read or write call about to start.\<close>

fun pthread_fresh :: "pthread \<Rightarrow> bool" where
  "pthread_fresh (PReader nb n buf pc) \<longleftrightarrow> buf = [] \<and> pc = PLoop"
| "pthread_fresh (PWriter nb buf don pc) \<longleftrightarrow> don = 0 \<and> pc = PLoop"
| "pthread_fresh (PSplicer nb len don page pc) \<longleftrightarrow> False"

fun pthread_ok :: "pthread \<Rightarrow> bool" where
  "pthread_ok (PReader nb n buf pc) \<longleftrightarrow> length buf \<le> n \<and> (\<forall>k. pc = PRet (Inr k) \<longrightarrow> k = length buf) \<and>
     (\<forall>e. pc = PRet (Inl e) \<longrightarrow> buf = [])"
| "pthread_ok (PWriter nb buf don pc) \<longleftrightarrow> don \<le> length buf \<and> (length buf \<le> PIPE_BUF \<longrightarrow> don = 0 \<or> don = length buf) \<and>
     (\<forall>k. pc = PRet (Inr k) \<longrightarrow> k = don) \<and> (\<forall>e. pc = PRet (Inl e) \<longrightarrow> don = 0)"
| "pthread_ok (PSplicer nb len don page pc) \<longleftrightarrow> False"

text \<open>How the progress of a thread relates to the bytes it moved in one step, or in many.\<close>

fun pthread_moved :: "pthread \<Rightarrow> u8 list \<Rightarrow> u8 list \<Rightarrow> pthread \<Rightarrow> bool" where
  "pthread_moved (PReader nb n buf pc) took put (PReader nb' n' buf' pc') \<longleftrightarrow>
     n' = n \<and> buf' = buf @ took \<and> put = []"
| "pthread_moved (PWriter nb buf don pc) took put (PWriter nb' buf' don' pc') \<longleftrightarrow>
     buf' = buf \<and> don \<le> don' \<and> put = take (don' - don) (drop don buf) \<and> took = []"
| "pthread_moved _ _ _ _ \<longleftrightarrow> False"

lemma pthread_moved_refl: "pthread_ok t \<Longrightarrow> pthread_moved t [] [] t"
  by (cases t) auto

lemma pthread_moved_trans:
  "pthread_moved t a b t' \<Longrightarrow> pthread_moved t' a' b' t'' \<Longrightarrow> pthread_moved t (a @ a') (b @ b') t''"
proof (cases t; cases t'; cases t''; clarsimp)
  fix buf :: "u8 list" and d d' d'' :: nat
  assume "d \<le> d'" "d' \<le> d''"
  then have "d'' - d = (d' - d) + (d'' - d')" "(d' - d) + d = d'" by auto
  then show "take (d' - d) (drop d buf) @ take (d'' - d') (drop d' buf) = take (d'' - d) (drop d buf)"
    by (metis take_add drop_drop)
qed

lemma pipe_step_ok:
  assumes st: "pipe_step (p, ts) (i, l) (p', ts')" and wf: "pipe_wf p" and ok: "list_all pthread_ok ts"
  shows "pipe_wf p' \<and> list_all pthread_ok ts' \<and> length ts' = length ts \<and>
    pipe_contents p @ label_put l = label_took l @ pipe_contents p' \<and>
    (\<forall>j < length ts. if j = i then pthread_moved (ts ! i) (label_took l) (label_put l) (ts' ! i) else ts' ! j = ts ! j)"
proof -
  have tok: "pthread_ok (ts ! j)" if "j < length ts" for j using ok that by (simp add: list_all_length)
  have upd: ?thesis
    if "i < length ts" "ts' = ts[i := t']" "pipe_wf p'" "pthread_ok t'"
      "pipe_contents p @ label_put l = label_took l @ pipe_contents p'"
      "pthread_moved (ts ! i) (label_took l) (label_put l) t'" for t'
    using that tok by (auto simp: list_all_length nth_list_update)
  from st show ?thesis
  proof cases
    case (do_read nb n buf buf' pc')
    have "length buf \<le> n" using tok [OF do_read(3)] do_read(4) by simp
    then obtain bs where "buf' = buf @ bs" "pipe_contents p = bs @ pipe_contents p'" "pipe_wf p'" "length buf' \<le> n"
      "\<forall>k. pc' = PRet (Inr k) \<longrightarrow> k = length buf'" "\<forall>e. pc' = PRet (Inl e) \<longrightarrow> buf' = []"
      using read_iter_ok [OF wf do_read(5)] by blast
    then show ?thesis by (intro upd [OF do_read(3,2)]) (use do_read in auto)
  next
    case (do_write nb buf don don' pc')
    have "don \<le> length buf" "length buf \<le> PIPE_BUF \<Longrightarrow> don = 0 \<or> don = length buf"
      using tok [OF do_write(3)] do_write(4) by auto
    from write_iter_ok [OF wf this, of nb] do_write show ?thesis by (intro upd [OF do_write(3,2)]) auto
  next
    case (do_release mr mw)
    have "pipe_wf p'" "pipe_contents p' = pipe_contents p"
      using do_release wf by (auto simp: pipe_release_def pipe_wf_def pipe_contents_def Let_def split: if_splits)
    then show ?thesis using do_release ok tok pthread_moved_refl by auto
  next
    case (read_wake nb n buf)
    then show ?thesis using tok [OF read_wake(4)] wf by (intro upd [OF read_wake(4,3)]) auto
  next
    case (read_fail nb n buf e)
    then show ?thesis using tok [OF read_fail(4)] wf by (intro upd [OF read_fail(4,3)]) auto
  next
    case (write_wake nb buf don)
    then show ?thesis using tok [OF write_wake(4)] wf by (intro upd [OF write_wake(4,3)]) auto
  next
    case (write_fail nb buf don e)
    then show ?thesis using tok [OF write_fail(4)] wf by (intro upd [OF write_fail(4,3)]) auto
  qed (use tok [of i] in auto)
qed


lemma put_bytes_snoc [simp]: "put_bytes (ls @ [(i, l)]) = put_bytes ls @ label_put l"
  and took_bytes_snoc [simp]: "took_bytes (ls @ [(i, l)]) = took_bytes ls @ label_took l"
  and labels_of_snoc [simp]: "labels_of j (ls @ [(i, l)]) = labels_of j ls @ (if i = j then [(i, l)] else [])"
  by (simp_all add: put_bytes_def took_bytes_def labels_of_def)

lemma bytes_Nil [simp]: "put_bytes [] = []" "took_bytes [] = []" "labels_of i [] = []"
  by (simp_all add: put_bytes_def took_bytes_def labels_of_def)

lemma fresh_ok: "pthread_fresh t \<Longrightarrow> pthread_ok t"
  by (cases t) auto

lemma pipe_steps_ok:
  assumes "pipe_steps (p0, ts0) ls (p, ts)" "pipe_wf p0" "list_all pthread_fresh ts0"
  shows "pipe_wf p \<and> list_all pthread_ok ts \<and> length ts = length ts0 \<and>
    pipe_contents p0 @ put_bytes ls = took_bytes ls @ pipe_contents p \<and>
    (\<forall>i < length ts0. pthread_moved (ts0 ! i) (took_bytes (labels_of i ls)) (put_bytes (labels_of i ls)) (ts ! i))"
  using assms
proof (induction "(p0, ts0)" ls "(p, ts)" arbitrary: p ts rule: pipe_steps.induct)
  case none
  then show ?case using fresh_ok pthread_moved_refl by (auto simp: list_all_length)
next
  case (more ls s' il)
  obtain p1 ts1 where s': "s' = (p1, ts1)" by fastforce
  obtain i l where il: "il = (i, l)" by fastforce
  have IH: "pipe_wf p1" "list_all pthread_ok ts1" "length ts1 = length ts0"
    "pipe_contents p0 @ put_bytes ls = took_bytes ls @ pipe_contents p1"
    "\<forall>i < length ts0. pthread_moved (ts0 ! i) (took_bytes (labels_of i ls)) (put_bytes (labels_of i ls)) (ts1 ! i)"
    using more(2) [OF s' more(4,5)] by blast+
  have st: "pipe_wf p" "list_all pthread_ok ts" "length ts = length ts1"
    "pipe_contents p1 @ label_put l = label_took l @ pipe_contents p"
    "\<forall>j < length ts1. if j = i then pthread_moved (ts1 ! i) (label_took l) (label_put l) (ts ! i) else ts ! j = ts1 ! j"
    using pipe_step_ok [OF more(3) [unfolded s' il] IH(1,2)] by blast+
  have "pthread_moved (ts0 ! j) (took_bytes (labels_of j (ls @ [(i, l)]))) (put_bytes (labels_of j (ls @ [(i, l)]))) (ts ! j)"
    if "j < length ts0" for j
    using IH(3,5) st(5) that pthread_moved_trans by (cases "j = i") auto
  moreover have "pipe_contents p0 @ put_bytes (ls @ [(i, l)]) = took_bytes (ls @ [(i, l)]) @ pipe_contents p"
    using IH(4) st(4) by (metis append.assoc put_bytes_snoc took_bytes_snoc)
  ultimately show ?case using st IH(3) il by simp
qed

lemma pipe_step_atomic:
  assumes "pipe_step (p, ts) (i, l) (p', ts')" "pipe_wf p" "list_all pthread_ok ts" "i < length ts"
    "ts ! i = PWriter nb buf don pc" "length buf \<le> PIPE_BUF"
  shows "label_put l = [] \<or> label_put l = buf"
proof -
  note s = pipe_step_ok [OF assms(1-3)]
  have "pthread_moved (ts ! i) (label_took l) (label_put l) (ts' ! i)" using s assms(4) by auto
  moreover have "pthread_ok (ts ! i)" "pthread_ok (ts' ! i)" using s assms(3,4) by (auto simp: list_all_length)
  ultimately show ?thesis using assms(5,6) by (cases "ts' ! i") auto
qed

lemma pipe_steps_atomic:
  assumes "pipe_steps (p0, ts0) ls (p, ts)" "pipe_wf p0" "list_all pthread_fresh ts0" "i < length ts0"
    "ts0 ! i = PWriter nb buf 0 PLoop" "length buf \<le> PIPE_BUF" "(i, l) \<in> set ls"
  shows "label_put l = [] \<or> label_put l = buf"
  using assms
proof (induction "(p0, ts0)" ls "(p, ts)" arbitrary: p ts rule: pipe_steps.induct)
  case (more ls s' il)
  obtain p1 ts1 where s': "s' = (p1, ts1)" by fastforce
  show ?case
  proof (cases "(i, l) \<in> set ls")
    case True
    then show ?thesis using more(2) [OF s' more(4-8)] by blast
  next
    case False
    then have il: "il = (i, l)" using more(9) by simp
    have o: "pipe_wf p1" "list_all pthread_ok ts1" "length ts1 = length ts0"
      "pthread_moved (ts0 ! i) (took_bytes (labels_of i ls)) (put_bytes (labels_of i ls)) (ts1 ! i)"
      using pipe_steps_ok [OF more(1) [unfolded s'] more(4,5)] more(6) by auto
    then obtain nb' don' pc' where "ts1 ! i = PWriter nb' buf don' pc'"
      using more(7) by (cases "ts1 ! i") auto
    then show ?thesis using pipe_step_atomic [OF more(3) [unfolded s' il] o(1,2)] o(3) more(6,8) by simp
  qed
qed simp

section \<open>Properties\<close>

definition empty_pipe :: pipe_buffer where
  "empty_pipe = \<lparr>pdata = replicate PIPE_SIZE 0, phead = 0, ptail = 0, pused = 0, readers = 1, writers = 1\<rparr>"

lemma empty_pipe_wf: "pipe_wf empty_pipe"
  by (simp add: pipe_wf_def empty_pipe_def PIPE_SIZE_def)

text \<open>
  C1: a pipe is a byte stream. In every interleaving of any number of \<^verbatim>\<open>read\<close> and \<^verbatim>\<open>write\<close> calls on a pipe (blocking or not, of any size, with ends
  being closed at any moment), the bytes that were in the pipe followed by the bytes the writers committed, in the
  order of their commits, are the bytes the readers took, in the order they took them, followed by the bytes now
  in the pipe: nothing is lost, duplicated or reordered. Each reader's buffer holds exactly the bytes it took and
  each writer has committed exactly the first bytes of its buffer.
\<close>

theorem pipe_stream:
  assumes "pipe_steps (p0, ts0) ls (p, ts)" and "pipe_wf p0" and "list_all pthread_fresh ts0"
  shows "pipe_wf p \<and> pipe_contents p0 @ put_bytes ls = took_bytes ls @ pipe_contents p \<and>
    (\<forall>i < length ts0. case ts ! i of
       PReader nb n buf pc \<Rightarrow> buf = took_bytes (labels_of i ls) \<and> length buf \<le> n \<and> (\<forall>k. pc = PRet (Inr k) \<longrightarrow> k = length buf)
     | PWriter nb buf don pc \<Rightarrow> put_bytes (labels_of i ls) = take don buf \<and> (\<forall>k. pc = PRet (Inr k) \<longrightarrow> k = don)
     | PSplicer _ _ _ _ _ \<Rightarrow> False)"
proof -
  note o = pipe_steps_ok [OF assms]
  have "case ts ! i of
       PReader nb n buf pc \<Rightarrow> buf = took_bytes (labels_of i ls) \<and> length buf \<le> n \<and> (\<forall>k. pc = PRet (Inr k) \<longrightarrow> k = length buf)
     | PWriter nb buf don pc \<Rightarrow> put_bytes (labels_of i ls) = take don buf \<and> (\<forall>k. pc = PRet (Inr k) \<longrightarrow> k = don)
     | PSplicer _ _ _ _ _ \<Rightarrow> False" if i: "i < length ts0" for i
  proof -
    have "pthread_fresh (ts0 ! i)" "pthread_ok (ts ! i)" using assms(3) o i by (auto simp: list_all_length)
    moreover have "pthread_moved (ts0 ! i) (took_bytes (labels_of i ls)) (put_bytes (labels_of i ls)) (ts ! i)"
      using o i by blast
    ultimately show ?thesis by (cases "ts0 ! i"; cases "ts ! i") auto
  qed
  then show ?thesis using o by blast
qed


definition ex_pipe1 :: pipe_buffer where
  "ex_pipe1 = empty_pipe\<lparr>pdata := [7, 8, 9] @ replicate 4093 0, phead := 3, pused := 3\<rparr>"

definition ex_pipe2 :: pipe_buffer where
  "ex_pipe2 = ex_pipe1\<lparr>ptail := 2, pused := 1\<rparr>"

lemma ex_pipe_write: "pipe_write_iter False [7, 8, 9] 0 empty_pipe = Some (3, PRet (Inr 3), ex_pipe1)"
proof -
  have "pipe_commit_write_locked empty_pipe [7, 8, 9] = Some ex_pipe1"
    by (subst pipe_commit_write_locked.simps, simp add: pipe_linear_head_space_def empty_pipe_def PIPE_SIZE_def Let_def)
      (subst pipe_commit_write_locked.simps, simp add: ex_pipe1_def empty_pipe_def PIPE_SIZE_def blit_def)
  then show ?thesis
    by (simp add: pipe_write_iter_def Let_def write_min_space_def PIPE_BUF_def) (simp add: empty_pipe_def PIPE_SIZE_def)
qed

lemma ex_pipe_read: "pipe_read_iter False 2 [] ex_pipe1 = ([7, 8], PLoop, ex_pipe2)"
  by (simp add: pipe_read_iter_def ex_pipe1_def ex_pipe2_def empty_pipe_def pipe_linear_tail_def PIPE_SIZE_def
      pipe_commit_read_locked_def Let_def)

lemma ex_pipe_run:
  "pipe_steps (empty_pipe, [PWriter False [7, 8, 9] 0 PLoop, PReader False 2 [] PLoop])
    [(0, Put [7, 8, 9]), (1, Took [7, 8])]
    (ex_pipe2, [PWriter False [7, 8, 9] 3 (PRet (Inr 3)), PReader False 2 [7, 8] PLoop])"
proof -
  let ?ts = "[PWriter False [7, 8, 9] 0 PLoop, PReader False 2 [] PLoop]"
  let ?ts1 = "[PWriter False [7, 8, 9] 3 (PRet (Inr 3)), PReader False 2 [] PLoop]"
  have "pipe_step (empty_pipe, ?ts) (0, Put [7, 8, 9]) (ex_pipe1, ?ts1)"
    using pipe_step.do_write [of 0 ?ts False "[7, 8, 9]" 0 empty_pipe, OF _ _ ex_pipe_write] by simp
  then have "pipe_steps (empty_pipe, ?ts) [(0, Put [7, 8, 9])] (ex_pipe1, ?ts1)"
    using pipe_steps.more [OF pipe_steps.none] by fastforce
  moreover have "pipe_step (ex_pipe1, ?ts1) (1, Took [7, 8])
      (ex_pipe2, [PWriter False [7, 8, 9] 3 (PRet (Inr 3)), PReader False 2 [7, 8] PLoop])"
    using pipe_step.do_read [of 1 ?ts1 False 2 "[]" ex_pipe1, OF _ _ ex_pipe_read] by simp
  ultimately show ?thesis using pipe_steps.more by fastforce
qed

theorem pipe_stream_witness:
  "pipe_wf ex_pipe2 \<and> [7, 8, 9] = [7, 8] @ pipe_contents ex_pipe2"
proof -
  have "list_all pthread_fresh [PWriter False [7, 8, 9] 0 PLoop, PReader False 2 [] PLoop]"
    "pipe_contents empty_pipe = []"
    by (simp_all add: pipe_contents_def empty_pipe_def)
  then show ?thesis
    using pipe_stream [OF ex_pipe_run empty_pipe_wf] by (simp add: put_bytes_def took_bytes_def)
qed





text \<open>
  C19: a race in splicing. \<^verbatim>\<open>pipe_splice_to_file\<close> copies bytes under the lock, releases it for the write to the output file, and takes the bytes out
  afterwards without having reserved them. When another reader empties the pipe in between, the splicer stops the kernel at
  \<^verbatim>\<open>BUG_ON((size_t)ret > pipe->used)\<close>: with one reader, one splicer and three bytes in the pipe this state is
  reachable.
\<close>

theorem pipe_splice_race:
  "\<exists>ls p. pipe_steps (ex_pipe1, [PSplicer False 3 0 True PLoop, PReader False 3 [] PLoop]) ls
    (p, [PSplicer False 3 0 True PBug, PReader False 3 [7, 8, 9] PLoop])"
proof -
  let ?p = "ex_pipe1\<lparr>ptail := 3, pused := 0\<rparr>"
  let ?r = "PReader False 3 [] PLoop"
  have "pipe_splice_iter True False 3 0 True ex_pipe1 = (True, PWrite [7, 8, 9])"
    by (simp add: pipe_splice_iter_def ex_pipe1_def empty_pipe_def pipe_linear_tail_def PIPE_SIZE_def Let_def)
  then have 1: "pipe_step (ex_pipe1, [PSplicer False 3 0 True PLoop, ?r]) (0, Tau)
      (ex_pipe1, [PSplicer False 3 0 True (PWrite [7, 8, 9]), ?r])"
    using pipe_step.do_splice [of 0 "[PSplicer False 3 0 True PLoop, ?r]" False 3 0 True True ex_pipe1] by simp
  have "pipe_read_iter False 3 [] ex_pipe1 = ([7, 8, 9], PLoop, ?p)"
    by (simp add: pipe_read_iter_def ex_pipe1_def empty_pipe_def pipe_linear_tail_def PIPE_SIZE_def
        pipe_commit_read_locked_def Let_def)
  then have 2: "pipe_step (ex_pipe1, [PSplicer False 3 0 True (PWrite [7, 8, 9]), ?r]) (1, Took [7, 8, 9])
      (?p, [PSplicer False 3 0 True (PWrite [7, 8, 9]), PReader False 3 [7, 8, 9] PLoop])"
    using pipe_step.do_read [of 1 "[PSplicer False 3 0 True (PWrite [7, 8, 9]), ?r]" False 3 "[]" ex_pipe1] by simp
  have "pipe_splice_commit 3 0 [7, 8, 9] ?p = (0, PBug, ?p)" by (simp add: pipe_splice_commit_def)
  then have 3: "pipe_step (?p, [PSplicer False 3 0 True (PWrite [7, 8, 9]), PReader False 3 [7, 8, 9] PLoop]) (0, Tau)
      (?p, [PSplicer False 3 0 True PBug, PReader False 3 [7, 8, 9] PLoop])"
    using pipe_step.splice_write [of 0 "[PSplicer False 3 0 True (PWrite [7, 8, 9]), PReader False 3 [7, 8, 9] PLoop]"
        False 3 0 True "[7, 8, 9]" 3 ?p] by simp
  show ?thesis using pipe_steps.more [OF pipe_steps.more [OF pipe_steps.more [OF pipe_steps.none 1] 2] 3] by blast
qed

end
