(* ===== verification/Mlfq.thy ===== *)
theory Mlfq
  imports Bitmap
begin

text \<open>
  The multi-level feedback queue of \<^verbatim>\<open>sched/mlfq.c\<close> and the scheduler core of \<^verbatim>\<open>sched/sched.c\<close>. The four run queues are lists of
  task numbers, a task's \<^verbatim>\<open>run_list\<close> node is empty when it is on none of them, and the mask of non-empty levels is the
  bitmap. A failed \<^verbatim>\<open>BUG_ON\<close> is \<open>None\<close>.
\<close>

definition SCHED_MLFQ_LEVELS :: nat where "SCHED_MLFQ_LEVELS = 4"

definition HZ :: u64 where "HZ = 100"

record sched_entity =
  need_resched :: bool
  sched_level :: u8
  time_slice :: u8
  sched_ticks :: u8
  enqueue_jiffies :: u64
  running :: bool
  utime_ticks :: u64
  stime_ticks :: u64

text \<open>
  \<open>running\<close> is \<^verbatim>\<open>lifecycle.state == TASK_RUNNING\<close>; \<open>cur\<close> is \<^verbatim>\<open>current_task()\<close>.
\<close>

record rq =
  queues :: "nat list list"
  nonempty_levels :: bitmap
  runnable_count :: u32
  se :: "nat \<Rightarrow> sched_entity"
  cur :: "nat option"
  jiffies :: u64

definition idle :: nat where "idle = 0"

definition upd_se :: "nat \<Rightarrow> (sched_entity \<Rightarrow> sched_entity) \<Rightarrow> rq \<Rightarrow> rq" where
  "upd_se t f s = s\<lparr>se := (se s)(t := f (se s t))\<rparr>"

definition level_of :: "rq \<Rightarrow> nat \<Rightarrow> nat" where
  "level_of s t = unat (sched_level (se s t))"

definition queued :: "rq \<Rightarrow> nat \<Rightarrow> bool" where
  "queued s t \<longleftrightarrow> t \<in> set (concat (queues s))"

definition mlfq_level_slice :: "nat \<Rightarrow> u8 option" where
  "mlfq_level_slice level = (if level \<ge> SCHED_MLFQ_LEVELS then None else Some (of_nat (2 ^ level)))"

definition mark_nonempty :: "nat \<Rightarrow> rq \<Rightarrow> rq" where
  "mark_nonempty level s = s\<lparr>nonempty_levels := bitmap_set (nonempty_levels s) level\<rparr>"

definition refresh_empty_mark :: "nat \<Rightarrow> rq \<Rightarrow> rq" where
  "refresh_empty_mark level s =
     (if queues s ! level = [] then s\<lparr>nonempty_levels := bitmap_clear (nonempty_levels s) level\<rparr> else s)"

definition reset_budget :: "nat \<Rightarrow> rq \<Rightarrow> rq option" where
  "reset_budget t s =
     (case mlfq_level_slice (level_of s t) of
        None \<Rightarrow> None
      | Some sl \<Rightarrow> Some (upd_se t (\<lambda>e. e\<lparr>time_slice := sl, sched_ticks := 0\<rparr>) s))"

definition boost_task :: "nat \<Rightarrow> rq \<Rightarrow> rq option" where
  "boost_task t s = reset_budget t (upd_se t (\<lambda>e. e\<lparr>sched_level := 0\<rparr>) s)"

definition mlfq_init :: "rq \<Rightarrow> rq" where
  "mlfq_init s =
     s\<lparr>queues := replicate SCHED_MLFQ_LEVELS [], nonempty_levels := bitmap_zero (nonempty_levels s),
       runnable_count := 0\<rparr>"

definition mlfq_task_init :: "nat \<Rightarrow> rq \<Rightarrow> rq option" where
  "mlfq_task_init t s =
     (case mlfq_level_slice 0 of
        None \<Rightarrow> None
      | Some sl \<Rightarrow>
          Some (upd_se t (\<lambda>e. e\<lparr>sched_level := 0, time_slice := sl, sched_ticks := 0, enqueue_jiffies := 0\<rparr>) s))"

definition mlfq_enqueue :: "nat \<Rightarrow> rq \<Rightarrow> rq option" where
  "mlfq_enqueue t s =
     (if t = idle \<or> level_of s t \<ge> SCHED_MLFQ_LEVELS \<or> queued s t then None
      else
        let l = level_of s t;
            s1 = s\<lparr>queues := (queues s)[l := queues s ! l @ [t]]\<rparr>;
            s2 = upd_se t (\<lambda>e. e\<lparr>enqueue_jiffies := jiffies s1\<rparr>) s1;
            s3 = mark_nonempty (level_of s2 t) s2
        in Some (s3\<lparr>runnable_count := runnable_count s3 + 1\<rparr>))"

text \<open>\<^verbatim>\<open>list_del_init\<close> unlinks the node from whichever queue holds it.\<close>

definition unlink :: "nat \<Rightarrow> rq \<Rightarrow> rq" where
  "unlink t s = s\<lparr>queues := map (remove1 t) (queues s)\<rparr>"

definition mlfq_dequeue :: "nat option \<Rightarrow> rq \<Rightarrow> rq option" where
  "mlfq_dequeue task s =
     (case task of
        None \<Rightarrow> Some s
      | Some t \<Rightarrow>
          if \<not> queued s t then Some s
          else
            let level = level_of s t in
            if level \<ge> SCHED_MLFQ_LEVELS then None
            else
              let s1 = refresh_empty_mark level (unlink t s) in
              if runnable_count s1 = 0 then None
              else Some (s1\<lparr>runnable_count := runnable_count s1 - 1\<rparr>))"

definition mlfq_wakeup :: "nat \<Rightarrow> rq \<Rightarrow> rq option" where
  "mlfq_wakeup t s =
     (if t = idle \<or> level_of s t \<ge> SCHED_MLFQ_LEVELS then None
      else case reset_budget t s of
        None \<Rightarrow> None
      | Some s1 \<Rightarrow> if \<not> queued s1 t then mlfq_enqueue t s1 else Some s1)"

definition mlfq_empty :: "rq \<Rightarrow> bool" where
  "mlfq_empty s \<longleftrightarrow> bitmap_empty (nonempty_levels s)"

definition mlfq_peek_next :: "rq \<Rightarrow> nat option option" where
  "mlfq_peek_next s =
     (let level = bitmap_find_first_set (nonempty_levels s) in
      if level \<ge> SCHED_MLFQ_LEVELS then Some None
      else if queues s ! level = [] then None
      else Some (Some (hd (queues s ! level))))"

definition mlfq_pick_next :: "rq \<Rightarrow> (nat \<times> rq) option" where
  "mlfq_pick_next s =
     (case mlfq_peek_next s of
        None \<Rightarrow> None
      | Some None \<Rightarrow> None
      | Some (Some next) \<Rightarrow> map_option (\<lambda>s'. (next, s')) (mlfq_dequeue (Some next) s))"

text \<open>
  \<^verbatim>\<open>mlfq_boost\<close>: \<^verbatim>\<open>list_for_each_safe\<close> reads the successor before the body runs, so each queue is visited as it was when its level
  began; a task moved to level 0 goes behind the tasks that level already visited.
\<close>

definition boost_one :: "nat \<Rightarrow> nat \<Rightarrow> rq \<Rightarrow> rq option" where
  "boost_one level t s =
     (case (if level \<noteq> 0 then
              (case boost_task t (refresh_empty_mark level (unlink t s)) of
                 None \<Rightarrow> None
               | Some s1 \<Rightarrow> Some (mark_nonempty 0 (s1\<lparr>queues := (queues s1)[0 := queues s1 ! 0 @ [t]]\<rparr>)))
            else boost_task t s) of
        None \<Rightarrow> None
      | Some s2 \<Rightarrow> Some (upd_se t (\<lambda>e. e\<lparr>enqueue_jiffies := jiffies s2\<rparr>) s2))"

fun boost_list :: "nat \<Rightarrow> nat list \<Rightarrow> rq \<Rightarrow> rq option" where
  "boost_list level [] s = Some s"
| "boost_list level (t # ts) s =
     (case boost_one level t s of None \<Rightarrow> None | Some s' \<Rightarrow> boost_list level ts s')"

fun boost_levels :: "nat list \<Rightarrow> rq \<Rightarrow> rq option" where
  "boost_levels [] s = Some s"
| "boost_levels (l # ls) s =
     (case boost_list l (queues s ! l) s of None \<Rightarrow> None | Some s' \<Rightarrow> boost_levels ls s')"

definition mlfq_boost :: "rq \<Rightarrow> rq option" where
  "mlfq_boost s =
     (case boost_levels [0..<SCHED_MLFQ_LEVELS] s of
        None \<Rightarrow> None
      | Some s1 \<Rightarrow>
          (case cur s1 of
             None \<Rightarrow> Some s1
           | Some t \<Rightarrow> if t \<noteq> idle \<and> running (se s1 t) then boost_task t s1 else Some s1))"

definition mlfq_tick :: "rq \<Rightarrow> (bool \<times> rq) option" where
  "mlfq_tick s =
     (let charged =
        (case cur s of
           None \<Rightarrow> Some (False, s)
         | Some t \<Rightarrow>
             if t \<noteq> idle \<and> running (se s t) then
               let s1 = upd_se t (\<lambda>e. e\<lparr>time_slice := (if time_slice e > 0 then time_slice e - 1 else time_slice e)\<rparr>) s;
                   s2 = upd_se t (\<lambda>e. e\<lparr>sched_ticks := sched_ticks e + 1\<rparr>) s1
               in if time_slice (se s2 t) = 0 then
                    let s3 = (if level_of s2 t + 1 < SCHED_MLFQ_LEVELS
                              then upd_se t (\<lambda>e. e\<lparr>sched_level := sched_level e + 1\<rparr>) s2 else s2)
                    in map_option (\<lambda>s4. (True, s4)) (reset_budget t s3)
                  else Some (False, s2)
             else Some (False, s))
      in case charged of
           None \<Rightarrow> None
         | Some (need, s5) \<Rightarrow>
             if jiffies s5 \<noteq> 0 \<and> jiffies s5 mod HZ = 0
             then map_option (\<lambda>s6. (need, s6)) (mlfq_boost s5)
             else Some (need, s5))"

section \<open>The scheduler core\<close>

text \<open>
  \<^verbatim>\<open>schedule\<close>: the state after the choice, and the task switched to (\<open>None\<close> when the caller goes on). The context checks at its
  top are the parameter \<open>ctx_ok\<close>.
\<close>

definition schedule :: "bool \<Rightarrow> rq \<Rightarrow> (nat option \<times> rq) option" where
  "schedule ctx_ok s =
     (case cur s of
        None \<Rightarrow> None
      | Some prev \<Rightarrow>
          if \<not> ctx_ok then None
          else
            let s1 = upd_se prev (\<lambda>e. e\<lparr>need_resched := False\<rparr>) s in
            if mlfq_empty s1 then
              if prev = idle \<or> running (se s1 prev) then Some (None, s1)
              else Some (Some idle, s1\<lparr>cur := Some idle\<rparr>)
            else
              (case mlfq_pick_next s1 of
                 None \<Rightarrow> None
               | Some (next, s2) \<Rightarrow>
                   if next = prev then Some (None, s2)
                   else
                     (case (if prev \<noteq> idle \<and> running (se s2 prev) \<and> \<not> queued s2 prev
                            then mlfq_enqueue prev s2 else Some s2) of
                        None \<Rightarrow> None
                      | Some s3 \<Rightarrow> Some (Some next, s3\<lparr>cur := Some next\<rparr>))))"

definition sched_request :: "rq \<Rightarrow> rq" where
  "sched_request s =
     (case cur s of None \<Rightarrow> s | Some t \<Rightarrow> if t \<noteq> idle then upd_se t (\<lambda>e. e\<lparr>need_resched := True\<rparr>) s else s)"

definition sched_wake_task :: "nat option \<Rightarrow> rq \<Rightarrow> rq option" where
  "sched_wake_task task s =
     (case task of
        None \<Rightarrow> Some s
      | Some t \<Rightarrow>
          let s1 = upd_se t (\<lambda>e. e\<lparr>running := True\<rparr>) s in
          if cur s1 \<noteq> Some t then mlfq_wakeup t s1 else Some s1)"

text \<open>\<open>from_user\<close> is \<^verbatim>\<open>task_trap_frome_user\<close> of the current task.\<close>

definition sched_account_tick :: "bool \<Rightarrow> rq \<Rightarrow> rq" where
  "sched_account_tick from_user s =
     (case cur s of
        None \<Rightarrow> s
      | Some t \<Rightarrow>
          if t = idle then s
          else if from_user then upd_se t (\<lambda>e. e\<lparr>utime_ticks := utime_ticks e + 1\<rparr>) s
          else upd_se t (\<lambda>e. e\<lparr>stime_ticks := stime_ticks e + 1\<rparr>) s)"

definition sched_tick :: "bool \<Rightarrow> rq \<Rightarrow> rq option" where
  "sched_tick from_user s =
     (case mlfq_tick (sched_account_tick from_user s) of
        None \<Rightarrow> None
      | Some (need, s') \<Rightarrow> Some (if need then sched_request s' else s'))"

definition sched_yield :: "bool \<Rightarrow> rq \<Rightarrow> (nat option \<times> rq) option" where
  "sched_yield ctx_ok s =
     (case cur s of
        None \<Rightarrow> Some (None, s)
      | Some t \<Rightarrow> if t = idle then Some (None, s) else schedule ctx_ok (sched_request s))"


section \<open>Run-queue invariant\<close>

text \<open>
  On the queues, the set of marked levels, the count and the level of each task: the mask marks the non-empty
  levels, every queued task is on the queue of its level once, and the count is the number of queued tasks.
\<close>

definition q_inv :: "nat list list \<Rightarrow> nat set \<Rightarrow> nat \<Rightarrow> (nat \<Rightarrow> nat) \<Rightarrow> bool" where
  "q_inv qs bits cnt lev \<longleftrightarrow>
     length qs = SCHED_MLFQ_LEVELS \<and> bits = {l. l < SCHED_MLFQ_LEVELS \<and> qs ! l \<noteq> []} \<and>
     (\<forall>l < SCHED_MLFQ_LEVELS. distinct (qs ! l) \<and> (\<forall>t \<in> set (qs ! l). lev t = l \<and> t \<noteq> idle)) \<and>
     cnt = sum_list (map length qs) \<and> (\<forall>t. lev t < SCHED_MLFQ_LEVELS)"

definition rq_inv :: "rq \<Rightarrow> bool" where
  "rq_inv s \<longleftrightarrow>
     bitmap_wf (nonempty_levels s) \<and> nbits (nonempty_levels s) = SCHED_MLFQ_LEVELS \<and>
     q_inv (queues s) (bitmap_bits (nonempty_levels s)) (unat (runnable_count s)) (level_of s)"

definition rq_wf :: "rq \<Rightarrow> bool" where
  "rq_wf s \<longleftrightarrow> rq_inv s \<and> (\<forall>t. cur s = Some t \<longrightarrow> \<not> queued s t)"

lemma q_invD:
  assumes "q_inv qs bits cnt lev"
  shows "length qs = SCHED_MLFQ_LEVELS" "l \<in> bits \<longleftrightarrow> l < SCHED_MLFQ_LEVELS \<and> qs ! l \<noteq> []"
    "l < SCHED_MLFQ_LEVELS \<Longrightarrow> distinct (qs ! l)" "l < SCHED_MLFQ_LEVELS \<Longrightarrow> t \<in> set (qs ! l) \<Longrightarrow> lev t = l \<and> t \<noteq> idle"
    "cnt = sum_list (map length qs)" "lev t < SCHED_MLFQ_LEVELS"
  using assms unfolding q_inv_def by blast+

lemma set_concat_nth: "t \<in> set (concat qs) \<longleftrightarrow> (\<exists>l < length qs. t \<in> set (qs ! l))"
  by (metis (no_types, lifting) in_set_conv_nth set_concat UN_iff)

lemma q_inv_mem: "q_inv qs bits cnt lev \<Longrightarrow> t \<in> set (concat qs) \<longleftrightarrow> t \<in> set (qs ! lev t)"
  unfolding set_concat_nth using q_invD by metis

lemma length_update:
  "l < length qs \<Longrightarrow> sum_list (map length (qs[l := q])) + length (qs ! l) = sum_list (map length qs) + length q"
  by (induction qs arbitrary: l) (auto split: nat.splits)

lemma q_inv_add:
  assumes q: "q_inv qs bits cnt lev" and t: "t \<noteq> idle" "t \<notin> set (concat qs)"
  shows "q_inv (qs[lev t := qs ! lev t @ [t]]) (insert (lev t) bits) (Suc cnt) lev"
proof -
  note d = q_invD [OF q]
  have l: "lev t < length qs" "lev t < SCHED_MLFQ_LEVELS" using d(1,6) by auto
  have nt: "t \<notin> set (qs ! lev t)" using t(2) l(1) unfolding set_concat_nth by blast
  have n: "qs[lev t := qs ! lev t @ [t]] ! k = (if k = lev t then qs ! k @ [t] else qs ! k)" for k
    using l(1) by (simp add: nth_list_update)
  have c: "Suc cnt = sum_list (map length (qs[lev t := qs ! lev t @ [t]]))"
    using length_update [OF l(1), of "qs ! lev t @ [t]"] d(5) by simp
  show ?thesis
    unfolding q_inv_def n c
  proof (intro conjI allI impI ballI)
    show "lev u = k" "u \<noteq> idle" if "k < SCHED_MLFQ_LEVELS" "u \<in> set (if k = lev t then qs ! k @ [t] else qs ! k)" for k u
      using that d(4) [of k u] t(1) by (auto split: if_splits)
  qed (use d(1-3,6) l(2) nt in \<open>auto split: if_splits\<close>)
qed

lemma q_inv_del:
  assumes q: "q_inv qs bits cnt lev" and t: "l < SCHED_MLFQ_LEVELS" "t \<in> set (qs ! l)"
  shows "0 < cnt"
    and "q_inv (qs[l := remove1 t (qs ! l)]) (if remove1 t (qs ! l) = [] then bits - {l} else bits) (cnt - 1) lev"
    and "t \<notin> set (concat (qs[l := remove1 t (qs ! l)]))"
    and "map (remove1 t) qs = qs[l := remove1 t (qs ! l)]"
proof -
  note d = q_invD [OF q]
  have l: "l < length qs" using d(1) t(1) by simp
  have len: "length (remove1 t (qs ! l)) = length (qs ! l) - 1" "0 < length (qs ! l)"
    using t(2) by (auto simp: length_remove1 length_pos_if_in_set)
  note u = length_update [OF l, of "remove1 t (qs ! l)"]
  have n: "qs[l := remove1 t (qs ! l)] ! k = (if k = l then remove1 t (qs ! k) else qs ! k)" for k
    using l by (simp add: nth_list_update)
  show "0 < cnt" using u len d(5) by linarith
  have c: "cnt - 1 = sum_list (map length (qs[l := remove1 t (qs ! l)]))" using u len d(5) by linarith
  show "q_inv (qs[l := remove1 t (qs ! l)]) (if remove1 t (qs ! l) = [] then bits - {l} else bits) (cnt - 1) lev"
    unfolding q_inv_def c n
  proof (intro conjI allI impI ballI)
    show "lev u = k" "u \<noteq> idle" if "k < SCHED_MLFQ_LEVELS" "u \<in> set (if k = l then remove1 t (qs ! k) else qs ! k)" for k u
      using that d(4) [of k u] set_remove1_subset [of t "qs ! k"] by (auto split: if_splits)
    show "(if remove1 t (qs ! l) = [] then bits - {l} else bits) =
        {k. k < SCHED_MLFQ_LEVELS \<and> (if k = l then remove1 t (qs ! k) else qs ! k) \<noteq> []}"
    proof (rule set_eqI)
      fix k
      have "qs ! l \<noteq> []" using t(2) by auto
      then show "k \<in> (if remove1 t (qs ! l) = [] then bits - {l} else bits) \<longleftrightarrow>
          k \<in> {k. k < SCHED_MLFQ_LEVELS \<and> (if k = l then remove1 t (qs ! k) else qs ! k) \<noteq> []}"
        using d(2) [of k] t(1) by (cases "k = l") simp_all
    qed
    show "distinct (if k = l then remove1 t (qs ! k) else qs ! k)" if "k < SCHED_MLFQ_LEVELS" for k
      using d(3) that by simp
  qed (use d(1,6) in simp_all)
  have lt: "lev t = l" using d(4) t by blast
  have only: "t \<notin> set (qs ! k)" if "k < length qs" "k \<noteq> l" for k using d(1,4) that lt by metis
  have "t \<notin> set (remove1 t (qs ! l))" using d(3) [OF t(1)] by simp
  then show "t \<notin> set (concat (qs[l := remove1 t (qs ! l)]))"
    using only unfolding set_concat_nth n by (auto split: if_splits)
  show "map (remove1 t) qs = qs[l := remove1 t (qs ! l)]"
    using only by (intro nth_equalityI) (auto simp: n remove1_idem)
qed

lemma q_inv_lev:
  assumes "q_inv qs bits cnt lev" "t \<notin> set (concat qs)" "k < SCHED_MLFQ_LEVELS"
  shows "q_inv qs bits cnt (lev(t := k))"
proof -
  have "t \<notin> set (qs ! l)" if "l < SCHED_MLFQ_LEVELS" for l
    using assms(2) q_invD(1) [OF assms(1)] that unfolding set_concat_nth by auto
  then have "(lev(t := k)) u = l \<and> u \<noteq> idle" if "l < SCHED_MLFQ_LEVELS" "u \<in> set (qs ! l)" for l u
    using q_invD(4) [OF assms(1) that] that by (cases "u = t") auto
  then show ?thesis using assms(1,3) unfolding q_inv_def by simp
qed

lemma level_of_other [simp]: "level_of (s\<lparr>cur := c\<rparr>) = level_of s" "level_of (s\<lparr>jiffies := j\<rparr>) = level_of s"
  by (simp_all add: level_of_def fun_eq_iff)

lemmas rq_defs = queued_def level_of_def upd_se_def mark_nonempty_def refresh_empty_mark_def unlink_def

lemma rq_invD:
  assumes "rq_inv s"
  shows "bitmap_wf (nonempty_levels s)" "nbits (nonempty_levels s) = SCHED_MLFQ_LEVELS"
    "q_inv (queues s) (bitmap_bits (nonempty_levels s)) (unat (runnable_count s)) (level_of s)"
  using assms by (simp_all add: rq_inv_def)

lemma unat_inc: "unat (c :: u32) < 2 ^ 32 - 1 \<Longrightarrow> unat (c + 1) = Suc (unat c)"
  by (simp add: unat_word_ariths)

text \<open>Changing scheduling fields other than the level.\<close>

lemma level_upd: "(\<And>e. sched_level (f e) = sched_level e) \<Longrightarrow> level_of (upd_se t f s) = level_of s"
  by (auto simp: rq_defs)

lemma rq_inv_upd: "(\<And>e. sched_level (f e) = sched_level e) \<Longrightarrow> rq_inv (upd_se t f s) \<longleftrightarrow> rq_inv s"
  by (simp add: rq_inv_def level_upd) (simp add: upd_se_def)

lemma rq_inv_level:
  assumes "rq_inv s" "\<not> queued s t" "unat k < SCHED_MLFQ_LEVELS"
  shows "rq_inv (upd_se t (\<lambda>e. e\<lparr>sched_level := k\<rparr>) s)"
proof -
  have "level_of (upd_se t (\<lambda>e. e\<lparr>sched_level := k\<rparr>) s) = (level_of s)(t := unat k)"
    by (auto simp: rq_defs)
  then show ?thesis
    using assms q_inv_lev [OF rq_invD(3) [OF assms(1)], of t "unat k"] by (simp add: rq_inv_def rq_defs)
qed


lemma mlfq_empty_iff:
  assumes "rq_inv s"
  shows "mlfq_empty s \<longleftrightarrow> concat (queues s) = []"
proof -
  note q = q_invD [OF rq_invD(3) [OF assms]]
  have "mlfq_empty s \<longleftrightarrow> (\<forall>l < length (queues s). queues s ! l = [])"
    using q(1,2) by (auto simp: mlfq_empty_def bitmap_empty_iff [OF rq_invD(1) [OF assms]])
  then show ?thesis by (auto simp: all_set_conv_all_nth concat_eq_Nil_conv)
qed

lemma mlfq_enqueue_ok:
  assumes inv: "rq_inv s" and t: "t \<noteq> idle" "\<not> queued s t" and c: "unat (runnable_count s) < 2 ^ 32 - 1"
  obtains s' where "mlfq_enqueue t s = Some s'" "rq_inv s'"
    "queues s' = (queues s)[level_of s t := queues s ! level_of s t @ [t]]" "cur s' = cur s" "jiffies s' = jiffies s"
    "se s' = (se s)(t := (se s t)\<lparr>enqueue_jiffies := jiffies s\<rparr>)" "runnable_count s' = runnable_count s + 1"
proof -
  define s' where "s' = the (mlfq_enqueue t s)"
  note q = rq_invD [OF inv] and d = q_invD [OF rq_invD(3) [OF inv]]
  have e: "mlfq_enqueue t s = Some s'" using t d(6) [of t] by (simp add: s'_def mlfq_enqueue_def Let_def not_le)
  have f: "queues s' = (queues s)[level_of s t := queues s ! level_of s t @ [t]]" "cur s' = cur s" "jiffies s' = jiffies s"
    "se s' = (se s)(t := (se s t)\<lparr>enqueue_jiffies := jiffies s\<rparr>)" "runnable_count s' = runnable_count s + 1"
    "nonempty_levels s' = bitmap_set (nonempty_levels s) (level_of s t)"
    using t d(6) [of t] by (simp_all add: s'_def mlfq_enqueue_def Let_def not_le) (simp_all add: rq_defs)
  have "level_of s' = level_of s" by (auto simp: level_of_def f)
  then have "rq_inv s'"
    using q_inv_add [OF q(3) t(1)] t(2) q(1,2) d(6) [of t] unat_inc [OF c]
    by (simp add: rq_inv_def f bitmap_set_bits queued_def)
  then show thesis using that e f by blast
qed

lemma mlfq_dequeue_ok:
  assumes inv: "rq_inv s" and t: "queued s t"
  obtains s' where "mlfq_dequeue (Some t) s = Some s'" "rq_inv s'" "\<not> queued s' t"
    "queues s' = (queues s)[level_of s t := remove1 t (queues s ! level_of s t)]" "cur s' = cur s" "jiffies s' = jiffies s"
    "se s' = se s" "unat (runnable_count s') = unat (runnable_count s) - 1" "0 < unat (runnable_count s)"
proof -
  note q = rq_invD [OF inv] and d = q_invD [OF rq_invD(3) [OF inv]]
  define l where "l = level_of s t"
  have l: "l < SCHED_MLFQ_LEVELS" "t \<in> set (queues s ! l)"
    using d(6) t q_inv_mem [OF q(3)] by (auto simp: l_def queued_def simp del: set_concat)
  note del = q_inv_del [OF q(3) l]
  define s1 where "s1 = refresh_empty_mark l (unlink t s)"
  have s1: "queues s1 = (queues s)[l := remove1 t (queues s ! l)]" "runnable_count s1 = runnable_count s"
    "nonempty_levels s1 = (if remove1 t (queues s ! l) = [] then bitmap_clear (nonempty_levels s) l else nonempty_levels s)"
    "cur s1 = cur s" "jiffies s1 = jiffies s" "se s1 = se s"
    using del(4) d(1) l(1) by (auto simp: s1_def refresh_empty_mark_def unlink_def)
  have nz: "runnable_count s \<noteq> 0" using del(1) by (auto simp: word_unat_eq_iff)
  define s' where "s' = s1\<lparr>runnable_count := runnable_count s1 - 1\<rparr>"
  have e: "mlfq_dequeue (Some t) s = Some s'"
    using t l nz s1(2) by (simp add: mlfq_dequeue_def Let_def l_def [symmetric] s1_def [symmetric] s'_def)
  have c: "unat (runnable_count s') = unat (runnable_count s) - 1"
    using nz by (simp add: s'_def s1 unat_minus_one)
  have "level_of s' = level_of s" by (auto simp: level_of_def s'_def s1)
  then have "rq_inv s'"
    using del(2) q(1,2) c
    by (cases "remove1 t (queues s ! l) = []") (simp_all add: rq_inv_def s'_def s1 bitmap_clear_bits)
  moreover have "\<not> queued s' t" using del(3) by (simp add: queued_def s'_def s1 del: set_concat)
  ultimately show thesis using that e c del(1) by (simp add: s'_def s1 l_def)
qed

text \<open>The run queue as one list: the queues in the order of their levels. Its head is the next task.\<close>

lemma concat_first:
  assumes "l < length qs" "\<forall>k < l. qs ! k = []" "qs ! l = t # ts"
  shows "concat qs = t # ts @ concat (drop (Suc l) qs)" "concat (qs[l := ts]) = ts @ concat (drop (Suc l) qs)"
proof -
  have "concat (take l qs) = []" using assms(1,2) by (auto simp: concat_eq_Nil_conv in_set_conv_nth)
  then show "concat qs = t # ts @ concat (drop (Suc l) qs)" "concat (qs[l := ts]) = ts @ concat (drop (Suc l) qs)"
    using id_take_nth_drop [OF assms(1)] assms(1,3)
    by (metis append_Cons append_Nil concat.simps(2) concat_append, simp add: upd_conv_take_nth_drop)
qed

lemma mlfq_first_level:
  assumes inv: "rq_inv s" and ne: "concat (queues s) \<noteq> []"
  defines "l \<equiv> bitmap_find_first_set (nonempty_levels s)"
  shows "l < SCHED_MLFQ_LEVELS" "queues s ! l \<noteq> []" "\<forall>k < l. queues s ! k = []"
proof -
  note q = rq_invD [OF inv] and d = q_invD [OF rq_invD(3) [OF inv]]
  have "bitmap_bits (nonempty_levels s) \<noteq> {}"
    using mlfq_empty_iff [OF inv] ne bitmap_empty_iff [OF q(1)] by (simp add: mlfq_empty_def)
  then obtain b where b: "b \<in> bitmap_bits (nonempty_levels s)" by blast
  then have m: "l \<in> bitmap_bits (nonempty_levels s)" using bm.first_set_some(1) [OF q(1)] by (simp add: l_def)
  then show "l < SCHED_MLFQ_LEVELS" "queues s ! l \<noteq> []" using d(2) by auto
  then show "\<forall>k < l. queues s ! k = []"
    using bm.first_set_some(2) [OF q(1)] d(2) unfolding l_def by (metis linorder_not_less order_less_trans)
qed

lemma mlfq_peek_ok:
  assumes inv: "rq_inv s"
  shows "mlfq_peek_next s = Some (if concat (queues s) = [] then None else Some (hd (concat (queues s))))"
proof (cases "concat (queues s) = []")
  case True
  have "bitmap_find_first_set (nonempty_levels s) \<ge> SCHED_MLFQ_LEVELS"
    using bm.first_set_none [OF rq_invD(1) [OF inv]] mlfq_empty_iff [OF inv] True rq_invD(2) [OF inv]
      bitmap_empty_iff [OF rq_invD(1) [OF inv]] by (simp add: mlfq_empty_def)
  then show ?thesis using True by (simp add: mlfq_peek_next_def Let_def)
next
  case False
  note l = mlfq_first_level [OF inv False]
  obtain t ts where t: "queues s ! bitmap_find_first_set (nonempty_levels s) = t # ts" using l(2) by (meson list.exhaust)
  have "bitmap_find_first_set (nonempty_levels s) < length (queues s)" using l(1) q_invD(1) [OF rq_invD(3) [OF inv]] by simp
  then show ?thesis using concat_first(1) [OF _ l(3) t] l(1) t False by (simp add: mlfq_peek_next_def Let_def)
qed

lemma mlfq_pick_ok:
  assumes inv: "rq_inv s" and ne: "concat (queues s) = t # rest"
  obtains s' where "mlfq_pick_next s = Some (t, s')" "rq_inv s'" "concat (queues s') = rest" "\<not> queued s' t" "cur s' = cur s" "jiffies s' = jiffies s"
    "se s' = se s" "unat (runnable_count s') = unat (runnable_count s) - 1" "0 < unat (runnable_count s)"
proof -
  define l where "l = bitmap_find_first_set (nonempty_levels s)"
  have ne': "concat (queues s) \<noteq> []" using ne by simp
  note l = mlfq_first_level [OF inv ne', folded l_def] and d = q_invD [OF rq_invD(3) [OF inv]]
  obtain u ts where u: "queues s ! l = u # ts" using l(2) by (meson list.exhaust)
  have ll: "l < length (queues s)" using l(1) d(1) by simp
  note cf = concat_first [OF ll l(3) u]
  have ut: "u = t" and rest: "rest = ts @ concat (drop (Suc l) (queues s))" using cf(1) ne by auto
  have lt: "level_of s t = l" using d(4) [OF l(1), of t] u ut by simp
  have qd: "queued s t" using ne by (simp add: queued_def del: set_concat)
  obtain s' where s': "mlfq_dequeue (Some t) s = Some s'" "rq_inv s'" "\<not> queued s' t"
    "queues s' = (queues s)[level_of s t := remove1 t (queues s ! level_of s t)]" "cur s' = cur s" "jiffies s' = jiffies s"
    "se s' = se s" "unat (runnable_count s') = unat (runnable_count s) - 1" "0 < unat (runnable_count s)"
    using mlfq_dequeue_ok [OF inv qd] .
  have "concat (queues s') = rest" using s'(4) cf(2) rest by (simp add: lt u ut)
  moreover have "mlfq_pick_next s = Some (t, s')" using mlfq_peek_ok [OF inv] ne s'(1) by (simp add: mlfq_pick_next_def)
  ultimately show thesis using that s' by blast
qed


subsection \<open>Budgets and boosts\<close>

lemma slice_some: "l < SCHED_MLFQ_LEVELS \<Longrightarrow> mlfq_level_slice l = Some (of_nat (2 ^ l))"
  by (simp add: mlfq_level_slice_def)

lemma boost_task_ok:
  "boost_task t s = Some (upd_se t (\<lambda>e. e\<lparr>sched_level := 0, time_slice := 1, sched_ticks := 0\<rparr>) s)"
  by (simp add: boost_task_def reset_budget_def rq_defs slice_some SCHED_MLFQ_LEVELS_def)

text \<open>The scheduling data of a boosted task.\<close>

definition boosted :: "u64 \<Rightarrow> sched_entity \<Rightarrow> sched_entity" where
  "boosted now e = e\<lparr>sched_level := 0, time_slice := 1, sched_ticks := 0, enqueue_jiffies := now\<rparr>"

lemma boost_one_0:
  "boost_one 0 t s = Some (upd_se t (boosted (jiffies s)) s)"
  by (simp add: boost_one_def boost_task_ok boosted_def upd_se_def)

lemma boost_one_ok:
  assumes inv: "rq_inv s" and l: "0 < l" "l < SCHED_MLFQ_LEVELS" and q: "queues s ! l = t # rest"
  obtains s' where "boost_one l t s = Some s'" "rq_inv s'"
    "queues s' = (queues s)[l := rest, 0 := queues s ! 0 @ [t]]" "cur s' = cur s" "jiffies s' = jiffies s"
    "se s' = (se s)(t := boosted (jiffies s) (se s t))" "runnable_count s' = runnable_count s"
proof -
  note i = rq_invD [OF inv] and d = q_invD [OF rq_invD(3) [OF inv]]
  have mem: "t \<in> set (queues s ! l)" using q by simp
  note del = q_inv_del [OF i(3) l(2) mem]
  have ti: "t \<noteq> idle" using d(4) [OF l(2) mem] by simp
  have rm: "remove1 t (queues s ! l) = rest" using q by simp
  define b where "b = (if rest = [] then bitmap_clear (nonempty_levels s) l else nonempty_levels s)"
  have bits: "bitmap_wf b" "nbits b = SCHED_MLFQ_LEVELS"
    "bitmap_bits b = (if rest = [] then bitmap_bits (nonempty_levels s) - {l} else bitmap_bits (nonempty_levels s))"
    using i(1,2) by (auto simp: b_def bitmap_clear_bits)
  define qs where "qs = (queues s)[l := rest]"
  have q1: "q_inv qs (bitmap_bits b) (unat (runnable_count s) - 1) (level_of s)" "t \<notin> set (concat qs)"
    "map (remove1 t) (queues s) = qs"
    using del(2,3,4) rm by (simp_all add: bits qs_def del: set_concat)
  have q2: "q_inv qs (bitmap_bits b) (unat (runnable_count s) - 1) ((level_of s)(t := 0))"
    using q_inv_lev [OF q1(1,2)] by (simp add: SCHED_MLFQ_LEVELS_def)
  have q3: "q_inv (qs[0 := qs ! 0 @ [t]]) (insert 0 (bitmap_bits b)) (unat (runnable_count s)) ((level_of s)(t := 0))"
    using q_inv_add [OF q2 ti q1(2)] del(1) by simp
  define s' where "s' = the (boost_one l t s)"
  have qsl: "qs ! l = rest" using d(1) l(2) by (simp add: qs_def)
  have e: "boost_one l t s = Some s'" "queues s' = qs[0 := qs ! 0 @ [t]]" "cur s' = cur s" "jiffies s' = jiffies s"
    "se s' = (se s)(t := boosted (jiffies s) (se s t))" "runnable_count s' = runnable_count s"
    "nonempty_levels s' = bitmap_set b 0"
    using l(1) q1(3) qsl
    by (auto simp: s'_def boost_one_def boost_task_ok rq_defs boosted_def b_def)
  have "level_of s' = (level_of s)(t := 0)" by (auto simp: level_of_def e boosted_def)
  then have "rq_inv s'"
    using q3 bits(1,2) by (simp add: rq_inv_def e bitmap_set_bits SCHED_MLFQ_LEVELS_def)
  then show thesis using that e l(1) by (simp add: qs_def)
qed

lemma boost_list_0:
  "boost_list 0 ts s = Some (s\<lparr>se := (\<lambda>t. if t \<in> set ts then boosted (jiffies s) (se s t) else se s t)\<rparr>)"
proof (induction ts arbitrary: s)
  case (Cons t ts)
  have bb: "boosted n (boosted n e) = boosted n e" for n e by (simp add: boosted_def)
  show ?case
    by (simp add: boost_one_0 Cons.IH upd_se_def)
      (rule arg_cong [where f = "\<lambda>f. s\<lparr>se := f\<rparr>"], auto simp: bb fun_eq_iff)
qed simp

lemma boost_list_ok:
  assumes "rq_inv s" "0 < l" "l < SCHED_MLFQ_LEVELS" "queues s ! l = ts"
  shows "\<exists>s'. boost_list l ts s = Some s' \<and> rq_inv s' \<and> queues s' = (queues s)[l := [], 0 := queues s ! 0 @ ts] \<and>
    cur s' = cur s \<and> jiffies s' = jiffies s \<and> runnable_count s' = runnable_count s \<and>
    se s' = (\<lambda>t. if t \<in> set ts then boosted (jiffies s) (se s t) else se s t)"
  using assms
proof (induction ts arbitrary: s)
  case Nil
  have "l < length (queues s)" "0 < length (queues s)"
    using q_invD(1) [OF rq_invD(3) [OF Nil(1)]] Nil(3) by auto
  then have "(queues s)[l := [], 0 := queues s ! 0 @ []] = queues s" using Nil(2,4) by (metis append_Nil2 list_update_id)
  then show ?case using Nil by simp
next
  case (Cons t ts)
  have len: "length (queues s) = SCHED_MLFQ_LEVELS" using q_invD(1) [OF rq_invD(3) [OF Cons(2)]] .
  obtain s1 where s1: "boost_one l t s = Some s1" "rq_inv s1"
    "queues s1 = (queues s)[l := ts, 0 := queues s ! 0 @ [t]]" "cur s1 = cur s" "jiffies s1 = jiffies s"
    "se s1 = (se s)(t := boosted (jiffies s) (se s t))" "runnable_count s1 = runnable_count s"
    using boost_one_ok [OF Cons(2-5)] .
  have q1: "queues s1 ! l = ts" "queues s1 ! 0 = queues s ! 0 @ [t]" using s1(3) Cons(3,4) len by (auto simp: nth_list_update)
  have bb: "boosted n (boosted n e) = boosted n e" for n e by (simp add: boosted_def)
  have upd: "(queues s)[l := ts, 0 := queues s ! 0 @ [t], l := [], 0 := queues s ! 0 @ t # ts] =
      (queues s)[l := [], 0 := queues s ! 0 @ t # ts]"
    using Cons(3) by (simp add: list_update_swap)
  have "(\<lambda>u. if u \<in> set ts then boosted (jiffies s1) (se s1 u) else se s1 u) =
      (\<lambda>u. if u \<in> set (t # ts) then boosted (jiffies s) (se s u) else se s u)"
    using s1(5,6) by (auto simp: bb fun_eq_iff)
  then show ?case
    using Cons.IH [OF s1(2) Cons(3,4) q1(1)] s1(1,3,4,5,7) q1 upd by auto
qed


lemma queues_four:
  assumes "rq_inv s"
  obtains q0 q1 q2 q3 where "queues s = [q0, q1, q2, q3]"
proof -
  have "length (queues s) = 4" using q_invD(1) [OF rq_invD(3) [OF assms]] by (simp add: SCHED_MLFQ_LEVELS_def)
  then show thesis using that by (auto simp: numeral_eq_Suc length_Suc_conv)
qed

lemma boost_levels_ok:
  assumes inv: "rq_inv s"
  shows "\<exists>s'. boost_levels [0..<SCHED_MLFQ_LEVELS] s = Some s' \<and> rq_inv s' \<and>
    queues s' = [concat (queues s), [], [], []] \<and> cur s' = cur s \<and> jiffies s' = jiffies s \<and>
    runnable_count s' = runnable_count s \<and>
    se s' = (\<lambda>t. if queued s t then boosted (jiffies s) (se s t) else se s t)"
proof -
  have bb: "boosted n (boosted n e) = boosted n e" for n e by (simp add: boosted_def)
  have L: "1 < SCHED_MLFQ_LEVELS" "2 < SCHED_MLFQ_LEVELS" "3 < SCHED_MLFQ_LEVELS"
    "[0..<SCHED_MLFQ_LEVELS] = [0, 1, 2, 3]" by (simp_all add: SCHED_MLFQ_LEVELS_def upt_rec)
  obtain q0 q1 q2 q3 where q: "queues s = [q0, q1, q2, q3]" using queues_four [OF inv] .
  define s0 where "s0 = s\<lparr>se := (\<lambda>t. if t \<in> set q0 then boosted (jiffies s) (se s t) else se s t)\<rparr>"
  have b0: "boost_list 0 q0 s = Some s0" by (simp add: boost_list_0 s0_def)
  have "level_of s0 = level_of s"
    using q_invD(4) [OF rq_invD(3) [OF inv], of 0] q L(1) by (auto simp: level_of_def s0_def boosted_def fun_eq_iff)
  then have i0: "rq_inv s0" "queues s0 = [q0, q1, q2, q3]" using inv q by (auto simp: rq_inv_def s0_def)
  obtain s1 where s1: "boost_list 1 q1 s0 = Some s1" "rq_inv s1" "queues s1 = [q0 @ q1, [], q2, q3]" "cur s1 = cur s0"
    "jiffies s1 = jiffies s0" "runnable_count s1 = runnable_count s0"
    "se s1 = (\<lambda>t. if t \<in> set q1 then boosted (jiffies s0) (se s0 t) else se s0 t)"
    using boost_list_ok [OF i0(1) _ L(1), of q1] i0(2) by auto
  obtain s2 where s2: "boost_list 2 q2 s1 = Some s2" "rq_inv s2" "queues s2 = [(q0 @ q1) @ q2, [], [], q3]" "cur s2 = cur s1"
    "jiffies s2 = jiffies s1" "runnable_count s2 = runnable_count s1"
    "se s2 = (\<lambda>t. if t \<in> set q2 then boosted (jiffies s1) (se s1 t) else se s1 t)"
    using boost_list_ok [OF s1(2) _ L(2), of q2] s1(3) by (auto simp: numeral_eq_Suc)
  obtain s3 where s3: "boost_list 3 q3 s2 = Some s3" "rq_inv s3" "queues s3 = [((q0 @ q1) @ q2) @ q3, [], [], []]" "cur s3 = cur s2"
    "jiffies s3 = jiffies s2" "runnable_count s3 = runnable_count s2"
    "se s3 = (\<lambda>t. if t \<in> set q3 then boosted (jiffies s2) (se s2 t) else se s2 t)"
    using boost_list_ok [OF s2(2) _ L(3), of q3] s2(3) by (auto simp: numeral_eq_Suc)
  have "boost_levels [0, 1, 2, 3] s = Some s3"
    using b0 s1(1,3) s2(1,3) s3(1) i0(2) q by (simp add: numeral_eq_Suc)
  moreover have "se s3 = (\<lambda>t. if queued s t then boosted (jiffies s) (se s t) else se s t)"
    unfolding s3(7) s2(7) s1(7) s1(5) s2(5) s0_def using q by (auto simp: queued_def fun_eq_iff bb)
  ultimately show ?thesis using s3 s2(4-6) s1(4-6) L(4) q by (auto simp: s0_def)
qed

lemma mlfq_boost_ok:
  assumes wf: "rq_wf s"
  shows "\<exists>s'. mlfq_boost s = Some s' \<and> rq_wf s' \<and> queues s' = [concat (queues s), [], [], []] \<and>
    cur s' = cur s \<and> jiffies s' = jiffies s \<and> runnable_count s' = runnable_count s \<and>
    (\<forall>t. if queued s t then se s' t = boosted (jiffies s) (se s t)
      else if cur s = Some t \<and> t \<noteq> idle \<and> running (se s t)
      then se s' t = (se s t)\<lparr>sched_level := 0, time_slice := 1, sched_ticks := 0\<rparr> else se s' t = se s t)"
proof -
  have inv: "rq_inv s" and nq: "\<And>t. cur s = Some t \<Longrightarrow> \<not> queued s t" using wf by (auto simp: rq_wf_def)
  obtain s1 where s1: "boost_levels [0..<SCHED_MLFQ_LEVELS] s = Some s1" "rq_inv s1"
    "queues s1 = [concat (queues s), [], [], []]" "cur s1 = cur s" "jiffies s1 = jiffies s"
    "runnable_count s1 = runnable_count s"
    "se s1 = (\<lambda>t. if queued s t then boosted (jiffies s) (se s t) else se s t)"
    using boost_levels_ok [OF inv] by blast
  have qd: "queued s1 t \<longleftrightarrow> queued s t" for t using s1(3) by (simp add: queued_def)
  define s' where "s' = (case cur s of None \<Rightarrow> s1 | Some t \<Rightarrow>
    if t \<noteq> idle \<and> running (se s t) then upd_se t (\<lambda>e. e\<lparr>sched_level := 0, time_slice := 1, sched_ticks := 0\<rparr>) s1 else s1)"
  have e: "mlfq_boost s = Some s'"
    using nq by (auto simp: mlfq_boost_def s1 s'_def boost_task_ok boosted_def split: option.splits)
  have "rq_inv s'"
  proof (cases "\<exists>t. cur s = Some t \<and> t \<noteq> idle \<and> running (se s t)")
    case True
    then obtain t where t: "cur s = Some t" "t \<noteq> idle" "running (se s t)" by blast
    have "rq_inv (upd_se t (\<lambda>e. e\<lparr>time_slice := 1, sched_ticks := 0\<rparr>) (upd_se t (\<lambda>e. e\<lparr>sched_level := 0\<rparr>) s1))"
      using rq_inv_level [OF s1(2), of t 0] nq [OF t(1)] qd by (subst rq_inv_upd) (auto simp: SCHED_MLFQ_LEVELS_def)
    then show ?thesis using t by (simp add: s'_def upd_se_def)
  qed (use s1(2) in \<open>auto simp: s'_def split: option.splits\<close>)
  moreover have "queues s' = queues s1" "cur s' = cur s1" "jiffies s' = jiffies s1" "runnable_count s' = runnable_count s1"
    by (auto simp: s'_def upd_se_def split: option.splits)
  moreover have "queued s' t \<longleftrightarrow> queued s t" for t using qd [of t] calculation(2) by (simp add: queued_def)
  moreover have "if queued s t then se s' t = boosted (jiffies s) (se s t)
      else if cur s = Some t \<and> t \<noteq> idle \<and> running (se s t)
      then se s' t = (se s t)\<lparr>sched_level := 0, time_slice := 1, sched_ticks := 0\<rparr> else se s' t = se s t" for t
    using nq [of t] nq by (auto simp: s'_def s1(7) upd_se_def split: option.splits)
  ultimately show ?thesis using e s1 nq by (auto simp: rq_wf_def)
qed


subsection \<open>Ticks\<close>

text \<open>What one tick does to the running task: count down, or move down a level with a fresh slice.\<close>

definition ticked :: "sched_entity \<Rightarrow> sched_entity" where
  "ticked e =
     (if time_slice e \<le> 1
      then let l = min (SCHED_MLFQ_LEVELS - 1) (unat (sched_level e) + 1) in
        e\<lparr>sched_level := of_nat l, time_slice := of_nat (2 ^ l), sched_ticks := 0\<rparr>
      else e\<lparr>time_slice := time_slice e - 1, sched_ticks := sched_ticks e + 1\<rparr>)"

definition charge :: "rq \<Rightarrow> bool \<times> rq" where
  "charge s = (case cur s of None \<Rightarrow> (False, s) | Some t \<Rightarrow>
     if t \<noteq> idle \<and> running (se s t) then (time_slice (se s t) \<le> 1, upd_se t ticked s) else (False, s))"

lemma u8_le_1: "(w :: u8) \<le> 1 \<longleftrightarrow> w = 0 \<or> w = 1"
  by (auto simp: word_le_nat_alt word_unat_eq_iff)

lemma charge_ok:
  assumes lev: "\<And>t. level_of s t < SCHED_MLFQ_LEVELS"
  shows "mlfq_tick s = (let (need, s') = charge s in
    if jiffies s' \<noteq> 0 \<and> jiffies s' mod HZ = 0 then map_option (\<lambda>s6. (need, s6)) (mlfq_boost s') else Some (need, s'))"
proof (cases "\<exists>t. cur s = Some t \<and> t \<noteq> idle \<and> running (se s t)")
  case False
  then show ?thesis by (auto simp: mlfq_tick_def charge_def Let_def split: option.splits)
next
  case True
  then obtain t where t: "cur s = Some t" "t \<noteq> idle" "running (se s t)" by blast
  define e where "e = se s t"
  have l: "unat (sched_level e) < 4" using lev [of t] by (simp add: level_of_def e_def SCHED_MLFQ_LEVELS_def)
  have z: "(if time_slice e > 0 then time_slice e - 1 else time_slice e) = 0 \<longleftrightarrow> time_slice e \<le> 1"
    by (auto simp: u8_le_1 word_gt_0)
  show ?thesis
  proof (cases "time_slice e \<le> 1")
    case False
    then have "time_slice e > 0" by (auto simp: u8_le_1 word_gt_0)
    then show ?thesis
      using t False z by (simp add: mlfq_tick_def charge_def Let_def rq_defs ticked_def e_def [symmetric] u8_le_1)
  next
    case True
    define e' where "e' = e\<lparr>time_slice := 0, sched_ticks := sched_ticks e + 1\<rparr>"
    have ts: "(if time_slice e > 0 then time_slice e - 1 else time_slice e) = 0" using z True by blast
    have inc: "unat (sched_level e + 1) = unat (sched_level e) + 1" if "unat (sched_level e) < 3"
      using that by (simp add: unat_word_ariths)
    have eq: "of_nat (unat (sched_level e) + 1) = sched_level e + 1" by simp
    have "ticked e = (if unat (sched_level e) + 1 < 4
        then e\<lparr>sched_level := sched_level e + 1, time_slice := of_nat (2 ^ (unat (sched_level e) + 1)), sched_ticks := 0\<rparr>
        else e\<lparr>sched_level := sched_level e, time_slice := of_nat (2 ^ unat (sched_level e)), sched_ticks := 0\<rparr>)"
    proof -
      have m: "min (SCHED_MLFQ_LEVELS - 1) (unat (sched_level e) + 1) =
          (if unat (sched_level e) + 1 < 4 then unat (sched_level e) + 1 else unat (sched_level e))"
        using l by (auto simp: SCHED_MLFQ_LEVELS_def)
      show ?thesis unfolding ticked_def Let_def m using True eq by simp
    qed
    then show ?thesis
      using t True ts inc l
      by (auto simp: mlfq_tick_def charge_def Let_def rq_defs e_def [symmetric] reset_budget_def slice_some SCHED_MLFQ_LEVELS_def)
  qed
qed


lemma rq_inv_unqueued:
  assumes "rq_inv s" "\<not> queued s t" "unat (sched_level (f (se s t))) < SCHED_MLFQ_LEVELS"
  shows "rq_inv (upd_se t f s)"
proof -
  have "level_of (upd_se t f s) = (level_of s)(t := unat (sched_level (f (se s t))))" by (auto simp: rq_defs)
  then show ?thesis
    using assms q_inv_lev [OF rq_invD(3) [OF assms(1)], of t] by (simp add: rq_inv_def rq_defs)
qed

lemma queued_upd [simp]: "queued (upd_se t f s) u \<longleftrightarrow> queued s u" "cur (upd_se t f s) = cur s"
  by (simp_all add: queued_def upd_se_def)

lemma rq_wf_unqueued:
  "rq_wf s \<Longrightarrow> cur s = Some t \<Longrightarrow> unat (sched_level (f (se s t))) < SCHED_MLFQ_LEVELS \<Longrightarrow> rq_wf (upd_se t f s)"
  using rq_inv_unqueued by (auto simp: rq_wf_def)

lemma level_bound: "rq_inv s \<Longrightarrow> unat (sched_level (se s t)) < SCHED_MLFQ_LEVELS"
  using q_invD(6) [OF rq_invD(3)] by (simp add: level_of_def)

lemma ticked_level: "unat (sched_level e) < SCHED_MLFQ_LEVELS \<Longrightarrow> unat (sched_level (ticked e)) < SCHED_MLFQ_LEVELS"
proof -
  assume *: "unat (sched_level e) < SCHED_MLFQ_LEVELS"
  define l where "l = min (SCHED_MLFQ_LEVELS - 1) (unat (sched_level e) + 1)"
  have "l < 4" by (simp add: l_def SCHED_MLFQ_LEVELS_def)
  then have "unat (of_nat l :: u8) < 4" by (simp add: unat_of_nat)
  then show ?thesis
    unfolding ticked_def Let_def l_def [symmetric] using * by (simp add: SCHED_MLFQ_LEVELS_def)
qed

lemma charge_wf: "rq_wf s \<Longrightarrow> rq_wf (snd (charge s))"
  using rq_wf_unqueued [of s _ ticked] ticked_level level_bound by (auto simp: charge_def rq_wf_def split: option.splits)

lemma mlfq_tick_ok:
  assumes wf: "rq_wf s"
  shows "\<exists>need s'. mlfq_tick s = Some (need, s') \<and> rq_wf s' \<and> cur s' = cur s \<and> runnable_count s' = runnable_count s"
proof -
  have lev: "level_of s t < SCHED_MLFQ_LEVELS" for t using level_bound wf by (simp add: level_of_def rq_wf_def)
  have c: "cur (snd (charge s)) = cur s" "runnable_count (snd (charge s)) = runnable_count s"
    by (auto simp: charge_def upd_se_def split: option.splits)
  obtain need s1 where s1: "charge s = (need, s1)" by fastforce
  show ?thesis
    using mlfq_boost_ok [of s1] charge_wf [OF wf] c s1
    by (cases "jiffies s1 \<noteq> 0 \<and> jiffies s1 mod HZ = 0") (auto simp: charge_ok [OF lev])
qed

lemma mlfq_wakeup_ok:
  assumes inv: "rq_inv s" and t: "t \<noteq> idle" and c: "unat (runnable_count s) < 2 ^ 32 - 1"
  obtains s' where "mlfq_wakeup t s = Some s'" "rq_inv s'" "queued s' t" "cur s' = cur s" "running (se s' t) = running (se s t)"
    "\<And>u. u \<noteq> t \<Longrightarrow> queued s' u \<longleftrightarrow> queued s u" "level_of s' = level_of s"
    "queues s' = (if queued s t then queues s else (queues s)[level_of s t := queues s ! level_of s t @ [t]])"
    "time_slice (se s' t) = of_nat (2 ^ level_of s t)"
proof -
  have l: "level_of s t < SCHED_MLFQ_LEVELS" using level_bound [OF inv] by (simp add: level_of_def)
  define s1 where "s1 = upd_se t (\<lambda>e. e\<lparr>time_slice := of_nat (2 ^ level_of s t), sched_ticks := 0\<rparr>) s"
  have r: "reset_budget t s = Some s1" using l by (simp add: reset_budget_def slice_some s1_def)
  have i1: "rq_inv s1" unfolding s1_def by (subst rq_inv_upd) (auto simp: inv)
  have f1: "level_of s1 = level_of s" "queued s1 u \<longleftrightarrow> queued s u" "queues s1 = queues s" "runnable_count s1 = runnable_count s" "cur s1 = cur s" for u
    by (auto simp: s1_def level_upd) (auto simp: upd_se_def)
  show thesis
  proof (cases "queued s t")
    case True
    show thesis
      by (rule that [of s1]) (use True r i1 l t f1 in \<open>auto simp: mlfq_wakeup_def s1_def upd_se_def\<close>)
  next
    case False
    obtain s' where s': "mlfq_enqueue t s1 = Some s'" "rq_inv s'"
      "queues s' = (queues s1)[level_of s1 t := queues s1 ! level_of s1 t @ [t]]" "cur s' = cur s1" "jiffies s' = jiffies s1"
      "se s' = (se s1)(t := (se s1 t)\<lparr>enqueue_jiffies := jiffies s1\<rparr>)" "runnable_count s' = runnable_count s1 + 1"
      using mlfq_enqueue_ok [OF i1 t] False f1 c by auto
    have ll: "level_of s t < length (queues s)" using l q_invD(1) [OF rq_invD(3) [OF inv]] by simp
    have q: "queued s' u \<longleftrightarrow> u = t \<or> queued s u" for u
      unfolding queued_def set_concat_nth s'(3) f1 using ll by (auto simp: nth_list_update split: if_splits)
    have "level_of s' = level_of s" using f1(1) by (auto simp: level_of_def s'(6) fun_eq_iff)
    then show thesis
      by (intro that [of s']) (use False r s' l t f1 q in \<open>auto simp: mlfq_wakeup_def s1_def upd_se_def\<close>)
  qed
qed

lemma schedule_none:
  assumes "rq_wf s" "cur s = Some prev" "concat (queues s) = []"
  shows "schedule True s = (let s1 = upd_se prev (\<lambda>e. e\<lparr>need_resched := False\<rparr>) s in
    if prev = idle \<or> running (se s prev) then Some (None, s1) else Some (Some idle, s1\<lparr>cur := Some idle\<rparr>))"
proof -
  define s1 where "s1 = upd_se prev (\<lambda>e. e\<lparr>need_resched := False\<rparr>) s"
  have "rq_inv s1" unfolding s1_def using assms(1) by (subst rq_inv_upd) (auto simp: rq_wf_def)
  then have "mlfq_empty s1" using mlfq_empty_iff assms(3) by (simp add: s1_def upd_se_def)
  then show ?thesis using assms(2) by (simp add: schedule_def s1_def [symmetric] Let_def) (simp add: s1_def upd_se_def)
qed


text \<open>A switch to the head of the run queue, the previous task going to the back of its level if it can still run.\<close>

lemma schedule_some:
  assumes wf: "rq_wf s" and p: "cur s = Some prev" and q: "concat (queues s) = next # rest"
  obtains s2 s' where "schedule True s = Some (Some next, s')" "rq_wf s'" "cur s' = Some next"
    "rq_inv s2" "concat (queues s2) = rest" "level_of s2 = level_of s"
    "queues s' = (if prev \<noteq> idle \<and> running (se s prev)
      then (queues s2)[level_of s prev := queues s2 ! level_of s prev @ [prev]] else queues s2)"
    "next \<noteq> prev" "\<And>u. running (se s' u) = running (se s u)" "\<not> queued s2 prev"
proof -
  have inv: "rq_inv s" and nq: "\<not> queued s prev" using wf p by (auto simp: rq_wf_def)
  define s1 where "s1 = upd_se prev (\<lambda>e. e\<lparr>need_resched := False\<rparr>) s"
  have i1: "rq_inv s1" unfolding s1_def by (subst rq_inv_upd) (auto simp: inv)
  have f1: "queues s1 = queues s" "cur s1 = cur s" "level_of s1 = level_of s" "running (se s1 u) = running (se s u)" for u
    by (auto simp: s1_def level_upd) (auto simp: upd_se_def split: if_splits)
  have ne: "\<not> mlfq_empty s1" using mlfq_empty_iff [OF i1] q f1(1) by simp
  obtain s2 where s2: "mlfq_pick_next s1 = Some (next, s2)" "rq_inv s2" "concat (queues s2) = rest" "\<not> queued s2 next"
    "cur s2 = cur s1" "jiffies s2 = jiffies s1" "se s2 = se s1" "unat (runnable_count s2) = unat (runnable_count s1) - 1"
    "0 < unat (runnable_count s1)"
    using mlfq_pick_ok [OF i1, of "next" rest] q f1(1) by auto
  have np: "next \<noteq> prev" using nq q by (auto simp: queued_def simp del: set_concat)
  have nq2: "\<not> queued s2 prev" using nq q s2(3) by (auto simp: queued_def simp del: set_concat)
  have c2: "unat (runnable_count s2) < 2 ^ 32 - 1"
  proof -
    have "unat (runnable_count s1) < 2 ^ LENGTH(32)" by (rule unsigned_less)
    then show ?thesis using s2(8,9) by simp
  qed
  have lev2: "level_of s2 = level_of s" using f1(3) by (auto simp: level_of_def s2(7) fun_eq_iff)
  show thesis
  proof (cases "prev \<noteq> idle \<and> running (se s prev)")
    case True
    obtain s3 where s3: "mlfq_enqueue prev s2 = Some s3" "rq_inv s3"
      "queues s3 = (queues s2)[level_of s2 prev := queues s2 ! level_of s2 prev @ [prev]]" "cur s3 = cur s2" "jiffies s3 = jiffies s2"
      "se s3 = (se s2)(prev := (se s2 prev)\<lparr>enqueue_jiffies := jiffies s2\<rparr>)" "runnable_count s3 = runnable_count s2 + 1"
      using mlfq_enqueue_ok [OF s2(2) _ nq2 c2] True by blast
    have r: "running (se s3 u) = running (se s u)" for u using f1(4) by (simp add: s3(6) s2(7))
    have "set (concat (queues s3)) \<subseteq> insert prev (set (concat (queues s2)))"
    proof -
      have "level_of s2 prev < length (queues s2)" using q_invD(1,6) [OF rq_invD(3) [OF s2(2)]] by metis
      then show ?thesis
        unfolding s3(3) by (auto simp: set_concat_nth nth_list_update simp del: set_concat split: if_splits)
    qed
    then have nn: "\<not> queued s3 next" using s2(4) np by (auto simp: queued_def simp del: set_concat)
    define s' where "s' = s3\<lparr>cur := Some next\<rparr>"
    have "schedule True s = Some (Some next, s')"
      using p ne s2(1,7) np True nq2 s3(1) f1(4) by (simp add: schedule_def s1_def [symmetric] Let_def s'_def)
    moreover have "rq_wf s'" using s3(2) nn by (simp add: rq_wf_def s'_def rq_inv_def queued_def)
    ultimately show thesis
      using that [of s' s2] s2(2,3) lev2 s3(3) np r True nq2 by (simp add: s'_def)
  next
    case False
    define s' where "s' = s2\<lparr>cur := Some next\<rparr>"
    have "schedule True s = Some (Some next, s')"
      using p ne s2(1,7) np False f1(4) by (auto simp: schedule_def s1_def [symmetric] Let_def s'_def)
    moreover have "rq_wf s'" using s2(2,4) by (simp add: rq_wf_def s'_def rq_inv_def queued_def)
    moreover have "running (se s' u) = running (se s u)" for u using f1(4) by (simp add: s'_def s2(7))
    ultimately show thesis using that [of s' s2] s2(2,3) lev2 np False nq2 by (simp add: s'_def)
  qed
qed


section \<open>The scheduler as a transition system\<close>

text \<open>
  What the rest of the kernel does to the scheduler: wake a task, take a timer tick (the time advances first), let the
  current task leave the running state, yield, and schedule.
\<close>

datatype sched_op = OpWake nat | OpTick bool | OpBlock | OpYield | OpSchedule

fun sched_exec :: "sched_op \<Rightarrow> rq \<Rightarrow> rq option" where
  "sched_exec (OpWake t) s = sched_wake_task (Some t) s"
| "sched_exec (OpTick user) s = sched_tick user (s\<lparr>jiffies := jiffies s + 1\<rparr>)"
| "sched_exec OpBlock s =
     Some (case cur s of None \<Rightarrow> s | Some t \<Rightarrow> upd_se t (\<lambda>e. e\<lparr>running := False\<rparr>) s)"
| "sched_exec OpYield s = map_option snd (sched_yield True s)"
| "sched_exec OpSchedule s = map_option snd (schedule True s)"

fun sched_pre :: "sched_op \<Rightarrow> rq \<Rightarrow> bool" where
  "sched_pre (OpWake t) s \<longleftrightarrow> t \<noteq> idle \<and> runnable_count s < 0xFFFFFFFF"
| "sched_pre _ s \<longleftrightarrow> cur s \<noteq> None"

lemma rq_wf_jiffies [simp]: "rq_wf (s\<lparr>jiffies := j\<rparr>) = rq_wf s"
  by (simp add: rq_wf_def rq_inv_def queued_def)

lemma rq_wf_keep: "(\<And>e. sched_level (f e) = sched_level e) \<Longrightarrow> rq_wf (upd_se t f s) = rq_wf s"
  by (simp add: rq_wf_def rq_inv_upd)

lemma schedule_wf:
  assumes wf: "rq_wf s" and p: "cur s \<noteq> None"
  shows "\<exists>r s'. schedule True s = Some (r, s') \<and> rq_wf s' \<and> cur s' \<noteq> None"
proof -
  obtain prev where p: "cur s = Some prev" using p by blast
  show ?thesis
  proof (cases "concat (queues s)")
    case Nil
    have w: "rq_wf (upd_se prev (\<lambda>e. e\<lparr>need_resched := False\<rparr>) s)" using wf by (simp add: rq_wf_keep)
    then have "rq_wf ((upd_se prev (\<lambda>e. e\<lparr>need_resched := False\<rparr>) s)\<lparr>cur := Some idle\<rparr>)"
      using Nil by (auto simp: rq_wf_def rq_inv_def queued_def upd_se_def)
    then show ?thesis using schedule_none [OF wf p Nil] w p by (simp add: Let_def)
  next
    case (Cons t rest)
    show ?thesis using schedule_some [OF wf p Cons] by (metis option.distinct(1))
  qed
qed

lemma sched_request_wf: "rq_wf (sched_request s) = rq_wf s" "cur (sched_request s) = cur s" "queues (sched_request s) = queues s"
  by (auto simp: sched_request_def rq_wf_keep split: option.splits) (simp_all add: upd_se_def)

lemma sched_exec_ok:
  assumes wf: "rq_wf s" and pre: "sched_pre opn s"
  shows "\<exists>s'. sched_exec opn s = Some s' \<and> rq_wf s' \<and> (cur s \<noteq> None \<longrightarrow> cur s' \<noteq> None)"
proof (cases opn)
  case (OpWake t)
  define s1 where "s1 = upd_se t (\<lambda>e. e\<lparr>running := True\<rparr>) s"
  have w1: "rq_wf s1" using wf by (simp add: s1_def rq_wf_keep)
  show ?thesis
  proof (cases "cur s = Some t")
    case True
    then show ?thesis using w1 OpWake by (simp add: sched_wake_task_def s1_def Let_def)
  next
    case False
    have c: "unat (runnable_count s1) < 2 ^ 32 - 1" using pre OpWake by (simp add: s1_def upd_se_def word_less_nat_alt)
    obtain s' where "mlfq_wakeup t s1 = Some s'" "rq_inv s'" "cur s' = cur s1" "\<And>u. u \<noteq> t \<Longrightarrow> queued s' u \<longleftrightarrow> queued s1 u"
    proof -
      have "rq_inv s1" "t \<noteq> idle" using w1 pre OpWake by (auto simp: rq_wf_def)
      then show thesis using mlfq_wakeup_ok [OF _ _ c, of t] that by blast
    qed
    then show ?thesis using w1 False OpWake by (auto simp: sched_wake_task_def s1_def Let_def rq_wf_def)
  qed
next
  case (OpTick user)
  have "rq_wf (sched_account_tick user (s\<lparr>jiffies := jiffies s + 1\<rparr>))"
    "cur (sched_account_tick user (s\<lparr>jiffies := jiffies s + 1\<rparr>)) = cur s"
    using wf by (auto simp: sched_account_tick_def rq_wf_keep split: option.splits)
  then show ?thesis
    using mlfq_tick_ok OpTick sched_request_wf by (fastforce simp: sched_tick_def)
next
  case OpBlock
  then show ?thesis using wf by (auto simp: rq_wf_keep split: option.splits)
next
  case OpYield
  then show ?thesis
    using wf pre schedule_wf [of "sched_request s"] sched_request_wf by (auto simp: sched_yield_def split: option.splits)
next
  case OpSchedule
  then show ?thesis using schedule_wf [OF wf] pre by auto
qed

inductive sched_reach :: "rq \<Rightarrow> bool" where
  boot: "bitmap_wf (nonempty_levels s) \<Longrightarrow> nbits (nonempty_levels s) = SCHED_MLFQ_LEVELS \<Longrightarrow> cur s = Some idle \<Longrightarrow>
    (\<forall>t. sched_level (se s t) = 0) \<Longrightarrow> sched_reach (mlfq_init s)"
| run: "sched_reach s \<Longrightarrow> sched_pre opn s \<Longrightarrow> sched_exec opn s = Some s' \<Longrightarrow> sched_reach s'"

lemma mlfq_init_wf:
  assumes "bitmap_wf (nonempty_levels s)" "nbits (nonempty_levels s) = SCHED_MLFQ_LEVELS" "\<forall>t. sched_level (se s t) = 0"
  shows "rq_wf (mlfq_init s)"
  using assms
  by (auto simp: rq_wf_def rq_inv_def q_inv_def mlfq_init_def bitmap_zero_wf bitmap_zero_bits level_of_def queued_def
      SCHED_MLFQ_LEVELS_def sum_list_replicate)

lemma sched_reach_wf: "sched_reach s \<Longrightarrow> rq_wf s \<and> cur s \<noteq> None"
proof (induction rule: sched_reach.induct)
  case (boot s)
  then show ?case using mlfq_init_wf by (simp add: mlfq_init_def)
next
  case (run s opn s')
  then show ?case using sched_exec_ok by fastforce
qed


section \<open>Properties\<close>

definition se0 :: sched_entity where
  "se0 = \<lparr>need_resched = False, sched_level = 0, time_slice = 1, sched_ticks = 0, enqueue_jiffies = 0, running = True,
     utime_ticks = 0, stime_ticks = 0\<rparr>"

definition rq0 :: rq where
  "rq0 = mlfq_init \<lparr>queues = [], nonempty_levels = bitmap_init [0] 4, runnable_count = 0, se = (\<lambda>_. se0), cur = Some idle, jiffies = 0\<rparr>"

text \<open>Two tasks woken, the first one scheduled in.\<close>

definition rq1 :: rq where
  "rq1 = the (sched_exec OpSchedule (the (sched_exec (OpWake 2) (the (sched_exec (OpWake 1) rq0)))))"

lemma rq0_reach: "sched_reach rq0"
proof -
  have "bitmap_wf (bitmap_init [0] 4)" by code_simp
  then show ?thesis unfolding rq0_def
    by (intro sched_reach.boot) (simp_all add: bitmap_init_def SCHED_MLFQ_LEVELS_def se0_def)
qed

lemma sched_reach_exec: "sched_reach s \<Longrightarrow> sched_pre opn s \<Longrightarrow> sched_reach (the (sched_exec opn s))"
  using sched_exec_ok sched_reach_wf sched_reach.run by (metis option.sel)

lemma rq1_reach: "sched_reach rq1"
  unfolding rq1_def by (intro sched_reach_exec rq0_reach) code_simp+

text \<open>
  C3: the scheduler's invariant. From boot, under any sequence of wake-ups, timer ticks, blocks, yields and
  schedules, the next operation does not stop at any \<^verbatim>\<open>BUG_ON\<close> of \<^verbatim>\<open>mlfq.c\<close>, and every state reached has: each queued task on the queue of its own level, once; the
  bitmap marking exactly the non-empty levels; \<^verbatim>\<open>runnable_count\<close> equal to the number of queued tasks; and the current
  task on no queue.
\<close>

theorem sched_invariant:
  assumes "sched_reach s" and "sched_pre opn s"
  shows "rq_wf s \<and> (\<exists>s'. sched_exec opn s = Some s' \<and> rq_wf s')"
  using sched_reach_wf [OF assms(1)] sched_exec_ok assms(2) by blast

theorem sched_invariant_witness: "rq_wf rq1 \<and> (\<exists>s'. sched_exec (OpTick True) rq1 = Some s' \<and> rq_wf s')"
proof -
  have "sched_pre (OpTick True) rq1" by code_simp
  then show ?thesis using sched_invariant [OF rq1_reach] by blast
qed

text \<open>
  C20: \<^verbatim>\<open>schedule\<close> runs the first task of the highest non-empty level, and loses no task. In a reachable state it switches
  to the head of the queues taken in the order of their levels (going on with the current task, or to idle, when they are empty); after it,
  every task that was queued or was the current running task is queued or current.
\<close>

theorem schedule_spec:
  assumes "sched_reach s" and "cur s = Some prev"
  shows "\<exists>r s'. schedule True s = Some (r, s') \<and>
    (case concat (queues s) of
       [] \<Rightarrow> (if prev = idle \<or> running (se s prev) then r = None \<and> cur s' = Some prev else r = Some idle \<and> cur s' = Some idle)
     | t # _ \<Rightarrow> r = Some t \<and> cur s' = Some t) \<and>
    (\<forall>u. queued s u \<or> u = prev \<and> u \<noteq> idle \<and> running (se s u) \<longrightarrow> queued s' u \<or> cur s' = Some u)"
proof -
  have wf: "rq_wf s" using sched_reach_wf [OF assms(1)] by blast
  show ?thesis
  proof (cases "concat (queues s)")
    case Nil
    have "\<not> queued s u" for u unfolding queued_def Nil by simp
    then show ?thesis
      using schedule_none [OF wf assms(2) Nil] assms(2) unfolding Nil list.case
      by (cases "prev = idle \<or> running (se s prev)") (auto simp: Let_def)
  next
    case (Cons t rest)
    obtain s2 s' where s': "schedule True s = Some (Some t, s')" "cur s' = Some t" "rq_inv s2"
      "concat (queues s2) = rest" "level_of s2 = level_of s"
      "queues s' = (if prev \<noteq> idle \<and> running (se s prev)
        then (queues s2)[level_of s prev := queues s2 ! level_of s prev @ [prev]] else queues s2)"
      using schedule_some [OF wf assms(2) Cons] by metis
    have l: "level_of s prev < length (queues s2)"
      using q_invD(1,6) [OF rq_invD(3) [OF s'(3)]] s'(5) by metis
    have "queued s' u" if "u \<in> set rest" for u
      using that l unfolding s'(4) [symmetric] queued_def set_concat_nth s'(6) by (auto simp: nth_list_update)
    moreover have "queued s' prev" if "prev \<noteq> idle" "running (se s prev)"
      using that l unfolding queued_def set_concat_nth s'(6) by (auto simp: nth_list_update)
    ultimately show ?thesis using s'(1,2) Cons by (auto simp: queued_def simp del: set_concat)
  qed
qed

theorem schedule_spec_witness:
  "concat (queues rq1) = [2] \<and> (\<exists>s'. schedule True rq1 = Some (Some 2, s') \<and> queued s' 1)"
proof -
  have c: "cur rq1 = Some 1" "concat (queues rq1) = [2]" "running (se rq1 1)" by code_simp+
  obtain r s' where "schedule True rq1 = Some (r, s')" "r = Some 2 \<and> cur s' = Some 2"
    "\<forall>u. queued rq1 u \<or> u = 1 \<and> u \<noteq> idle \<and> running (se rq1 u) \<longrightarrow> queued s' u \<or> cur s' = Some u"
    using schedule_spec [OF rq1_reach c(1)] unfolding c(2) list.case by blast
  then show ?thesis using c by (auto simp: idle_def)
qed

text \<open>
  C21: the boost. In a reachable state \<^verbatim>\<open>mlfq_boost\<close> moves every queued task to level 0, in the order of their levels and of their places there,
  gives each of them and the running task a fresh one-tick slice at level 0, empties the other levels, and keeps
  the count.
\<close>

theorem mlfq_boost_spec:
  assumes "sched_reach s"
  shows "\<exists>s'. mlfq_boost s = Some s' \<and> rq_wf s' \<and> queues s' = [concat (queues s), [], [], []] \<and>
    runnable_count s' = runnable_count s \<and>
    (\<forall>t. queued s t \<or> cur s = Some t \<and> t \<noteq> idle \<and> running (se s t) \<longrightarrow>
      sched_level (se s' t) = 0 \<and> time_slice (se s' t) = 1 \<and> sched_ticks (se s' t) = 0)"
proof -
  obtain s' where s': "mlfq_boost s = Some s'" "rq_wf s'" "queues s' = [concat (queues s), [], [], []]"
    "runnable_count s' = runnable_count s"
    "\<forall>t. if queued s t then se s' t = boosted (jiffies s) (se s t)
      else if cur s = Some t \<and> t \<noteq> idle \<and> running (se s t)
      then se s' t = (se s t)\<lparr>sched_level := 0, time_slice := 1, sched_ticks := 0\<rparr> else se s' t = se s t"
    using mlfq_boost_ok sched_reach_wf [OF assms] by blast
  have "sched_level (se s' t) = 0 \<and> time_slice (se s' t) = 1 \<and> sched_ticks (se s' t) = 0"
    if "queued s t \<or> cur s = Some t \<and> t \<noteq> idle \<and> running (se s t)" for t
    using s'(5) [rule_format, of t] that by (cases "queued s t") (auto simp: boosted_def)
  then show ?thesis using s' by blast
qed

theorem mlfq_boost_spec_witness: "\<exists>s'. mlfq_boost rq1 = Some s' \<and> queues s' = [[2], [], [], []]"
proof -
  have "concat (queues rq1) = [2]" by code_simp
  then show ?thesis using mlfq_boost_spec [OF rq1_reach] by auto
qed


text \<open>Consecutive ticks, with the answers of \<^verbatim>\<open>mlfq_tick\<close>.\<close>

fun mlfq_ticks :: "nat \<Rightarrow> rq \<Rightarrow> (bool list \<times> rq) option" where
  "mlfq_ticks 0 s = Some ([], s)"
| "mlfq_ticks (Suc n) s =
     (case mlfq_tick s of
        None \<Rightarrow> None
      | Some (need, s') \<Rightarrow> map_option (\<lambda>(ns, s''). (need # ns, s'')) (mlfq_ticks n s'))"

lemma tick_once:
  assumes "rq_wf s" "cur s = Some t" "t \<noteq> idle" "running (se s t)" "jiffies s mod HZ \<noteq> 0"
  shows "mlfq_tick s = Some (time_slice (se s t) \<le> 1, upd_se t ticked s)" "rq_wf (upd_se t ticked s)"
proof -
  have lev: "level_of s t < SCHED_MLFQ_LEVELS" for t using level_bound assms(1) by (simp add: level_of_def rq_wf_def)
  show "mlfq_tick s = Some (time_slice (se s t) \<le> 1, upd_se t ticked s)"
    using assms(2-5) by (simp add: charge_ok [OF lev] charge_def upd_se_def)
  show "rq_wf (upd_se t ticked s)" using charge_wf [OF assms(1)] assms(2-4) by (simp add: charge_def)
qed

lemma ticked_keeps: "running (ticked e) = running e"
  by (simp add: ticked_def Let_def)

lemma ticks_run:
  assumes "rq_wf s" "cur s = Some t" "t \<noteq> idle" "running (se s t)" "jiffies s mod HZ \<noteq> 0"
    and "unat (time_slice (se s t)) = Suc n"
  shows "\<exists>s'. mlfq_ticks (Suc n) s = Some (replicate n False @ [True], s') \<and> rq_wf s' \<and> queues s' = queues s \<and>
    level_of s' t = min (SCHED_MLFQ_LEVELS - 1) (level_of s t + 1) \<and> unat (time_slice (se s' t)) = 2 ^ level_of s' t"
  using assms
proof (induction n arbitrary: s)
  case 0
  define l where "l = min (SCHED_MLFQ_LEVELS - 1) (unat (sched_level (se s t)) + 1)"
  have l: "l < 4" by (simp add: l_def SCHED_MLFQ_LEVELS_def)
  have "time_slice (se s t) \<le> 1" using 0(6) by (simp add: word_le_nat_alt)
  then have e: "ticked (se s t) = (se s t)\<lparr>sched_level := of_nat l, time_slice := of_nat (2 ^ l), sched_ticks := 0\<rparr>"
    by (simp add: ticked_def Let_def l_def)
  have "(2 :: nat) ^ l < 2 ^ 8" using l by (intro power_strict_increasing) auto
  then have u: "unat (of_nat l :: u8) = l" "unat (of_nat (2 ^ l) :: u8) = 2 ^ l" using l by (simp_all add: unat_of_nat del: of_nat_power)
  show ?case
    using tick_once [OF 0(1-5)] \<open>time_slice (se s t) \<le> 1\<close> e u
    by (simp add: upd_se_def level_of_def del: of_nat_power) (simp add: l_def)
next
  case (Suc n)
  have nz: "\<not> time_slice (se s t) \<le> 1" using Suc.prems(6) by (simp add: word_le_nat_alt)
  define s1 where "s1 = upd_se t ticked s"
  have e: "ticked (se s t) = (se s t)\<lparr>time_slice := time_slice (se s t) - 1, sched_ticks := sched_ticks (se s t) + 1\<rparr>"
    using nz by (simp add: ticked_def)
  have "time_slice (se s t) \<noteq> 0" using Suc.prems(6) by auto
  then have ts: "unat (time_slice (se s t) - 1) = Suc n" using Suc.prems(6) by (simp add: unat_minus_one)
  have s1: "rq_wf s1" "cur s1 = Some t" "running (se s1 t)" "jiffies s1 mod HZ \<noteq> 0" "unat (time_slice (se s1 t)) = Suc n"
    "level_of s1 t = level_of s t" "queues s1 = queues s"
    using tick_once(2) [OF Suc.prems(1-5)] Suc.prems(2,4,5) ts by (simp_all add: s1_def upd_se_def e level_of_def)
  have "mlfq_tick s = Some (False, s1)" using tick_once(1) [OF Suc.prems(1-5)] nz by (simp add: s1_def)
  then show ?case using Suc.IH [OF s1(1,2) Suc.prems(3) s1(3-5)] s1(6,7) by auto
qed


definition rq2 :: rq where "rq2 = the (sched_exec (OpTick True) rq1)"


lemma queue_filter:
  assumes "rq_inv s"
  shows "queues s ! 0 = filter (\<lambda>t. level_of s t = 0) (concat (queues s))"
proof -
  obtain q0 q1 q2 q3 where q: "queues s = [q0, q1, q2, q3]" using queues_four [OF assms] .
  have "\<forall>t \<in> set (queues s ! l). level_of s t = l" if "l < 4" for l
    using q_invD(4) [OF rq_invD(3) [OF assms]] that by (simp add: SCHED_MLFQ_LEVELS_def)
  from this [of 0] this [of 1] this [of 2] this [of 3] show ?thesis
    using q by (auto simp: filter_empty_conv numeral_eq_Suc)
qed



end
