(* ===== verification/Buddy.thy ===== *)
theory Buddy
  imports Prelude
begin

text \<open>
  The buddy allocator of physical pages, \<^verbatim>\<open>mm/buddy.c\<close>. Page frames are numbers below \<^verbatim>\<open>total_pages\<close>; \<^verbatim>\<open>mem_map\<close> is a function from
  frames to page descriptors, each free list a list of frames, and a \<^verbatim>\<open>panic\<close> or failed \<^verbatim>\<open>BUG_ON\<close> is \<open>None\<close>. The operations are
  shown to keep a partition of memory into aligned, disjoint blocks, with free buddies always merged.
\<close>

definition MAX_ORDER :: nat where "MAX_ORDER = 9"

definition DRAM_BASE :: u64 where "DRAM_BASE = 0x80000000"
definition DRAM_SIZE :: u64 where "DRAM_SIZE = 0x10000000"
definition KERNEL_VBASE :: u64 where "KERNEL_VBASE = 0xFFFFFFC000000000"

definition va_of :: "u64 \<Rightarrow> u64" where "va_of pa = pa + KERNEL_VBASE"

definition PG_RESERVED :: nat where "PG_RESERVED = 0"
definition PG_SLAB :: nat where "PG_SLAB = 1"
definition PG_BUDDY :: nat where "PG_BUDDY = 2"

definition BIT :: "nat \<Rightarrow> u32" where "BIT n = push_bit n 1"

record page =
  flags :: u32
  order :: nat
  refcount :: nat

definition page_test_flag :: "page \<Rightarrow> nat \<Rightarrow> bool" where
  "page_test_flag pg n \<longleftrightarrow> flags pg AND BIT n \<noteq> 0"

definition page_set_flag :: "nat \<Rightarrow> page \<Rightarrow> page" where
  "page_set_flag n pg = pg\<lparr>flags := flags pg OR BIT n\<rparr>"

definition page_clear_flag :: "nat \<Rightarrow> page \<Rightarrow> page" where
  "page_clear_flag n pg = pg\<lparr>flags := flags pg AND NOT (BIT n)\<rparr>"

record buddy =
  mem_map :: "nat \<Rightarrow> page"
  total_pages :: nat
  free_list :: "nat \<Rightarrow> nat list"
  nr_free :: "nat \<Rightarrow> nat"
  nr_free_pages :: nat

definition pfn_to_virt :: "nat \<Rightarrow> u64" where
  "pfn_to_virt pfn = va_of (DRAM_BASE + of_nat pfn * PAGE_SIZE)"

definition virt_to_pfn_checked :: "buddy \<Rightarrow> u64 \<Rightarrow> nat option" where
  "virt_to_pfn_checked s va =
     (let direct_start = va_of DRAM_BASE; direct_end = direct_start + DRAM_SIZE in
      if va = 0 \<or> \<not> IS_ALIGNED va PAGE_SIZE then None
      else if va < direct_start \<or> va \<ge> direct_end then None
      else
        let pfn = unat ((va - direct_start) div PAGE_SIZE) in
        if pfn < total_pages s then Some pfn else None)"

definition upd_page :: "nat \<Rightarrow> (page \<Rightarrow> page) \<Rightarrow> buddy \<Rightarrow> buddy" where
  "upd_page pfn f s = s\<lparr>mem_map := (mem_map s)(pfn := f (mem_map s pfn))\<rparr>"

definition buddy_add_free_block :: "nat \<Rightarrow> nat \<Rightarrow> bool \<Rightarrow> buddy \<Rightarrow> buddy option" where
  "buddy_add_free_block pfn k to_tail s =
     (if pfn \<ge> total_pages s then None
      else if k > MAX_ORDER then None
      else
        let s1 = upd_page pfn (\<lambda>_. \<lparr>flags = BIT PG_BUDDY, order = k, refcount = 0\<rparr>) s;
            s2 = s1\<lparr>free_list := (free_list s1)(k := (if to_tail then free_list s1 k @ [pfn] else pfn # free_list s1 k))\<rparr>
        in Some (s2\<lparr>nr_free := (nr_free s2)(k := nr_free s2 k + 1)\<rparr>))"

text \<open>\<^verbatim>\<open>list_del\<close> unlinks the descriptor from whichever list holds it.\<close>

definition buddy_remove_free_block :: "nat \<Rightarrow> buddy \<Rightarrow> buddy option" where
  "buddy_remove_free_block pfn s =
     (if \<not> page_test_flag (mem_map s pfn) PG_BUDDY then None
      else
        let s1 = s\<lparr>free_list := (\<lambda>k. remove1 pfn (free_list s k))\<rparr>;
            s2 = upd_page pfn (page_clear_flag PG_BUDDY) s1;
            k = order (mem_map s2 pfn)
        in Some (s2\<lparr>nr_free := (nr_free s2)(k := nr_free s2 k - 1)\<rparr>))"

text \<open>The choice of the largest order at \<open>idx\<close> in \<^verbatim>\<open>buddy_init\<close>.\<close>

fun init_order :: "nat \<Rightarrow> nat \<Rightarrow> nat \<Rightarrow> nat" where
  "init_order idx remaining 0 = 0"
| "init_order idx remaining (Suc k) =
     (if idx AND (2 ^ Suc k - 1) \<noteq> 0 \<or> remaining < 2 ^ Suc k then init_order idx remaining k else Suc k)"

lemma init_order_le: "remaining > 0 \<Longrightarrow> 2 ^ init_order idx remaining k \<le> remaining"
  by (induction k) (auto simp: not_less)

function init_blocks :: "nat \<Rightarrow> nat \<Rightarrow> buddy \<Rightarrow> buddy option" where
  "init_blocks idx remaining s =
     (if remaining > 0 then
        let k = init_order idx remaining MAX_ORDER in
        case buddy_add_free_block idx k True s of
          None \<Rightarrow> None
        | Some s1 \<Rightarrow> init_blocks (idx + 2 ^ k) (remaining - 2 ^ k) (s1\<lparr>nr_free_pages := nr_free_pages s1 + 2 ^ k\<rparr>)
      else Some s)"
  by pat_completeness auto
termination
  by (relation "measure (\<lambda>(idx, remaining, s). remaining)") auto

declare init_blocks.simps [simp del]

text \<open>
  \<^verbatim>\<open>buddy_init\<close>: \<open>mem_start\<close> is the offset in DRAM of \<^verbatim>\<open>bootmem_end()\<close>, where the descriptors (32 bytes each) are put.
\<close>

definition sizeof_page :: nat where "sizeof_page = 32"

definition buddy_init :: "nat \<Rightarrow> buddy \<Rightarrow> buddy option" where
  "buddy_init mem_start s =
     (let total = unat (DRAM_SIZE div PAGE_SIZE);
          s1 = s\<lparr>total_pages := total, mem_map := (\<lambda>_. \<lparr>flags = BIT PG_RESERVED, order = 0, refcount = 0\<rparr>),
                free_list := (\<lambda>_. []), nr_free := (\<lambda>_. 0)\<rparr>;
          free_idx = (mem_start + total * sizeof_page + 4095) div 4096;
          remaining = unat (of_nat total - of_nat free_idx :: u64)
      in init_blocks free_idx remaining (s1\<lparr>nr_free_pages := 0\<rparr>))"

text \<open>The splitting loop: the upper half of the block goes to the list of the next lower order.\<close>

fun buddy_split :: "nat \<Rightarrow> nat \<Rightarrow> nat \<Rightarrow> buddy \<Rightarrow> buddy option" where
  "buddy_split pfn k 0 s = Some s"
| "buddy_split pfn k (Suc cur) s =
     (if Suc cur > k then
        case buddy_add_free_block (pfn + 2 ^ cur) cur False s of
          None \<Rightarrow> None
        | Some s1 \<Rightarrow> buddy_split pfn k cur s1
      else Some s)"

text \<open>\<^verbatim>\<open>get_free_page\<close> in frames: the frame of the block, or no memory.\<close>

definition get_free_pfn :: "nat \<Rightarrow> buddy \<Rightarrow> (nat option \<times> buddy) option" where
  "get_free_pfn k s =
     (if k > MAX_ORDER then Some (None, s)
      else
        case List.find (\<lambda>c. free_list s c \<noteq> []) [k..<MAX_ORDER + 1] of
          None \<Rightarrow> Some (None, s)
        | Some cur \<Rightarrow>
            let pfn = hd (free_list s cur) in
            if pfn \<ge> total_pages s then None
            else if \<not> page_test_flag (mem_map s pfn) PG_BUDDY then None
            else if order (mem_map s pfn) \<noteq> cur then None
            else
              (case buddy_remove_free_block pfn s of
                 None \<Rightarrow> None
               | Some s1 \<Rightarrow>
                   (case buddy_split pfn k cur s1 of
                      None \<Rightarrow> None
                    | Some s2 \<Rightarrow>
                        let s3 = upd_page pfn (\<lambda>_. \<lparr>flags = 0, order = k, refcount = 1\<rparr>) s2
                        in Some (Some pfn, s3\<lparr>nr_free_pages := nr_free_pages s3 - 2 ^ k\<rparr>))))"

definition get_free_page :: "nat \<Rightarrow> buddy \<Rightarrow> (u64 \<times> buddy) option" where
  "get_free_page k s =
     map_option (\<lambda>(r, s'). (case r of None \<Rightarrow> 0 | Some pfn \<Rightarrow> pfn_to_virt pfn, s')) (get_free_pfn k s)"

text \<open>The merging loop of \<^verbatim>\<open>free_page\<close>.\<close>

function buddy_merge :: "nat \<Rightarrow> nat \<Rightarrow> buddy \<Rightarrow> (nat \<times> nat \<times> buddy) option" where
  "buddy_merge pfn k s =
     (if k < MAX_ORDER then
        let buddy_pfn = pfn XOR 2 ^ k in
        if buddy_pfn \<ge> total_pages s then Some (pfn, k, s)
        else if \<not> page_test_flag (mem_map s buddy_pfn) PG_BUDDY then Some (pfn, k, s)
        else if order (mem_map s buddy_pfn) \<noteq> k then Some (pfn, k, s)
        else
          case buddy_remove_free_block buddy_pfn s of
            None \<Rightarrow> None
          | Some s1 \<Rightarrow> buddy_merge (if pfn < buddy_pfn then pfn else buddy_pfn) (k + 1) s1
      else Some (pfn, k, s))"
  by pat_completeness auto
termination
  by (relation "measure (\<lambda>(pfn, k, s). MAX_ORDER - k)") auto

declare buddy_merge.simps [simp del]

definition free_page :: "u64 \<Rightarrow> nat \<Rightarrow> buddy \<Rightarrow> buddy option" where
  "free_page addr k s =
     (if k > MAX_ORDER then None
      else
        let freed_pages = 2 ^ k in
        case virt_to_pfn_checked s addr of
          None \<Rightarrow> None
        | Some pfn \<Rightarrow>
            if pfn + freed_pages > total_pages s then None
            else if pfn AND (freed_pages - 1) \<noteq> 0 then None
            else if page_test_flag (mem_map s pfn) PG_BUDDY then None
            else if page_test_flag (mem_map s pfn) PG_RESERVED then None
            else if page_test_flag (mem_map s pfn) PG_SLAB then None
            else if refcount (mem_map s pfn) = 0 then None
            else if order (mem_map s pfn) \<noteq> k then None
            else
              let s1 = upd_page pfn (\<lambda>p. p\<lparr>flags := 0, refcount := 0\<rparr>) s in
              case buddy_merge pfn k s1 of
                None \<Rightarrow> None
              | Some (pfn', k', s2) \<Rightarrow>
                  map_option (\<lambda>s3. s3\<lparr>nr_free_pages := nr_free_pages s3 + freed_pages\<rparr>)
                    (buddy_add_free_block pfn' k' False s2))"

definition buddy_free_pages :: "buddy \<Rightarrow> nat" where
  "buddy_free_pages s = nr_free_pages s"

text \<open>A descriptor pointer is the frame it describes.\<close>

definition virt_to_page :: "buddy \<Rightarrow> u64 \<Rightarrow> nat option" where
  "virt_to_page s va = virt_to_pfn_checked s va"

definition page_to_virt :: "buddy \<Rightarrow> nat \<Rightarrow> u64 option" where
  "page_to_virt s pfn = (if pfn \<ge> total_pages s then None else Some (pfn_to_virt pfn))"


section \<open>Blocks\<close>

lemma test_flag_bit: "page_test_flag pg n \<longleftrightarrow> bit (flags pg) n"
  by (simp add: page_test_flag_def BIT_def bit_iff_and_push_bit_not_eq_0)

lemma bit_BIT: "n < 32 \<Longrightarrow> bit (BIT m) n \<longleftrightarrow> m = n"
  by (auto simp: BIT_def bit_simps)

text \<open>
  The heads of free and of allocated blocks, as the descriptors tell, and the blocks an operation has in hand
  (removed from the lists but not handed out yet): \<open>P\<close> is their set.
\<close>

definition isfree :: "buddy \<Rightarrow> nat \<Rightarrow> nat \<Rightarrow> bool" where
  "isfree s p k \<longleftrightarrow> p < total_pages s \<and> page_test_flag (mem_map s p) PG_BUDDY \<and> order (mem_map s p) = k"

definition isalloc :: "buddy \<Rightarrow> nat \<Rightarrow> nat \<Rightarrow> bool" where
  "isalloc s p k \<longleftrightarrow> p < total_pages s \<and> refcount (mem_map s p) > 0 \<and> order (mem_map s p) = k"

definition block :: "buddy \<Rightarrow> (nat \<times> nat) set \<Rightarrow> nat \<Rightarrow> nat \<Rightarrow> bool" where
  "block s P p k \<longleftrightarrow> isfree s p k \<or> isalloc s p k \<or> (p, k) \<in> P"

definition apart :: "nat \<Rightarrow> nat \<Rightarrow> nat \<Rightarrow> nat \<Rightarrow> bool" where
  "apart p k q j \<longleftrightarrow> p + 2 ^ k \<le> q \<or> q + 2 ^ j \<le> p"

definition lists_ok :: "buddy \<Rightarrow> bool" where
  "lists_ok s \<longleftrightarrow> (\<forall>k \<le> MAX_ORDER. distinct (free_list s k) \<and> nr_free s k = length (free_list s k) \<and>
     (\<forall>p. p \<in> set (free_list s k) \<longleftrightarrow> isfree s p k))"

definition pages_ok :: "buddy \<Rightarrow> (nat \<times> nat) set \<Rightarrow> bool" where
  "pages_ok s P \<longleftrightarrow>
     (\<forall>p < total_pages s. page_test_flag (mem_map s p) PG_BUDDY \<longrightarrow> refcount (mem_map s p) = 0) \<and>
     (\<forall>p < total_pages s. refcount (mem_map s p) > 0 \<longrightarrow> \<not> page_test_flag (mem_map s p) PG_RESERVED) \<and>
     (\<forall>(p, k) \<in> P. \<not> page_test_flag (mem_map s p) PG_BUDDY \<and> refcount (mem_map s p) = 0)"

definition blocks_ok :: "buddy \<Rightarrow> (nat \<times> nat) set \<Rightarrow> bool" where
  "blocks_ok s P \<longleftrightarrow>
     (\<forall>p k. block s P p k \<longrightarrow> k \<le> MAX_ORDER \<and> 2 ^ k dvd p \<and> p + 2 ^ k \<le> total_pages s) \<and>
     (\<forall>p k q j. block s P p k \<longrightarrow> block s P q j \<longrightarrow> (p, k) = (q, j) \<or> apart p k q j)"

definition coalesced :: "buddy \<Rightarrow> bool" where
  "coalesced s \<longleftrightarrow> (\<forall>p k. k < MAX_ORDER \<longrightarrow> isfree s p k \<longrightarrow> \<not> isfree s (p XOR 2 ^ k) k)"

definition buddy_inv :: "buddy \<Rightarrow> (nat \<times> nat) set \<Rightarrow> bool" where
  "buddy_inv s P \<longleftrightarrow> lists_ok s \<and> pages_ok s P \<and> blocks_ok s P \<and> coalesced s"

definition free_sum :: "buddy \<Rightarrow> nat" where
  "free_sum s = (\<Sum>k \<le> MAX_ORDER. length (free_list s k) * 2 ^ k)"

lemma buddy_invD:
  assumes "buddy_inv s P"
  shows "k \<le> MAX_ORDER \<Longrightarrow> distinct (free_list s k)" "k \<le> MAX_ORDER \<Longrightarrow> nr_free s k = length (free_list s k)"
    "k \<le> MAX_ORDER \<Longrightarrow> p \<in> set (free_list s k) \<longleftrightarrow> isfree s p k"
    "p < total_pages s \<Longrightarrow> page_test_flag (mem_map s p) PG_BUDDY \<Longrightarrow> refcount (mem_map s p) = 0"
    "p < total_pages s \<Longrightarrow> refcount (mem_map s p) > 0 \<Longrightarrow> \<not> page_test_flag (mem_map s p) PG_RESERVED"
    "(p, k) \<in> P \<Longrightarrow> \<not> page_test_flag (mem_map s p) PG_BUDDY \<and> refcount (mem_map s p) = 0"
    "block s P p k \<Longrightarrow> k \<le> MAX_ORDER \<and> 2 ^ k dvd p \<and> p + 2 ^ k \<le> total_pages s"
    "block s P p k \<Longrightarrow> block s P q j \<Longrightarrow> (p, k) = (q, j) \<or> apart p k q j"
    "k < MAX_ORDER \<Longrightarrow> isfree s p k \<Longrightarrow> \<not> isfree s (p XOR 2 ^ k) k"
  using assms unfolding buddy_inv_def lists_ok_def pages_ok_def blocks_ok_def coalesced_def by blast+

text \<open>Buddies of an aligned block.\<close>

lemma buddy_xor:
  assumes "2 ^ k dvd (p :: nat)"
  shows "p XOR 2 ^ k = (if 2 ^ Suc k dvd p then p + 2 ^ k else p - 2 ^ k)"
    and "\<not> 2 ^ Suc k dvd p \<Longrightarrow> 2 ^ k \<le> p \<and> 2 ^ Suc k dvd p - 2 ^ k"
proof -
  obtain m where m: "p = push_bit k m" using assms by (auto simp: push_bit_eq_mult mult.commute elim: dvdE)
  have e: "2 ^ Suc k dvd p \<longleftrightarrow> even m" by (simp add: m push_bit_eq_mult)
  have "p XOR 2 ^ k = push_bit k (m XOR 1)"
    by (simp add: m push_bit_xor push_bit_of_1)
  moreover have "m XOR 1 = (if even m then m + 1 else m - 1)"
    using Suc_0_xor_eq [of m] by (simp add: xor.commute)
  moreover have "push_bit k (m + 1) = p + 2 ^ k" by (simp add: m push_bit_eq_mult distrib_right)
  moreover have "push_bit k (m - 1) = p - 2 ^ k" by (simp add: m push_bit_eq_mult diff_mult_distrib)
  ultimately show "p XOR 2 ^ k = (if 2 ^ Suc k dvd p then p + 2 ^ k else p - 2 ^ k)"
    unfolding e by (simp only: split: if_split) simp
  assume "\<not> 2 ^ Suc k dvd p"
  then have "odd m" using e by simp
  then show "2 ^ k \<le> p \<and> 2 ^ Suc k dvd p - 2 ^ k"
    by (auto simp: m push_bit_eq_mult elim!: oddE)
qed

lemma buddy_aligned:
  assumes "2 ^ k dvd (p :: nat)"
  shows "2 ^ k dvd p XOR 2 ^ k" "p XOR 2 ^ k \<noteq> p" "(p XOR 2 ^ k) XOR 2 ^ k = p"
    "2 ^ Suc k dvd min p (p XOR 2 ^ k)" "max p (p XOR 2 ^ k) = min p (p XOR 2 ^ k) + 2 ^ k"
proof -
  show "(p XOR 2 ^ k) XOR 2 ^ k = p" by (simp add: xor.assoc)
  note x = buddy_xor [OF assms]
  show "2 ^ k dvd p XOR 2 ^ k" using x assms by (auto intro: dvd_diff_nat)
  show "p XOR 2 ^ k \<noteq> p" using x(1) x(2) by (auto simp: le_diff_conv)
  show "2 ^ Suc k dvd min p (p XOR 2 ^ k)" "max p (p XOR 2 ^ k) = min p (p XOR 2 ^ k) + 2 ^ k"
  proof -
    have "p - 2 ^ k < p" if "2 ^ k \<le> p" using that by (intro diff_less) (auto intro: less_le_trans [of 0 "2 ^ k"])
    then show "2 ^ Suc k dvd min p (p XOR 2 ^ k)" "max p (p XOR 2 ^ k) = min p (p XOR 2 ^ k) + 2 ^ k"
      using x by (cases "2 ^ Suc k dvd p"; simp add: min_def max_def)+
  qed
qed


subsection \<open>Moving one block\<close>

definition blk :: "nat \<Rightarrow> nat \<Rightarrow> nat set" where
  "blk p k = {p..<p + 2 ^ k}"

definition avail :: "buddy \<Rightarrow> (nat \<times> nat) set \<Rightarrow> nat set" where
  "avail s P = {f. \<exists>p k. (isfree s p k \<or> (p, k) \<in> P) \<and> f \<in> blk p k}"

abbreviation free_frames :: "buddy \<Rightarrow> nat set" where
  "free_frames s \<equiv> avail s {}"

text \<open>What the steps of an operation keep: the frames at hand or free, the allocated blocks, and the counters.\<close>

definition keeps :: "buddy \<Rightarrow> (nat \<times> nat) set \<Rightarrow> buddy \<Rightarrow> (nat \<times> nat) set \<Rightarrow> bool" where
  "keeps s P s' P' \<longleftrightarrow> buddy_inv s' P' \<and> avail s' P' = avail s P \<and> total_pages s' = total_pages s \<and>
     nr_free_pages s' = nr_free_pages s \<and> (\<forall>q j. isalloc s' q j \<longleftrightarrow> isalloc s q j) \<and>
     (\<forall>q j. isalloc s q j \<longrightarrow> page_test_flag (mem_map s' q) PG_SLAB = page_test_flag (mem_map s q) PG_SLAB)"

lemma keeps_inv: "keeps s P s' P' \<Longrightarrow> buddy_inv s' P'"
  by (simp add: keeps_def)

lemma keeps_trans: "keeps s P s' P' \<Longrightarrow> keeps s' P' s'' P'' \<Longrightarrow> keeps s P s'' P''"
  by (auto simp: keeps_def)

lemma pow_pos: "0 < (2 :: nat) ^ k"
  by simp

lemma blocks_ok_cong:
  "(\<And>q j. block s' P' q j \<longleftrightarrow> block s P q j) \<Longrightarrow> total_pages s' = total_pages s \<Longrightarrow> blocks_ok s' P' \<longleftrightarrow> blocks_ok s P"
  by (simp add: blocks_ok_def)

lemma free_sum_upd:
  assumes k: "k \<le> MAX_ORDER" and same: "\<And>j. j \<le> MAX_ORDER \<Longrightarrow> j \<noteq> k \<Longrightarrow> length (free_list s' j) = length (free_list s j)"
  shows "free_sum s' + length (free_list s k) * 2 ^ k = free_sum s + length (free_list s' k) * 2 ^ k"
proof -
  have "(\<Sum>j \<in> {..MAX_ORDER} - {k}. length (free_list s' j) * 2 ^ j) = (\<Sum>j \<in> {..MAX_ORDER} - {k}. length (free_list s j) * 2 ^ j)"
    by (rule sum.cong) (auto simp: same)
  then show ?thesis
    unfolding free_sum_def using k by (simp add: sum.remove [of "{..MAX_ORDER}" k])
qed

lemma flag_simps [simp]:
  "page_test_flag (page_clear_flag PG_BUDDY pg) PG_BUDDY = False"
  "page_test_flag (page_clear_flag PG_BUDDY pg) PG_RESERVED = page_test_flag pg PG_RESERVED"
  "page_test_flag (page_clear_flag PG_BUDDY pg) PG_SLAB = page_test_flag pg PG_SLAB"
  "page_test_flag \<lparr>flags = BIT PG_BUDDY, order = a, refcount = b\<rparr> PG_BUDDY"
  "\<not> page_test_flag \<lparr>flags = 0, order = a, refcount = b\<rparr> n"
  "\<not> page_test_flag (pg\<lparr>flags := 0, refcount := b\<rparr>) n"
  "order (page_clear_flag n pg) = order pg" "refcount (page_clear_flag n pg) = refcount pg"
  by (auto simp: test_flag_bit page_clear_flag_def bit_simps PG_BUDDY_def PG_RESERVED_def PG_SLAB_def bit_BIT)

lemma remove_ok:
  assumes inv: "buddy_inv s P" and f: "isfree s p k"
  obtains s' where "buddy_remove_free_block p s = Some s'" "keeps s P s' (insert (p, k) P)" "free_sum s = free_sum s' + 2 ^ k"
    "\<And>q j. isfree s' q j \<longleftrightarrow> isfree s q j \<and> q \<noteq> p"
proof -
  note d = buddy_invD [OF inv]
  define s' where "s' = the (buddy_remove_free_block p s)"
  have pf: "page_test_flag (mem_map s p) PG_BUDDY" "order (mem_map s p) = k" "p < total_pages s" using f by (auto simp: isfree_def)
  have s': "buddy_remove_free_block p s = Some s'" "total_pages s' = total_pages s" "nr_free_pages s' = nr_free_pages s"
    "mem_map s' = (mem_map s)(p := page_clear_flag PG_BUDDY (mem_map s p))" "free_list s' = (\<lambda>j. remove1 p (free_list s j))"
    "nr_free s' = (nr_free s)(k := nr_free s k - 1)"
    using pf by (auto simp: s'_def buddy_remove_free_block_def Let_def upd_page_def)
  have fr: "isfree s' q j \<longleftrightarrow> isfree s q j \<and> q \<noteq> p" for q j by (auto simp: isfree_def s')
  have al: "isalloc s' q j \<longleftrightarrow> isalloc s q j" for q j by (auto simp: isalloc_def s')
  have k: "k \<le> MAX_ORDER" using d(7) [of p k] f by (simp add: block_def)
  have notin: "p \<notin> set (free_list s j)" if "j \<le> MAX_ORDER" "j \<noteq> k" for j using d(3) [OF that(1), of p] that pf(2) by (simp add: isfree_def)
  have mem: "p \<in> set (free_list s k)" using d(3) [OF k] f by simp
  have lists: "lists_ok s'"
    unfolding lists_ok_def
  proof (intro allI impI conjI)
    fix j assume j: "j \<le> MAX_ORDER"
    show "distinct (free_list s' j)" using d(1) [OF j] by (simp add: s')
    show "nr_free s' j = length (free_list s' j)"
      using d(2) [OF j] notin [OF j] mem by (cases "j = k") (auto simp: s' remove1_idem length_remove1)
    show "q \<in> set (free_list s' j) \<longleftrightarrow> isfree s' q j" for q
      using d(1,3) [OF j] by (simp add: s' fr set_remove1_eq)
  qed
  have pages: "pages_ok s' (insert (p, k) P)"
    unfolding pages_ok_def
  proof (intro conjI allI impI ballI)
    fix x assume "x \<in> insert (p, k) P"
    then show "case x of (p, k) \<Rightarrow> \<not> page_test_flag (mem_map s' p) PG_BUDDY \<and> refcount (mem_map s' p) = 0"
      using d(4) [OF pf(3,1)] d(6) by (auto simp: s' split: if_splits)
  qed (use d(4,5) in \<open>auto simp: s' split: if_splits\<close>)
  have "block s' (insert (p, k) P) q j \<longleftrightarrow> block s P q j" for q j
    using fr al f pf(2) by (auto simp: block_def isfree_def)
  then have "blocks_ok s' (insert (p, k) P)"
    using inv blocks_ok_cong [of s' "insert (p, k) P" s P] s'(2) unfolding buddy_inv_def by blast
  moreover have "coalesced s'" using d(9) by (simp add: coalesced_def fr)
  ultimately have "buddy_inv s' (insert (p, k) P)" using lists pages by (simp add: buddy_inv_def)
  moreover have "free_sum s = free_sum s' + 2 ^ k"
  proof -
    have "length (free_list s' j) = length (free_list s j)" if "j \<le> MAX_ORDER" "j \<noteq> k" for j
      using notin [OF that] by (simp add: s' remove1_idem)
    note u = free_sum_upd [OF k this]
    have "length (free_list s k) = Suc (length (free_list s' k))"
      using mem length_pos_if_in_set [OF mem] by (simp add: s' length_remove1)
    then show ?thesis using u by simp
  qed
  moreover have "isfree s q j \<longleftrightarrow> isfree s' q j \<or> (q, j) = (p, k)" for q j unfolding fr using f by (auto simp: isfree_def)
  then have "avail s' (insert (p, k) P) = avail s P" by (auto simp: avail_def)
  moreover have "page_test_flag (mem_map s' q) PG_SLAB = page_test_flag (mem_map s q) PG_SLAB" for q by (simp add: s')
  ultimately show thesis using that [of s'] s'(1-3) fr al by (simp add: keeps_def)
qed

lemma add_ok:
  assumes inv: "buddy_inv s (insert (p, k) P)" and new: "(p, k) \<notin> P" and nb: "k < MAX_ORDER \<Longrightarrow> \<not> isfree s (p XOR 2 ^ k) k"
  obtains s' where "buddy_add_free_block p k t s = Some s'" "keeps s (insert (p, k) P) s' P" "free_sum s' = free_sum s + 2 ^ k"
    "\<And>q j. isfree s' q j \<longleftrightarrow> isfree s q j \<or> (q, j) = (p, k)"
proof -
  note d = buddy_invD [OF inv]
  have b: "k \<le> MAX_ORDER" "2 ^ k dvd p" "p + 2 ^ k \<le> total_pages s" using d(7) [of p k] by (auto simp: block_def)
  have pt: "p < total_pages s" using b(3) pow_pos [of k] by linarith
  have pp: "\<not> page_test_flag (mem_map s p) PG_BUDDY" "refcount (mem_map s p) = 0" using d(6) [of p k] by auto
  define s' where "s' = the (buddy_add_free_block p k t s)"
  have s': "buddy_add_free_block p k t s = Some s'" "total_pages s' = total_pages s" "nr_free_pages s' = nr_free_pages s"
    "mem_map s' = (mem_map s)(p := \<lparr>flags = BIT PG_BUDDY, order = k, refcount = 0\<rparr>)"
    "free_list s' = (free_list s)(k := (if t then free_list s k @ [p] else p # free_list s k))"
    "nr_free s' = (nr_free s)(k := nr_free s k + 1)"
    using pt b(1) by (auto simp: s'_def buddy_add_free_block_def Let_def upd_page_def not_le)
  have fr: "isfree s' q j \<longleftrightarrow> isfree s q j \<or> (q, j) = (p, k)" for q j using pp(1) pt by (auto simp: isfree_def s')
  have al: "isalloc s' q j \<longleftrightarrow> isalloc s q j" for q j using pp(2) by (auto simp: isalloc_def s')
  have nin: "p \<notin> set (free_list s k)" using d(3) [OF b(1)] pp(1) by (simp add: isfree_def)
  have lists: "lists_ok s'"
    unfolding lists_ok_def
  proof (intro allI impI conjI)
    fix j assume j: "j \<le> MAX_ORDER"
    show "distinct (free_list s' j)" using d(1) [OF j] nin by (auto simp: s')
    show "nr_free s' j = length (free_list s' j)" using d(2) [OF j] by (auto simp: s')
    show "q \<in> set (free_list s' j) \<longleftrightarrow> isfree s' q j" for q using d(3) [OF j] by (auto simp: s' fr)
  qed
  have pages: "pages_ok s' P"
    unfolding pages_ok_def
  proof (intro conjI allI impI ballI)
    fix x assume x: "x \<in> P"
    obtain q j where qj: "x = (q, j)" by fastforce
    have "q \<noteq> p"
      using d(8) [of q j p k] x new qj by (auto simp: block_def apart_def)
    then show "case x of (p, k) \<Rightarrow> \<not> page_test_flag (mem_map s' p) PG_BUDDY \<and> refcount (mem_map s' p) = 0"
      using d(6) [of q j] x qj by (simp add: s')
  qed (use d(4,5) in \<open>auto simp: s'\<close>)
  have "block s' P q j \<longleftrightarrow> block s (insert (p, k) P) q j" for q j using fr al by (auto simp: block_def)
  then have "blocks_ok s' P"
    using inv blocks_ok_cong [of s' P s "insert (p, k) P"] s'(2) unfolding buddy_inv_def by blast
  moreover have "coalesced s'"
    unfolding coalesced_def
  proof (intro allI impI)
    fix q j assume j: "j < MAX_ORDER" and q: "isfree s' q j"
    show "\<not> isfree s' (q XOR 2 ^ j) j"
    proof
      assume q': "isfree s' (q XOR 2 ^ j) j"
      have bk: "(q XOR 2 ^ j) XOR 2 ^ j = q" by (simp add: xor.assoc)
      have "isfree s q j \<and> (q XOR 2 ^ j, j) = (p, k) \<or> isfree s (q XOR 2 ^ j) j \<and> (q, j) = (p, k) \<or>
          (q, j) = (p, k) \<and> (q XOR 2 ^ j, j) = (p, k)"
        using d(9) [OF j, of q] q q' unfolding fr by blast
      then show False using nb bk buddy_aligned(2) [OF b(2)] j by auto
    qed
  qed
  ultimately have "buddy_inv s' P" using lists pages by (simp add: buddy_inv_def)
  moreover have "free_sum s' = free_sum s + 2 ^ k"
    using free_sum_upd [OF b(1), of s' s] by (cases t) (simp_all add: s' algebra_simps)
  moreover have "avail s' P = avail s (insert (p, k) P)" by (auto simp: avail_def fr)
  moreover have "isalloc s q j \<Longrightarrow> page_test_flag (mem_map s' q) PG_SLAB = page_test_flag (mem_map s q) PG_SLAB" for q j
    using pp(2) by (auto simp: s' isalloc_def)
  ultimately show thesis using that [of s'] s'(1-3) fr al by (simp add: keeps_def)
qed


subsection \<open>Halving and joining the block in hand\<close>

lemma blk_halves: "blk p (Suc c) = blk p c \<union> blk (p + 2 ^ c) c"
  by (auto simp: blk_def)

lemma apart_disjoint: "apart p k q j \<longleftrightarrow> blk p k \<inter> blk q j = {}"
proof -
  have "p + 2 ^ k \<le> q \<or> q + 2 ^ j \<le> p" if e: "blk p k \<inter> blk q j = {}"
  proof (rule ccontr)
    assume "\<not> ?thesis"
    then have "max p q \<in> blk p k \<inter> blk q j" by (auto simp: blk_def max_def)
    then show False using e by simp
  qed
  then show ?thesis by (auto simp: apart_def blk_def)
qed

lemma apart_halves: "apart q j p (Suc c) \<longleftrightarrow> apart q j p c \<and> apart q j (p + 2 ^ c) c"
  unfolding apart_disjoint blk_halves by blast

lemma apart_sym: "apart p k q j \<longleftrightarrow> apart q j p k"
  by (auto simp: apart_def)

lemma avail_insert: "avail s (insert (p, k) P) = avail s P \<union> blk p k"
  by (auto simp: avail_def)

lemma avail_free: "avail s P = free_frames s \<union> (\<Union>(p, k) \<in> P. blk p k)"
  by (auto simp: avail_def)

lemma in_hand:
  assumes inv: "buddy_inv s (insert (p, k) P)" and new: "(p, k) \<notin> P"
  shows "\<not> block s P p j"
proof
  assume b: "block s P p j"
  note d = buddy_invD [OF inv]
  have "(p, k) = (p, j) \<or> apart p k p j" using d(8) [of p k p j] b by (auto simp: block_def)
  then have "k = j" by (auto simp: apart_def)
  then show False using b new d(6) [of p k] by (auto simp: block_def isfree_def isalloc_def)
qed

lemma in_hand_disjoint:
  assumes inv: "buddy_inv s (insert (p, k) P)" and new: "(p, k) \<notin> P"
  shows "avail s P \<inter> blk p k = {}" "isalloc s q j \<Longrightarrow> blk q j \<inter> blk p k = {}"
proof -
  have "blk q j \<inter> blk p k = {}" if b: "block s P q j" for q j
  proof -
    have "(q, j) \<noteq> (p, k)" using in_hand [OF inv new] b by auto
    then show ?thesis
      using buddy_invD(8) [OF inv, of q j p k] b unfolding apart_disjoint by (auto simp: block_def)
  qed
  then show "avail s P \<inter> blk p k = {}" "isalloc s q j \<Longrightarrow> blk q j \<inter> blk p k = {}"
    by (auto simp: avail_def block_def)
qed

lemma blocks_split:
  assumes b: "blocks_ok s (insert (p, Suc c) P)" and new: "\<not> block s P p (Suc c)"
  shows "blocks_ok s (insert (p, c) (insert (p + 2 ^ c, c) P))"
proof -
  let ?Q = "insert (p, c) (insert (p + 2 ^ c, c) P)"
  have old: "block s (insert (p, Suc c) P) p (Suc c)" by (simp add: block_def)
  have B: "block s ?Q q j \<longleftrightarrow> block s P q j \<or> (q, j) = (p, c) \<or> (q, j) = (p + 2 ^ c, c)" for q j by (auto simp: block_def)
  have A: "block s P q j \<Longrightarrow> apart q j p (Suc c)" for q j
    using b old new unfolding blocks_ok_def by (metis block_def insert_iff prod.inject)
  have h: "Suc c \<le> MAX_ORDER" "2 ^ Suc c dvd p" "p + 2 ^ Suc c \<le> total_pages s" using b old unfolding blocks_ok_def by blast+
  have e: "2 ^ c dvd p" using h(2) by (metis dvd_mult_right power_Suc)
  show ?thesis
    unfolding blocks_ok_def
  proof (intro conjI allI impI)
    fix q j assume "block s ?Q q j"
    then consider "block s P q j" | "(q, j) = (p, c)" | "(q, j) = (p + 2 ^ c, c)" unfolding B by blast
    then have "j \<le> MAX_ORDER \<and> 2 ^ j dvd q \<and> q + 2 ^ j \<le> total_pages s"
    proof cases
      case 1
      then have "block s (insert (p, Suc c) P) q j" by (auto simp: block_def)
      then show ?thesis using b unfolding blocks_ok_def by blast
    qed (use h e in simp_all)
    then show "j \<le> MAX_ORDER" "2 ^ j dvd q" "q + 2 ^ j \<le> total_pages s" by simp_all
  next
    fix q j q' j' assume "block s ?Q q j" "block s ?Q q' j'"
    moreover have "(q, j) = (q', j') \<or> apart q j q' j'" if "block s P q j" "block s P q' j'"
      using b that unfolding blocks_ok_def by (meson block_def insert_iff)
    moreover have "apart p c (p + 2 ^ c) c" by (simp add: apart_def)
    ultimately show "(q, j) = (q', j') \<or> apart q j q' j'"
      using A [of q j] A [of q' j'] unfolding B apart_halves by (metis apart_sym prod.inject)
  qed
qed

lemma blocks_join:
  assumes b: "blocks_ok s (insert (p, c) (insert (p + 2 ^ c, c) P))" and new: "\<not> block s P p c" "\<not> block s P (p + 2 ^ c) c"
    and c: "c < MAX_ORDER" and dvd: "2 ^ Suc c dvd p"
  shows "blocks_ok s (insert (p, Suc c) P)"
proof -
  let ?Q = "insert (p, c) (insert (p + 2 ^ c, c) P)" and ?R = "insert (p, Suc c) P"
  have old: "block s ?Q p c" "block s ?Q (p + 2 ^ c) c" by (simp_all add: block_def)
  have B: "block s ?R q j \<longleftrightarrow> block s P q j \<or> (q, j) = (p, Suc c)" for q j by (auto simp: block_def)
  have Q: "block s P q j \<Longrightarrow> block s ?Q q j" for q j by (auto simp: block_def)
  have A: "apart q j p c \<and> apart q j (p + 2 ^ c) c" if "block s P q j" for q j
    using b old new Q [OF that] that unfolding blocks_ok_def by (metis prod.inject)
  have h: "p + 2 ^ c + 2 ^ c \<le> total_pages s" using b old unfolding blocks_ok_def by blast
  show ?thesis
    unfolding blocks_ok_def
  proof (intro conjI allI impI)
    fix q j assume "block s ?R q j"
    then consider "block s P q j" | "(q, j) = (p, Suc c)" unfolding B by blast
    then have "j \<le> MAX_ORDER \<and> 2 ^ j dvd q \<and> q + 2 ^ j \<le> total_pages s"
    proof cases
      case 1
      then show ?thesis using b Q unfolding blocks_ok_def by blast
    qed (use h c dvd in simp)
    then show "j \<le> MAX_ORDER" "2 ^ j dvd q" "q + 2 ^ j \<le> total_pages s" by simp_all
  next
    fix q j q' j' assume "block s ?R q j" "block s ?R q' j'"
    moreover have "(q, j) = (q', j') \<or> apart q j q' j'" if "block s P q j" "block s P q' j'"
      using b Q [OF that(1)] Q [OF that(2)] unfolding blocks_ok_def by blast
    ultimately show "(q, j) = (q', j') \<or> apart q j q' j'"
      using A [of q j] A [of q' j'] unfolding B apart_halves [symmetric] by (metis apart_sym prod.inject)
  qed
qed

lemma hand_split:
  assumes inv: "buddy_inv s (insert (p, Suc c) P)" and new: "(p, Suc c) \<notin> P"
  shows "buddy_inv s (insert (p, c) (insert (p + 2 ^ c, c) P))" "(p, c) \<notin> insert (p + 2 ^ c, c) P"
proof -
  note d = buddy_invD [OF inv]
  let ?q = "p + 2 ^ c"
  have nb: "\<not> block s P p j" for j by (rule in_hand [OF inv new])
  then show "(p, c) \<notin> insert (?q, c) P" by (simp add: block_def)
  have "\<not> block s P ?q j" for j
  proof
    assume "block s P ?q j"
    then have "apart p (Suc c) ?q j" using d(8) [of p "Suc c" ?q j] by (auto simp: block_def)
    then show False by (auto simp: apart_def)
  qed
  moreover have "?q < total_pages s"
  proof -
    have "p + 2 ^ Suc c \<le> total_pages s" using d(7) [of p "Suc c"] by (simp add: block_def)
    then show ?thesis using pow_pos [of c] unfolding power_Suc by linarith
  qed
  ultimately have "\<not> page_test_flag (mem_map s ?q) PG_BUDDY" "refcount (mem_map s ?q) = 0"
    unfolding block_def isfree_def isalloc_def neq0_conv [symmetric] by blast+
  then have "pages_ok s (insert (p, c) (insert (?q, c) P))"
    using inv d(6) [of p "Suc c"] by (auto simp: buddy_inv_def pages_ok_def)
  then show "buddy_inv s (insert (p, c) (insert (?q, c) P))"
    using inv nb blocks_split [of s p c P] by (simp add: buddy_inv_def)
qed

lemma hand_join:
  assumes inv: "buddy_inv s {(p, c), (p XOR 2 ^ c, c)}" and c: "c < MAX_ORDER"
  shows "buddy_inv s {(min p (p XOR 2 ^ c), Suc c)}"
proof -
  define m where "m = min p (p XOR 2 ^ c)"
  note d = buddy_invD [OF inv]
  have al: "2 ^ c dvd p" using d(7) [of p c] by (simp add: block_def)
  note ba = buddy_aligned [OF al]
  have mx: "max p (p XOR 2 ^ c) = m + 2 ^ c" using ba(5) by (simp add: m_def)
  then have e: "{(p, c), (p XOR 2 ^ c, c)} = {(m, c), (m + 2 ^ c, c)}"
    by (auto simp: m_def min_def max_def split: if_splits)
  have "\<not> block s {} q c" if "(q, c) \<in> {(p, c), (p XOR 2 ^ c, c)}" for q
    using d(6) [OF that] by (auto simp: block_def isfree_def isalloc_def)
  then have nb: "\<not> block s {} m c" "\<not> block s {} (m + 2 ^ c) c" unfolding e by auto
  have "2 ^ Suc c dvd m" using ba(4) by (simp add: m_def)
  then have "blocks_ok s {(m, Suc c)}"
    using blocks_join [of s m c "{}", OF _ nb c] inv unfolding e buddy_inv_def by blast
  moreover have "pages_ok s {(m, Suc c)}" using inv unfolding e by (auto simp: buddy_inv_def pages_ok_def)
  ultimately show ?thesis using inv by (simp add: buddy_inv_def m_def)
qed


subsection \<open>The loops\<close>

lemma split_ok:
  assumes "buddy_inv s {(p, c)}" and "k \<le> c"
  shows "\<exists>s'. buddy_split p k c s = Some s' \<and> keeps s {(p, c)} s' {(p, k)} \<and> free_sum s' + 2 ^ k = free_sum s + 2 ^ c"
  using assms
proof (induction c arbitrary: s)
  case 0
  then show ?case by (simp add: keeps_def)
next
  case (Suc c)
  show ?case
  proof (cases "k = Suc c")
    case True
    then show ?thesis using Suc.prems by (simp add: keeps_def)
  next
    case False
    let ?q = "p + 2 ^ c"
    have h: "buddy_inv s (insert (?q, c) {(p, c)})" "(p, c) \<noteq> (?q, c)"
      using hand_split [of s p c "{}"] Suc.prems(1) by (simp_all add: insert_commute)
    have "2 ^ Suc c dvd p" using buddy_invD(7) [OF Suc.prems(1), of p "Suc c"] by (simp add: block_def)
    then have "2 ^ c dvd p" "2 ^ Suc c dvd p" by (metis dvd_mult_right power_Suc)+
    then have "p XOR 2 ^ c = ?q" using buddy_xor(1) [of c p] by simp
    then have "?q XOR 2 ^ c = p" using buddy_aligned(3) [OF \<open>2 ^ c dvd p\<close>] by simp
    moreover have "\<not> isfree s p c" using buddy_invD(6) [OF h(1), of p c] by (simp add: isfree_def)
    ultimately obtain s1 where s1: "buddy_add_free_block ?q c False s = Some s1" "keeps s {(?q, c), (p, c)} s1 {(p, c)}"
      "free_sum s1 = free_sum s + 2 ^ c"
      using add_ok [OF h(1), of False] h(2) by (metis singletonD)
    obtain s' where s': "buddy_split p k c s1 = Some s'" "keeps s1 {(p, c)} s' {(p, k)}" "free_sum s' + 2 ^ k = free_sum s1 + 2 ^ c"
      using Suc.IH [OF keeps_inv [OF s1(2)]] Suc.prems(2) False by auto
    have "avail s {(p, Suc c)} = avail s {(?q, c), (p, c)}" by (auto simp: avail_insert blk_halves)
    then have "keeps s {(p, Suc c)} s' {(p, k)}" using keeps_trans [OF s1(2) s'(2)] by (simp add: keeps_def)
    then show ?thesis using s1 s' Suc.prems(2) False by simp
  qed
qed

lemma merge_ok:
  assumes "buddy_inv s {(p, k)}"
  shows "\<exists>p' k' s'. buddy_merge p k s = Some (p', k', s') \<and> keeps s {(p, k)} s' {(p', k')} \<and>
    free_sum s' + 2 ^ k' = free_sum s + 2 ^ k \<and> (k' < MAX_ORDER \<longrightarrow> \<not> isfree s' (p' XOR 2 ^ k') k')"
  using assms
proof (induction p k s rule: buddy_merge.induct)
  case (1 p k s)
  let ?b = "p XOR 2 ^ k"
  show ?case
  proof (cases "k < MAX_ORDER \<and> isfree s ?b k")
    case False
    then have "buddy_merge p k s = Some (p, k, s)" by (auto simp: buddy_merge.simps [of p k s] isfree_def Let_def)
    then show ?thesis using False 1(2) by (auto simp: keeps_def)
  next
    case True
    then have f: "?b < total_pages s" "page_test_flag (mem_map s ?b) PG_BUDDY" "order (mem_map s ?b) = k" by (auto simp: isfree_def)
    obtain s1 where s1: "buddy_remove_free_block ?b s = Some s1" "keeps s {(p, k)} s1 {(?b, k), (p, k)}" "free_sum s = free_sum s1 + 2 ^ k"
      using remove_ok [OF 1(2)] True by metis
    have inv1: "buddy_inv s1 {(p, k), (?b, k)}" using s1(2) by (simp add: keeps_def insert_commute)
    have "2 ^ k dvd p" using buddy_invD(7) [OF 1(2), of p k] by (simp add: block_def)
    note ba = buddy_aligned [OF this]
    let ?m = "if p < ?b then p else ?b"
    have m: "?m = min p ?b" by (simp add: min_def)
    have "buddy_inv s1 {(?m, k + 1)}" using hand_join [OF inv1] True m by simp
    then obtain p' k' s' where s': "buddy_merge ?m (k + 1) s1 = Some (p', k', s')" "keeps s1 {(?m, k + 1)} s' {(p', k')}"
      "free_sum s' + 2 ^ k' = free_sum s1 + 2 ^ (k + 1)" "k' < MAX_ORDER \<longrightarrow> \<not> isfree s' (p' XOR 2 ^ k') k'"
      using 1(1) [OF _ refl _ _ _ s1(1)] True f by fastforce
    have "blk ?m (Suc k) = blk p k \<union> blk ?b k" using ba(5) by (auto simp: blk_halves min_def max_def split: if_splits)
    then have "avail s1 {(?m, k + 1)} = avail s1 {(?b, k), (p, k)}" by (auto simp: avail_insert)
    then have "keeps s {(p, k)} s' {(p', k')}" using s1(2) s'(2) by (auto simp: keeps_def)
    moreover have "buddy_merge p k s = Some (p', k', s')"
      using True f s1(1) s'(1) by (simp add: buddy_merge.simps [of p k s] Let_def)
    ultimately show ?thesis using s1(3) s'(3,4) by simp
  qed
qed


subsection \<open>Handing out and taking back\<close>

lemma nr_free_pages_simps [simp]:
  "isfree (s\<lparr>nr_free_pages := n\<rparr>) = isfree s" "isalloc (s\<lparr>nr_free_pages := n\<rparr>) = isalloc s"
  "avail (s\<lparr>nr_free_pages := n\<rparr>) P = avail s P" "free_sum (s\<lparr>nr_free_pages := n\<rparr>) = free_sum s"
  "buddy_inv (s\<lparr>nr_free_pages := n\<rparr>) P = buddy_inv s P"
proof -
  show i: "isfree (s\<lparr>nr_free_pages := n\<rparr>) = isfree s" "isalloc (s\<lparr>nr_free_pages := n\<rparr>) = isalloc s"
    by (auto simp: isfree_def isalloc_def fun_eq_iff)
  show "avail (s\<lparr>nr_free_pages := n\<rparr>) P = avail s P" "free_sum (s\<lparr>nr_free_pages := n\<rparr>) = free_sum s"
    by (simp_all add: avail_def free_sum_def i)
  show "buddy_inv (s\<lparr>nr_free_pages := n\<rparr>) P = buddy_inv s P"
    by (simp add: buddy_inv_def lists_ok_def pages_ok_def blocks_ok_def coalesced_def block_def i)
qed

text \<open>The descriptor of a block changes between at hand and allocated: the free blocks stay, and so does the set of all blocks.\<close>

lemma inv_desc:
  assumes inv: "buddy_inv s P" and s': "s' = upd_page p f s"
    and np: "\<not> page_test_flag (mem_map s p) PG_BUDDY" "\<not> page_test_flag (f (mem_map s p)) PG_BUDDY" "\<not> page_test_flag (f (mem_map s p)) PG_RESERVED"
    and blocks: "\<And>q j. block s' P' q j \<longleftrightarrow> block s P q j"
    and hand: "\<And>q j. (q, j) \<in> P' \<Longrightarrow> \<not> page_test_flag (mem_map s' q) PG_BUDDY \<and> refcount (mem_map s' q) = 0"
  shows "buddy_inv s' P'" "isfree s' = isfree s" "free_sum s' = free_sum s"
proof -
  note d = buddy_invD [OF inv]
  have fs: "total_pages s' = total_pages s" "free_list s' = free_list s" "nr_free s' = nr_free s" "mem_map s' = (mem_map s)(p := f (mem_map s p))"
    by (simp_all add: s' upd_page_def)
  show fr: "isfree s' = isfree s" using np(1,2) by (auto simp: isfree_def fs fun_eq_iff)
  show "free_sum s' = free_sum s" by (simp add: free_sum_def fs)
  have "lists_ok s'" using inv by (simp add: buddy_inv_def lists_ok_def fs fr)
  moreover have "coalesced s'" using inv by (simp add: buddy_inv_def coalesced_def fr)
  moreover have "blocks_ok s' P'" using inv blocks_ok_cong [of s' P' s P] blocks fs(1) unfolding buddy_inv_def by blast
  moreover have "pages_ok s' P'"
    unfolding pages_ok_def
  proof (intro conjI allI impI ballI)
    fix x assume "x \<in> P'"
    then show "case x of (q, j) \<Rightarrow> \<not> page_test_flag (mem_map s' q) PG_BUDDY \<and> refcount (mem_map s' q) = 0" using hand by auto
  qed (use d(4,5) np in \<open>auto simp: fs split: if_splits\<close>)
  ultimately show "buddy_inv s' P'" by (simp add: buddy_inv_def)
qed

lemma hand_out:
  assumes inv: "buddy_inv s {(p, k)}" and s': "s' = upd_page p (\<lambda>_. \<lparr>flags = 0, order = k, refcount = 1\<rparr>) s"
  shows "buddy_inv s' {}" "isfree s' = isfree s" "free_sum s' = free_sum s" "isalloc s' q j \<longleftrightarrow> isalloc s q j \<or> (q, j) = (p, k)"
proof -
  note d = buddy_invD [OF inv]
  have pp: "\<not> page_test_flag (mem_map s p) PG_BUDDY" "refcount (mem_map s p) = 0" using d(6) [of p k] by auto
  have "p + 2 ^ k \<le> total_pages s" using d(7) [of p k] by (simp add: block_def)
  then have pt: "p < total_pages s" using pow_pos [of k] by linarith
  have fr: "isfree s' q j = isfree s q j" for q j using pp by (auto simp: isfree_def s' upd_page_def)
  show al: "isalloc s' q j \<longleftrightarrow> isalloc s q j \<or> (q, j) = (p, k)" for q j using pp pt by (auto simp: isalloc_def s' upd_page_def)
  have "block s' {} q j \<longleftrightarrow> block s {(p, k)} q j" for q j by (auto simp: block_def fr al)
  from inv_desc [OF inv s' pp(1) _ _ this] show "buddy_inv s' {}" "isfree s' = isfree s" "free_sum s' = free_sum s" by simp_all
qed

lemma take_back:
  assumes inv: "buddy_inv s {}" and a: "isalloc s p k" and s': "s' = upd_page p (\<lambda>p. p\<lparr>flags := 0, refcount := 0\<rparr>) s"
  shows "buddy_inv s' {(p, k)}" "isfree s' = isfree s" "free_sum s' = free_sum s" "isalloc s' q j \<longleftrightarrow> isalloc s q j \<and> (q, j) \<noteq> (p, k)"
proof -
  note d = buddy_invD [OF inv]
  have pp: "\<not> page_test_flag (mem_map s p) PG_BUDDY" "order (mem_map s p) = k" using d(4) [of p] a by (auto simp: isalloc_def)
  have fr: "isfree s' q j = isfree s q j" for q j using pp by (auto simp: isfree_def s' upd_page_def)
  show al: "isalloc s' q j \<longleftrightarrow> isalloc s q j \<and> (q, j) \<noteq> (p, k)" for q j using pp by (auto simp: isalloc_def s' upd_page_def)
  have "block s' {(p, k)} q j \<longleftrightarrow> block s {} q j" for q j using a by (auto simp: block_def fr al)
  from inv_desc [OF inv s' pp(1) _ _ this] show "buddy_inv s' {(p, k)}" "isfree s' = isfree s" "free_sum s' = free_sum s"
    by (simp_all add: s' upd_page_def)
qed

lemma avail_cong: "isfree s' = isfree s \<Longrightarrow> avail s' P = avail s P"
  by (simp add: avail_def)


section \<open>The operations\<close>

definition buddy_wf :: "buddy \<Rightarrow> bool" where
  "buddy_wf s \<longleftrightarrow> buddy_inv s {} \<and> nr_free_pages s = free_sum s \<and> total_pages s \<le> 65536"

lemma find_None: "List.find P xs = None \<longleftrightarrow> (\<forall>x \<in> set xs. \<not> P x)"
  by (induction xs) auto

lemma no_free_block:
  assumes "buddy_inv s {}"
  shows "(\<forall>c \<in> set [k..<MAX_ORDER + 1]. free_list s c = []) \<longleftrightarrow> \<not> (\<exists>p j. k \<le> j \<and> isfree s p j)"
proof -
  have "isfree s p j \<Longrightarrow> j \<le> MAX_ORDER" for p j using buddy_invD(7) [OF assms, of p j] by (simp add: block_def)
  moreover have "c \<in> set [k..<MAX_ORDER + 1] \<longleftrightarrow> k \<le> c \<and> c \<le> MAX_ORDER" for c by (auto simp: less_Suc_eq_le)
  moreover have "free_list s c = [] \<longleftrightarrow> (\<forall>p. \<not> isfree s p c)" if "c \<le> MAX_ORDER" for c
    using buddy_invD(3) [OF assms that] by (cases "free_list s c") auto
  ultimately show ?thesis by blast
qed

lemma get_free_pfn_ok:
  assumes wf: "buddy_wf s"
  obtains (none) "get_free_pfn k s = Some (None, s)" "\<not> (\<exists>p j. k \<le> j \<and> isfree s p j)"
  | (some) p s' where "get_free_pfn k s = Some (Some p, s')" "buddy_wf s'" "k \<le> MAX_ORDER" "2 ^ k dvd p" "p + 2 ^ k \<le> total_pages s"
    "blk p k \<subseteq> free_frames s" "free_frames s' = free_frames s - blk p k" "\<And>q j. isalloc s' q j \<longleftrightarrow> isalloc s q j \<or> (q, j) = (p, k)"
    "\<And>q j. isalloc s q j \<Longrightarrow> page_test_flag (mem_map s' q) PG_SLAB = page_test_flag (mem_map s q) PG_SLAB"
    "\<not> page_test_flag (mem_map s' p) PG_SLAB" "total_pages s' = total_pages s"
proof -
  have inv: "buddy_inv s {}" and nr: "nr_free_pages s = free_sum s" "total_pages s \<le> 65536" using wf by (auto simp: buddy_wf_def)
  note d = buddy_invD [OF inv]
  let ?f = "List.find (\<lambda>c. free_list s c \<noteq> []) [k..<MAX_ORDER + 1]"
  show thesis
  proof (cases ?f)
    case None
    then have "get_free_pfn k s = Some (None, s)" unfolding get_free_pfn_def None by simp
    then show thesis using none no_free_block [OF inv, of k] None unfolding find_None by blast
  next
    case (Some c)
    then have c: "k \<le> c" "c \<le> MAX_ORDER" "free_list s c \<noteq> []" using find_SomeD [OF Some] by auto
    define p where "p = hd (free_list s c)"
    have fr: "isfree s p c" using d(3) [OF c(2), of p] hd_in_set [OF c(3)] by (simp add: p_def)
    then have pf: "p < total_pages s" "page_test_flag (mem_map s p) PG_BUDDY" "order (mem_map s p) = c" by (auto simp: isfree_def)
    obtain s1 where s1: "buddy_remove_free_block p s = Some s1" "keeps s {} s1 {(p, c)}" "free_sum s = free_sum s1 + 2 ^ c"
      using remove_ok [OF inv fr] by metis
    obtain s2 where s2: "buddy_split p k c s1 = Some s2" "keeps s1 {(p, c)} s2 {(p, k)}" "free_sum s2 + 2 ^ k = free_sum s1 + 2 ^ c"
      using split_ok [OF keeps_inv [OF s1(2)] c(1)] by blast
    note kp = keeps_trans [OF s1(2) s2(2)]
    have i2: "buddy_inv s2 {(p, k)}" by (rule keeps_inv [OF kp])
    define s3 where "s3 = upd_page p (\<lambda>_. \<lparr>flags = 0, order = k, refcount = 1\<rparr>) s2"
    note h = hand_out [OF i2 s3_def]
    let ?s = "s3\<lparr>nr_free_pages := nr_free_pages s3 - 2 ^ k\<rparr>"
    have f3: "nr_free_pages s3 = nr_free_pages s" "total_pages s3 = total_pages s"
      "mem_map s3 = (mem_map s2)(p := \<lparr>flags = 0, order = k, refcount = 1\<rparr>)"
      using kp by (simp_all add: s3_def upd_page_def keeps_def)
    have get: "get_free_pfn k s = Some (Some p, ?s)"
      using Some c pf s1(1) s2(1) by (simp add: get_free_pfn_def Let_def s3_def flip: p_def)
    have "free_sum ?s = free_sum s - 2 ^ k" using h(3) s1(3) s2(3) by simp
    then have w: "buddy_wf ?s" using h(1) f3 nr by (simp add: buddy_wf_def)
    have av: "free_frames s = free_frames s2 \<union> blk p k" using kp by (simp add: keeps_def avail_insert)
    moreover have "free_frames s2 \<inter> blk p k = {}" using in_hand_disjoint(1) [OF i2] by simp
    ultimately have ff: "free_frames ?s = free_frames s - blk p k" "blk p k \<subseteq> free_frames s"
      using avail_cong [OF h(2)] by auto
    have sh: "2 ^ k dvd p" "p + 2 ^ k \<le> total_pages s" using buddy_invD(7) [OF i2, of p k] kp by (auto simp: block_def keeps_def)
    have al: "isalloc ?s q j \<longleftrightarrow> isalloc s q j \<or> (q, j) = (p, k)" for q j using h(4) kp by (simp add: keeps_def)
    have sl: "page_test_flag (mem_map ?s q) PG_SLAB = page_test_flag (mem_map s q) PG_SLAB" if "isalloc s q j" for q j
    proof -
      have "q \<noteq> p" using that d(4) [OF pf(1,2)] by (auto simp: isalloc_def)
      then show ?thesis using kp that by (auto simp: f3 keeps_def)
    qed
    show thesis using some [OF get w _ sh ff(2,1) al sl] c by (simp add: f3)
  qed
qed


lemma and_pow_eq_0: "n AND (2 ^ k - Suc 0) = 0 \<longleftrightarrow> 2 ^ k dvd (n :: nat)"
proof -
  have "n AND (2 ^ k - Suc 0) = take_bit k n" by (simp add: take_bit_eq_mask mask_eq_exp_minus_1)
  then show ?thesis by (simp add: take_bit_eq_0_iff)
qed

lemma aligned_page: "IS_ALIGNED va PAGE_SIZE \<longleftrightarrow> 4096 dvd unat va"
proof -
  have "va AND (4096 - 1) = take_bit 12 va" by (simp add: take_bit_eq_mask mask_eq_exp_minus_1)
  then have "IS_ALIGNED va PAGE_SIZE \<longleftrightarrow> take_bit 12 va = 0" by (simp add: IS_ALIGNED_def PAGE_SIZE_def)
  also have "\<dots> \<longleftrightarrow> take_bit 12 (unat va) = 0" by (metis unat_0 unsigned_take_bit_eq word_unat_eq_iff)
  finally show ?thesis by (simp add: take_bit_eq_0_iff)
qed

lemma unat_pfn_to_virt: "p < 65536 \<Longrightarrow> unat (pfn_to_virt p) = 0xFFFFFFC080000000 + p * 4096"
  by (simp add: pfn_to_virt_def va_of_def DRAM_BASE_def KERNEL_VBASE_def PAGE_SIZE_def unat_word_ariths unat_of_nat)

lemma pfn_virt:
  assumes "total_pages s \<le> 65536"
  shows "p < total_pages s \<Longrightarrow> virt_to_pfn_checked s (pfn_to_virt p) = Some p" "p < total_pages s \<Longrightarrow> pfn_to_virt p \<noteq> 0"
    "virt_to_pfn_checked s va = Some p \<Longrightarrow> va = pfn_to_virt p \<and> p < total_pages s"
proof -
  define a :: u64 where "a = 0xFFFFFFC080000000"
  have a: "va_of DRAM_BASE = a" by (simp add: a_def va_of_def DRAM_BASE_def KERNEL_VBASE_def)
  have ua: "unat a = 0xFFFFFFC080000000" "unat (a + DRAM_SIZE) = 0xFFFFFFC090000000" by (simp_all add: a_def DRAM_SIZE_def)
  have V: "virt_to_pfn_checked s va = (if unat va < 0xFFFFFFC080000000 \<or> unat va \<ge> 0xFFFFFFC090000000 \<or> \<not> 4096 dvd unat va then None
      else if (unat va - 0xFFFFFFC080000000) div 4096 < total_pages s then Some ((unat va - 0xFFFFFFC080000000) div 4096) else None)" for va
  proof (cases "unat va < 0xFFFFFFC080000000")
    case True
    then have "va < a" by (simp add: word_less_nat_alt ua)
    then show ?thesis using True by (simp add: virt_to_pfn_checked_def Let_def a)
  next
    case False
    then have ge: "a \<le> va" "va \<noteq> 0" by (auto simp: word_le_nat_alt ua)
    then have "unat (va - a) = unat va - 0xFFFFFFC080000000" by (simp add: unat_sub_le ua)
    then show ?thesis
      using False ge by (simp add: virt_to_pfn_checked_def Let_def a aligned_page [unfolded PAGE_SIZE_def] word_less_nat_alt word_le_nat_alt ua unat_div PAGE_SIZE_def not_less)
  qed
  show "virt_to_pfn_checked s (pfn_to_virt p) = Some p" "pfn_to_virt p \<noteq> 0" if "p < total_pages s"
  proof -
    have u: "unat (pfn_to_virt p) = 0xFFFFFFC080000000 + p * 4096" using that assms by (intro unat_pfn_to_virt) simp
    have "4096 dvd 0xFFFFFFC080000000 + p * 4096" by (intro dvd_add) simp_all
    then show "virt_to_pfn_checked s (pfn_to_virt p) = Some p" using that assms unfolding V u by simp
    show "pfn_to_virt p \<noteq> 0" using u by (auto simp: word_unat_eq_iff)
  qed
  show "va = pfn_to_virt p \<and> p < total_pages s" if v: "virt_to_pfn_checked s va = Some p"
  proof -
    have c: "0xFFFFFFC080000000 \<le> unat va" "4096 dvd unat va" "p = (unat va - 0xFFFFFFC080000000) div 4096" "p < total_pages s"
      using v unfolding V by (simp_all split: if_splits)
    have "4096 dvd unat va - 0xFFFFFFC080000000" by (intro dvd_diff_nat c) simp
    then have "p * 4096 = unat va - 0xFFFFFFC080000000" using c(3) by simp
    then show ?thesis using c assms unat_pfn_to_virt [of p] by (simp add: word_unat_eq_iff)
  qed
qed

lemma free_page_ok:
  assumes wf: "buddy_wf s" and a: "isalloc s p k" and sl: "\<not> page_test_flag (mem_map s p) PG_SLAB"
  obtains s' where "free_page (pfn_to_virt p) k s = Some s'" "buddy_wf s'" "free_frames s' = free_frames s \<union> blk p k"
    "free_frames s \<inter> blk p k = {}" "\<forall>q j. isalloc s' q j \<longleftrightarrow> isalloc s q j \<and> (q, j) \<noteq> (p, k)"
    "\<forall>q j. isalloc s' q j \<longrightarrow> page_test_flag (mem_map s' q) PG_SLAB = page_test_flag (mem_map s q) PG_SLAB"
    "total_pages s' = total_pages s"
proof -
  have inv: "buddy_inv s {}" and nr: "nr_free_pages s = free_sum s" "total_pages s \<le> 65536" using wf by (auto simp: buddy_wf_def)
  note d = buddy_invD [OF inv]
  have pf: "p < total_pages s" "refcount (mem_map s p) > 0" "order (mem_map s p) = k" "\<not> page_test_flag (mem_map s p) PG_BUDDY"
    "\<not> page_test_flag (mem_map s p) PG_RESERVED"
    using a d(4,5) [of p] by (auto simp: isalloc_def)
  have b: "k \<le> MAX_ORDER" "2 ^ k dvd p" "p + 2 ^ k \<le> total_pages s" using d(7) [of p k] a by (auto simp: block_def)
  define s1 where "s1 = upd_page p (\<lambda>p. p\<lparr>flags := 0, refcount := 0\<rparr>) s"
  note t = take_back [OF inv a s1_def]
  obtain p' k' s2 where s2: "buddy_merge p k s1 = Some (p', k', s2)" "keeps s1 {(p, k)} s2 {(p', k')}"
    "free_sum s2 + 2 ^ k' = free_sum s1 + 2 ^ k" "k' < MAX_ORDER \<longrightarrow> \<not> isfree s2 (p' XOR 2 ^ k') k'"
    using merge_ok [OF t(1)] by blast
  obtain s3 where s3: "buddy_add_free_block p' k' False s2 = Some s3" "keeps s2 {(p', k')} s3 {}" "free_sum s3 = free_sum s2 + 2 ^ k'"
    using add_ok [OF keeps_inv [OF s2(2)], of False] s2(4) by (metis empty_iff)
  note kp = keeps_trans [OF s2(2) s3(2)]
  let ?s = "s3\<lparr>nr_free_pages := nr_free_pages s3 + 2 ^ k\<rparr>"
  have f1: "nr_free_pages s1 = nr_free_pages s" "total_pages s1 = total_pages s" by (simp_all add: s1_def upd_page_def)
  have free: "free_page (pfn_to_virt p) k s = Some ?s"
    using b pf sl pfn_virt(1) [OF nr(2) pf(1)] s2(1) s3(1) by (simp add: free_page_def Let_def and_pow_eq_0 flip: s1_def)
  have w: "buddy_wf ?s" using keeps_inv [OF kp] kp f1 nr t(3) s2(3) s3(3) by (simp add: buddy_wf_def keeps_def)
  have ff: "free_frames ?s = free_frames s \<union> blk p k" using kp avail_cong [OF t(2)] by (simp add: keeps_def avail_insert)
  have dj: "free_frames s \<inter> blk p k = {}" using in_hand_disjoint(1) [OF t(1)] avail_cong [OF t(2)] by simp
  have al: "isalloc ?s q j \<longleftrightarrow> isalloc s q j \<and> (q, j) \<noteq> (p, k)" for q j using t(4) kp by (simp add: keeps_def)
  have "page_test_flag (mem_map ?s q) PG_SLAB = page_test_flag (mem_map s q) PG_SLAB" if "isalloc ?s q j" for q j
  proof -
    have "isalloc s1 q j" "q \<noteq> p" using that kp t(4) al pf(3) by (auto simp: keeps_def isalloc_def)
    then have "page_test_flag (mem_map s3 q) PG_SLAB = page_test_flag (mem_map s1 q) PG_SLAB" using kp by (auto simp: keeps_def)
    then show ?thesis using \<open>q \<noteq> p\<close> by (simp add: s1_def upd_page_def)
  qed
  then show thesis using that [OF free w ff dj] al kp f1 by (simp add: keeps_def)
qed

lemma free_page_only:
  assumes wf: "buddy_wf s" and f: "free_page va k s \<noteq> None"
  obtains p where "va = pfn_to_virt p" "isalloc s p k" "\<not> page_test_flag (mem_map s p) PG_SLAB"
proof -
  have tp: "total_pages s \<le> 65536" using wf by (simp add: buddy_wf_def)
  obtain p where p: "virt_to_pfn_checked s va = Some p" using f by (cases "virt_to_pfn_checked s va") (auto simp: free_page_def Let_def split: if_splits)
  show thesis
    using that [of p] pfn_virt(3) [OF tp p] f p by (auto simp: free_page_def Let_def isalloc_def split: if_splits)
qed


subsection \<open>Initialisation\<close>

lemma init_order_spec:
  assumes "k = init_order idx remaining K"
  shows "k \<le> K" "2 ^ k dvd idx" "k < j \<Longrightarrow> j \<le> K \<Longrightarrow> \<not> (2 ^ j dvd idx \<and> 2 ^ j \<le> remaining)"
proof -
  have "k \<le> K \<and> 2 ^ k dvd idx \<and> (\<forall>j. k < j \<longrightarrow> j \<le> K \<longrightarrow> \<not> (2 ^ j dvd idx \<and> 2 ^ j \<le> remaining))"
    unfolding assms
  proof (induction K)
    case (Suc K)
    have e: "idx AND (2 ^ Suc K - 1) \<noteq> 0 \<or> remaining < 2 ^ Suc K \<longleftrightarrow> \<not> (2 ^ Suc K dvd idx \<and> 2 ^ Suc K \<le> remaining)"
      using and_pow_eq_0 [of idx "Suc K"] by (auto simp: not_le)
    show ?case
    proof (cases "2 ^ Suc K dvd idx \<and> 2 ^ Suc K \<le> remaining")
      case True
      then have "init_order idx remaining (Suc K) = Suc K" using e by (simp only: init_order.simps if_False not_False_eq_True simp_thms)
      then show ?thesis using True by auto
    next
      case False
      then have i: "init_order idx remaining (Suc K) = init_order idx remaining K" using e by (simp only: init_order.simps if_True not_False_eq_True simp_thms)
      have "\<not> (2 ^ j dvd idx \<and> 2 ^ j \<le> remaining)" if "init_order idx remaining K < j" "j \<le> Suc K" for j
        using that Suc.IH False by (cases "j = Suc K") auto
      then show ?thesis using Suc.IH unfolding i by auto
    qed
  qed auto
  then show "k \<le> K" "2 ^ k dvd idx" "k < j \<Longrightarrow> j \<le> K \<Longrightarrow> \<not> (2 ^ j dvd idx \<and> 2 ^ j \<le> remaining)" by blast+
qed

definition init_inv :: "nat \<Rightarrow> buddy \<Rightarrow> bool" where
  "init_inv idx s \<longleftrightarrow> buddy_inv s {} \<and> (\<forall>p k. \<not> isalloc s p k) \<and> (\<forall>p k. isfree s p k \<longrightarrow> p + 2 ^ k \<le> idx) \<and>
     (\<forall>p k. isfree s p k \<longrightarrow> k < MAX_ORDER \<longrightarrow> \<not> (2 ^ Suc k dvd p \<and> p + 2 ^ Suc k \<le> total_pages s))"

lemma init_hand:
  assumes i: "init_inv idx s" and b: "k \<le> MAX_ORDER" "2 ^ k dvd idx" "idx + 2 ^ k \<le> total_pages s"
  shows "buddy_inv s {(idx, k)}" "k < MAX_ORDER \<Longrightarrow> \<not> isfree s (idx XOR 2 ^ k) k"
proof -
  have inv: "buddy_inv s {}" and al: "\<And>p k. \<not> isalloc s p k" and fr: "\<And>p k. isfree s p k \<Longrightarrow> p + 2 ^ k \<le> idx"
    and gr: "\<And>p k. isfree s p k \<Longrightarrow> k < MAX_ORDER \<Longrightarrow> \<not> (2 ^ Suc k dvd p \<and> p + 2 ^ Suc k \<le> total_pages s)"
    using i by (auto simp: init_inv_def)
  have t: "idx < total_pages s" using b(3) pow_pos [of k] by linarith
  have B: "block s {(idx, k)} q j \<longleftrightarrow> isfree s q j \<or> (q, j) = (idx, k)" for q j using al by (auto simp: block_def)
  have B0: "block s {} q j \<longleftrightarrow> isfree s q j" for q j using al by (auto simp: block_def)
  have nf: "\<not> isfree s idx j" for j using fr [of idx j] by auto
  have "\<not> page_test_flag (mem_map s idx) PG_BUDDY" using nf t by (auto simp: isfree_def)
  moreover have "refcount (mem_map s idx) = 0" using al [of idx] t by (auto simp: isalloc_def)
  ultimately have "pages_ok s {(idx, k)}" using inv by (simp add: buddy_inv_def pages_ok_def)
  moreover have "blocks_ok s {(idx, k)}"
    using inv b fr unfolding buddy_inv_def blocks_ok_def B B0 by (auto simp: apart_def)
  ultimately show "buddy_inv s {(idx, k)}" using inv by (simp add: buddy_inv_def)
  show "\<not> isfree s (idx XOR 2 ^ k) k" if k: "k < MAX_ORDER"
  proof
    assume f: "isfree s (idx XOR 2 ^ k) k"
    show False
    proof (cases "2 ^ Suc k dvd idx")
      case True
      then show False using fr [OF f] buddy_xor(1) [OF b(2)] by simp
    next
      case False
      have x: "idx XOR 2 ^ k = idx - 2 ^ k" "2 ^ k \<le> idx" "2 ^ Suc k dvd idx - 2 ^ k"
        using buddy_xor [OF b(2)] False by auto
      have "idx - 2 ^ k + 2 ^ Suc k \<le> total_pages s" using x(2) b(3) by simp
      then show False using gr [OF f k] x by simp
    qed
  qed
qed

lemma init_blocks_ok:
  assumes "init_inv idx s" and "idx + remaining = total_pages s"
  shows "\<exists>s'. init_blocks idx remaining s = Some s' \<and> buddy_inv s' {} \<and> free_frames s' = free_frames s \<union> {idx..<total_pages s} \<and>
    (\<forall>p k. \<not> isalloc s' p k) \<and> total_pages s' = total_pages s \<and> nr_free_pages s' = nr_free_pages s + remaining \<and> free_sum s' = free_sum s + remaining"
  using assms
proof (induction idx remaining s rule: init_blocks.induct)
  case (1 idx remaining s)
  show ?case
  proof (cases "remaining > 0")
    case False
    then have "init_blocks idx remaining s = Some s" by (subst init_blocks.simps) simp
    then show ?thesis using False 1(2,3) by (auto simp: init_inv_def)
  next
    case True
    define k where "k = init_order idx remaining MAX_ORDER"
    note io = init_order_spec [OF k_def]
    have le: "2 ^ k \<le> remaining" using init_order_le [OF True] by (simp add: k_def)
    then have t: "idx + 2 ^ k \<le> total_pages s" using 1(3) by linarith
    note h = init_hand [OF 1(2) io(1,2) t]
    obtain s1 where s1: "buddy_add_free_block idx k True s = Some s1" "keeps s {(idx, k)} s1 {}" "free_sum s1 = free_sum s + 2 ^ k"
      and fr: "\<And>q j. isfree s1 q j \<longleftrightarrow> isfree s q j \<or> (q, j) = (idx, k)"
      using add_ok [OF h(1), of True] h(2) by (metis empty_iff)
    have keep: "total_pages s1 = total_pages s" "nr_free_pages s1 = nr_free_pages s" "isalloc s1 q j = isalloc s q j"
      "free_frames s1 = free_frames s \<union> blk idx k" for q j
      using s1(2) by (simp_all add: keeps_def avail_insert)
    let ?s = "s1\<lparr>nr_free_pages := nr_free_pages s1 + 2 ^ k\<rparr>"
    have gk: "\<not> (2 ^ Suc k dvd idx \<and> idx + 2 ^ Suc k \<le> total_pages s)" if "k < MAX_ORDER"
      using io(3) [of "Suc k"] that 1(3) by auto
    have "init_inv (idx + 2 ^ k) ?s"
      unfolding init_inv_def
    proof (intro conjI allI impI)
      fix p j assume f: "isfree ?s p j"
      then have f': "isfree s p j \<or> (p, j) = (idx, k)" by (simp add: fr)
      show "p + 2 ^ j \<le> idx + 2 ^ k" using f' 1(2) by (auto simp: init_inv_def intro: trans_le_add1)
      assume "j < MAX_ORDER"
      then show "\<not> (2 ^ Suc j dvd p \<and> p + 2 ^ Suc j \<le> total_pages ?s)" using f' 1(2) gk keep(1) by (auto simp: init_inv_def)
    qed (use keeps_inv [OF s1(2)] keep(3) 1(2) in \<open>simp_all add: init_inv_def\<close>)
    moreover have "idx + 2 ^ k + (remaining - 2 ^ k) = total_pages ?s" using le 1(3) keep(1) by simp
    ultimately obtain s' where s': "init_blocks (idx + 2 ^ k) (remaining - 2 ^ k) ?s = Some s'" "buddy_inv s' {}"
      "free_frames s' = free_frames s1 \<union> {idx + 2 ^ k..<total_pages s}" "\<forall>p k. \<not> isalloc s' p k" "total_pages s' = total_pages s"
      "nr_free_pages s' = nr_free_pages s + 2 ^ k + (remaining - 2 ^ k)" "free_sum s' = free_sum s + 2 ^ k + (remaining - 2 ^ k)"
      using 1(1) [OF True k_def s1(1)] keep(1,2) s1(3) by auto
    moreover have "init_blocks idx remaining s = Some s'"
      using True s1(1) s'(1) by (simp add: init_blocks.simps [of idx remaining s] flip: k_def)
    moreover have "blk idx k \<union> {idx + 2 ^ k..<total_pages s} = {idx..<total_pages s}" using t by (auto simp: blk_def)
    ultimately show ?thesis using le keep(4) by auto
  qed
qed


subsection \<open>Free blocks are the maximal ones\<close>

lemma blk_subset:
  assumes "2 ^ k dvd p" and "2 ^ j dvd q" and "k \<le> j" and "blk p k \<inter> blk q j \<noteq> {}"
  shows "blk p k \<subseteq> blk q j"
proof -
  obtain a b where a: "p = 2 ^ k * a" and b: "q = 2 ^ j * b" using assms(1,2) unfolding dvd_def by blast
  obtain n where n: "2 ^ j = (2 :: nat) ^ k * n" using assms(3) by (metis le_Suc_ex power_add)
  have q: "q = 2 ^ k * (n * b)" "q + 2 ^ j = 2 ^ k * (n * b + n)" by (simp_all add: b n algebra_simps)
  have "q < p + 2 ^ k" "p < q + 2 ^ j" using assms(4) by (auto simp: blk_def)
  then have "2 ^ k * (n * b) < 2 ^ k * (a + 1)" "2 ^ k * a < 2 ^ k * (n * b + n)"
    using q a by (simp_all add: algebra_simps)
  then have "n * b < a + 1" "a < n * b + n" by (simp_all only: mult_less_cancel1)
  then have "2 ^ k * (n * b) \<le> 2 ^ k * a" "2 ^ k * (a + 1) \<le> 2 ^ k * (n * b + n)" by (simp_all only: mult_le_cancel1) auto
  then show ?thesis using q a by (auto simp: blk_def)
qed

lemma blk_contains: "p \<in> blk p k"
  by (simp add: blk_def)

lemma free_covers:
  assumes inv: "buddy_inv s {}"
  shows "2 ^ k dvd p \<Longrightarrow> k \<le> MAX_ORDER \<Longrightarrow> blk p k \<subseteq> free_frames s \<Longrightarrow> \<exists>q j. isfree s q j \<and> k \<le> j \<and> blk p k \<subseteq> blk q j"
proof (induction k arbitrary: p)
  case 0
  then obtain q j where "isfree s q j" "p \<in> blk q j" by (auto simp: avail_def blk_def)
  then show ?case by (auto simp: blk_def)
next
  case (Suc k)
  let ?p = "p + 2 ^ k"
  have dv: "2 ^ k dvd p" using Suc.prems(1) by (metis dvd_mult_right power_Suc)
  then have dv': "2 ^ k dvd ?p" by simp
  have al: "isfree s q j \<Longrightarrow> 2 ^ j dvd q" for q j using buddy_invD(7) [OF inv, of q j] by (simp add: block_def)
  obtain q j where a: "isfree s q j" "k \<le> j" "blk p k \<subseteq> blk q j" using Suc.IH [OF dv] Suc.prems(2,3) by (auto simp: blk_halves)
  obtain q' j' where b: "isfree s q' j'" "k \<le> j'" "blk ?p k \<subseteq> blk q' j'" using Suc.IH [OF dv'] Suc.prems(2,3) by (auto simp: blk_halves)
  have up: "blk p (Suc k) \<subseteq> blk r i" if "isfree s r i" "Suc k \<le> i" "blk p (Suc k) \<inter> blk r i \<noteq> {}" for r i
    using blk_subset [OF Suc.prems(1) al [OF that(1)] that(2,3)] .
  show ?case
  proof (cases "j = k \<and> j' = k")
    case False
    then consider "Suc k \<le> j" | "Suc k \<le> j'" using a(2) b(2) by linarith
    then show ?thesis
    proof cases
      case 1
      have "p \<in> blk p (Suc k) \<inter> blk q j" using a(3) blk_contains by blast
      then show ?thesis using up [OF a(1) 1] a(1) 1 by blast
    next
      case 2
      have "?p \<in> blk p (Suc k) \<inter> blk q' j'" using b(3) blk_contains [of ?p k] by (auto simp: blk_halves)
      then show ?thesis using up [OF b(1) 2] b(1) 2 by blast
    qed
  next
    case True
    have "q = p" using a(3) True by (auto simp: blk_def atLeastLessThan_subset_iff)
    moreover have "q' = ?p" using b(3) True by (auto simp: blk_def atLeastLessThan_subset_iff)
    moreover have "p XOR 2 ^ k = ?p" using buddy_xor(1) [OF dv] Suc.prems(1) by simp
    ultimately show ?thesis using buddy_invD(9) [OF inv, of k p] a(1) b(1) True Suc.prems(2) by simp
  qed
qed

lemma free_maximal:
  assumes inv: "buddy_inv s {}"
  shows "isfree s p k \<longleftrightarrow> k \<le> MAX_ORDER \<and> 2 ^ k dvd p \<and> blk p k \<subseteq> free_frames s \<and>
    (\<forall>q j. k < j \<longrightarrow> j \<le> MAX_ORDER \<longrightarrow> 2 ^ j dvd q \<longrightarrow> blk p k \<subseteq> blk q j \<longrightarrow> \<not> blk q j \<subseteq> free_frames s)"
    (is "_ \<longleftrightarrow> ?R")
proof
  note d = buddy_invD [OF inv]
  assume f: "isfree s p k"
  have "\<not> blk q j \<subseteq> free_frames s" if j: "k < j" "j \<le> MAX_ORDER" "2 ^ j dvd q" "blk p k \<subseteq> blk q j" for q j
  proof
    assume "blk q j \<subseteq> free_frames s"
    then obtain r i where r: "isfree s r i" "j \<le> i" "blk q j \<subseteq> blk r i" using free_covers [OF inv j(3,2)] by blast
    then have "(p, k) = (r, i) \<or> blk p k \<inter> blk r i = {}" using d(8) [of p k r i] f by (simp add: block_def apart_disjoint)
    moreover have "p \<in> blk p k \<inter> blk r i" using r(3) j(4) blk_contains [of p k] by blast
    ultimately have "k = i" by blast
    then show False using j(1) r(2) by simp
  qed
  moreover have "k \<le> MAX_ORDER" "2 ^ k dvd p" using d(7) [of p k] f by (simp_all add: block_def)
  moreover have "blk p k \<subseteq> free_frames s" using f by (auto simp: avail_def)
  ultimately show ?R by simp
next
  assume R: ?R
  then obtain q j where q: "isfree s q j" "k \<le> j" "blk p k \<subseteq> blk q j" using free_covers [OF inv, of k p] by auto
  have "j \<le> MAX_ORDER" "2 ^ j dvd q" using buddy_invD(7) [OF inv, of q j] q(1) by (simp_all add: block_def)
  moreover have "blk q j \<subseteq> free_frames s" using q(1) by (auto simp: avail_def)
  ultimately have "\<not> k < j" using R q(3) by auto
  then have "j = k" using q(2) by simp
  moreover from this have "q = p" using q(3) by (auto simp: blk_def atLeastLessThan_subset_iff)
  ultimately show "isfree s p k" using q(1) by simp
qed

lemma free_run_iff:
  assumes inv: "buddy_inv s {}"
  shows "(\<exists>p j. k \<le> j \<and> isfree s p j) \<longleftrightarrow> k \<le> MAX_ORDER \<and> (\<exists>p. 2 ^ k dvd p \<and> blk p k \<subseteq> free_frames s)"
proof
  assume "\<exists>p j. k \<le> j \<and> isfree s p j"
  then obtain p j where f: "k \<le> j" "isfree s p j" by blast
  then have "j \<le> MAX_ORDER" "2 ^ j dvd p" using buddy_invD(7) [OF inv, of p j] by (auto simp: block_def)
  moreover have "(2 :: nat) ^ k \<le> 2 ^ j" using f(1) by simp
  then have "blk p k \<subseteq> blk p j" by (auto simp: blk_def)
  moreover have "blk p j \<subseteq> free_frames s" using f(2) by (auto simp: avail_def)
  moreover have "2 ^ k dvd p" using f(1) \<open>2 ^ j dvd p\<close> by (rule power_le_dvd [rotated])
  ultimately show "k \<le> MAX_ORDER \<and> (\<exists>p. 2 ^ k dvd p \<and> blk p k \<subseteq> free_frames s)"
    using f(1) by (meson order_trans)
next
  assume "k \<le> MAX_ORDER \<and> (\<exists>p. 2 ^ k dvd p \<and> blk p k \<subseteq> free_frames s)"
  then obtain p where "2 ^ k dvd p" "k \<le> MAX_ORDER" "blk p k \<subseteq> free_frames s" by blast
  from free_covers [OF inv this] show "\<exists>p j. k \<le> j \<and> isfree s p j" by blast
qed


section \<open>The contract of a page allocator\<close>

text \<open>
  A client sees addresses and orders. \<open>frames\<close> are the free frames, \<open>held\<close> the blocks handed out that a client may give
  back, and \<open>foot a k\<close> the frames of the block at \<open>a\<close>.
\<close>

datatype pool_op = PAlloc nat | PFree u64 nat

fun pool_run :: "(nat \<Rightarrow> 's \<Rightarrow> (u64 \<times> 's) option) \<Rightarrow> (u64 \<Rightarrow> nat \<Rightarrow> 's \<Rightarrow> 's option) \<Rightarrow> pool_op list \<Rightarrow> 's \<Rightarrow> 's option" where
  "pool_run al fr [] s = Some s"
| "pool_run al fr (PAlloc k # ops) s = (case al k s of None \<Rightarrow> None | Some (a, s') \<Rightarrow> pool_run al fr ops s')"
| "pool_run al fr (PFree a k # ops) s = (case fr a k s of None \<Rightarrow> None | Some s' \<Rightarrow> pool_run al fr ops s')"

fun pool_client :: "(nat \<Rightarrow> 's \<Rightarrow> (u64 \<times> 's) option) \<Rightarrow> (u64 \<Rightarrow> nat \<Rightarrow> 's \<Rightarrow> 's option) \<Rightarrow> ('s \<Rightarrow> (u64 \<times> nat) set) \<Rightarrow>
    pool_op list \<Rightarrow> 's \<Rightarrow> bool" where
  "pool_client al fr held [] s \<longleftrightarrow> True"
| "pool_client al fr held (PAlloc k # ops) s \<longleftrightarrow> (case al k s of None \<Rightarrow> True | Some (a, s') \<Rightarrow> pool_client al fr held ops s')"
| "pool_client al fr held (PFree a k # ops) s \<longleftrightarrow>
     (a, k) \<in> held s \<and> (case fr a k s of None \<Rightarrow> True | Some s' \<Rightarrow> pool_client al fr held ops s')"

locale frame_pool =
  fixes al :: "nat \<Rightarrow> 's \<Rightarrow> (u64 \<times> 's) option" and fr :: "u64 \<Rightarrow> nat \<Rightarrow> 's \<Rightarrow> 's option"
    and ok :: "'s \<Rightarrow> bool" and frames :: "'s \<Rightarrow> nat set" and held :: "'s \<Rightarrow> (u64 \<times> nat) set" and foot :: "u64 \<times> nat \<Rightarrow> nat set"
  assumes pool_alloc: "ok s \<Longrightarrow> \<exists>a s'. al k s = Some (a, s') \<and> ok s' \<and>
      (if a = 0 then s' = s else foot (a, k) \<subseteq> frames s \<and> frames s' = frames s - foot (a, k) \<and> held s' = insert (a, k) (held s))"
    and pool_free: "ok s \<Longrightarrow> b \<in> held s \<Longrightarrow>
      \<exists>s'. fr (fst b) (snd b) s = Some s' \<and> ok s' \<and> frames s' = frames s \<union> foot b \<and> held s' = held s - {b}"
    and pool_disjoint: "ok s \<Longrightarrow> b \<in> held s \<Longrightarrow> foot b \<inter> frames s = {}"
      "ok s \<Longrightarrow> b \<in> held s \<Longrightarrow> b' \<in> held s \<Longrightarrow> b \<noteq> b' \<Longrightarrow> foot b \<inter> foot b' = {}"
begin

lemma pool_conserves:
  assumes "ok s" and "pool_client al fr held ops s"
  shows "\<exists>s'. pool_run al fr ops s = Some s' \<and> ok s' \<and> frames s' \<union> \<Union> (foot ` held s') = frames s \<union> \<Union> (foot ` held s)"
  using assms
proof (induction ops arbitrary: s)
  case Nil
  then show ?case by simp
next
  case (Cons x ops)
  show ?case
  proof (cases x)
    case (PAlloc k)
    obtain a s1 where s1: "al k s = Some (a, s1)" "ok s1"
      "if a = 0 then s1 = s else foot (a, k) \<subseteq> frames s \<and> frames s1 = frames s - foot (a, k) \<and> held s1 = insert (a, k) (held s)"
      using pool_alloc [OF Cons.prems(1)] by blast
    have "frames s1 \<union> \<Union> (foot ` held s1) = frames s \<union> \<Union> (foot ` held s)" using s1(3) by (cases "a = 0") auto
    then show ?thesis using Cons.IH [OF s1(2)] Cons.prems(2) PAlloc s1(1) by simp
  next
    case (PFree a k)
    then have h: "(a, k) \<in> held s" using Cons.prems(2) by simp
    obtain s1 where s1: "fr a k s = Some s1" "ok s1" "frames s1 = frames s \<union> foot (a, k)" "held s1 = held s - {(a, k)}"
      using pool_free [OF Cons.prems(1) h] by auto
    have "frames s1 \<union> \<Union> (foot ` held s1) = frames s \<union> \<Union> (foot ` held s)" using s1(3,4) h by auto
    then show ?thesis using Cons.IH [OF s1(2)] Cons.prems(2) PFree s1(1) by simp
  qed
qed

end

definition frame_of :: "u64 \<Rightarrow> nat" where
  "frame_of a = (unat a - 0xFFFFFFC080000000) div 4096"

definition held :: "buddy \<Rightarrow> (u64 \<times> nat) set" where
  "held s = {(a, k). isalloc s (frame_of a) k \<and> \<not> page_test_flag (mem_map s (frame_of a)) PG_SLAB \<and> a = pfn_to_virt (frame_of a)}"

definition foot :: "u64 \<times> nat \<Rightarrow> nat set" where
  "foot b = blk (frame_of (fst b)) (snd b)"

lemma frame_of_virt: "p < 65536 \<Longrightarrow> frame_of (pfn_to_virt p) = p"
  by (simp add: frame_of_def unat_pfn_to_virt)

lemma alloc_frame: "buddy_wf s \<Longrightarrow> isalloc s p k \<Longrightarrow> frame_of (pfn_to_virt p) = p"
  by (rule frame_of_virt) (auto simp: buddy_wf_def isalloc_def)

lemma held_iff: "buddy_wf s \<Longrightarrow> (pfn_to_virt p, k) \<in> held s \<and> p < total_pages s \<longleftrightarrow> isalloc s p k \<and> \<not> page_test_flag (mem_map s p) PG_SLAB"
  using frame_of_virt [of p] by (auto simp: held_def buddy_wf_def isalloc_def)

lemma heldE:
  assumes "buddy_wf s" and "(a, k) \<in> held s"
  obtains p where "a = pfn_to_virt p" "frame_of a = p" "isalloc s p k" "\<not> page_test_flag (mem_map s p) PG_SLAB"
  using assms(2) that [of "frame_of a"] by (auto simp: held_def)

lemma get_free_page_ok:
  assumes wf: "buddy_wf s"
  shows "\<exists>a s'. get_free_page k s = Some (a, s') \<and> buddy_wf s' \<and>
    (if a = 0 then s' = s \<and> \<not> (\<exists>p j. k \<le> j \<and> isfree s p j)
     else foot (a, k) \<subseteq> free_frames s \<and> free_frames s' = free_frames s - foot (a, k) \<and> held s' = insert (a, k) (held s) \<and>
       2 ^ k dvd frame_of a \<and> a = pfn_to_virt (frame_of a) \<and> frame_of a + 2 ^ k \<le> total_pages s \<and> total_pages s' = total_pages s)"
  using wf
proof (cases rule: get_free_pfn_ok [of s k, consumes 1, case_names none some])
  case none
  then show ?thesis using wf by (simp add: get_free_page_def)
next
  case (some p s')
  have tp: "total_pages s \<le> 65536" using wf by (simp add: buddy_wf_def)
  have p: "p < total_pages s" using some(5) pow_pos [of k] by linarith
  then have fp: "frame_of (pfn_to_virt p) = p" "pfn_to_virt p \<noteq> 0" using frame_of_virt [of p] pfn_virt(2) [OF tp] tp by auto
  have "held s' = insert (pfn_to_virt p, k) (held s)"
  proof (intro set_eqI, safe)
    fix a j assume "(a, j) \<in> held s'" "(a, j) \<notin> held s"
    then show "a = pfn_to_virt p" "j = k" using some(8,9) by (auto simp: held_def)
  qed (use some(8,9,10) fp in \<open>auto simp: held_def\<close>)
  then show ?thesis using some fp by (simp add: get_free_page_def foot_def)
qed

interpretation pool: frame_pool get_free_page free_page buddy_wf "\<lambda>s. free_frames s" held foot
proof
  fix s :: buddy and k assume wf: "buddy_wf s"
  show "\<exists>a s'. get_free_page k s = Some (a, s') \<and> buddy_wf s' \<and>
      (if a = 0 then s' = s else foot (a, k) \<subseteq> free_frames s \<and> free_frames s' = free_frames s - foot (a, k) \<and> held s' = insert (a, k) (held s))"
    using get_free_page_ok [OF wf, of k] by (elim ex_forward) (simp split: if_splits)
next
  fix s b assume wf: "buddy_wf s" and b: "b \<in> held s"
  obtain a k where ak: "b = (a, k)" by fastforce
  obtain p where p: "a = pfn_to_virt p" "frame_of a = p" "isalloc s p k" "\<not> page_test_flag (mem_map s p) PG_SLAB"
    by (rule heldE [OF wf b [unfolded ak]])
  obtain s' where s': "free_page (pfn_to_virt p) k s = Some s'" "buddy_wf s'" "free_frames s' = free_frames s \<union> blk p k"
      "free_frames s \<inter> blk p k = {}"
    and al: "\<forall>q j. isalloc s' q j \<longleftrightarrow> isalloc s q j \<and> (q, j) \<noteq> (p, k)"
    and sl: "\<forall>q j. isalloc s' q j \<longrightarrow> page_test_flag (mem_map s' q) PG_SLAB = page_test_flag (mem_map s q) PG_SLAB"
    and tp: "total_pages s' = total_pages s"
    by (rule free_page_ok [OF wf p(3,4)])
  have ft: "foot b = blk p k" by (simp add: foot_def ak p(2))
  have "held s' = held s - {b}"
  proof (intro set_eqI, safe)
    fix x j assume "(x, j) \<in> held s" "(x, j) \<notin> held s'"
    then show "(x, j) = b" using al sl p(1) by (auto simp: held_def ak)
  qed (use al sl p(1,2) in \<open>auto simp: held_def ak\<close>)
  then show "\<exists>s'. free_page (fst b) (snd b) s = Some s' \<and> buddy_wf s' \<and> free_frames s' = free_frames s \<union> foot b \<and> held s' = held s - {b}"
    using s'(1-3) ft p(1) by (simp add: ak)
  show "foot b \<inter> free_frames s = {}" using s'(4) ft by blast
next
  fix s b b' assume wf: "buddy_wf s" and b: "b \<in> held s" "b' \<in> held s" "b \<noteq> b'"
  obtain a k a' k' where ak: "b = (a, k)" "b' = (a', k')" by fastforce
  have p: "isalloc s (frame_of a) k" "isalloc s (frame_of a') k'" "a = pfn_to_virt (frame_of a)" "a' = pfn_to_virt (frame_of a')"
    using b(1,2) by (simp_all add: ak held_def)
  then have ne: "(frame_of a, k) \<noteq> (frame_of a', k')" using b(3) ak by auto
  have "buddy_inv s {}" using wf by (simp add: buddy_wf_def)
  from buddy_invD(8) [OF this, of "frame_of a" k "frame_of a'" k'] show "foot b \<inter> foot b' = {}"
    using p(1,2) ne by (auto simp: block_def apart_disjoint foot_def ak)
qed


lemma free_sum_card:
  assumes "buddy_inv s {}"
  shows "free_sum s = (\<Sum>k \<le> MAX_ORDER. card {p. isfree s p k} * 2 ^ k)"
proof -
  have "length (free_list s k) = card {p. isfree s p k}" if "k \<le> MAX_ORDER" for k
  proof -
    have "set (free_list s k) = {p. isfree s p k}" using buddy_invD(3) [OF assms that] by auto
    then show ?thesis using distinct_card [OF buddy_invD(1) [OF assms that]] by simp
  qed
  then show ?thesis by (simp add: free_sum_def)
qed

lemma same_frames:
  assumes "buddy_wf s" and "buddy_wf s'" and "free_frames s' = free_frames s"
  shows "isfree s' = isfree s" "nr_free_pages s' = nr_free_pages s"
proof -
  have inv: "buddy_inv s {}" "buddy_inv s' {}" and nr: "nr_free_pages s = free_sum s" "nr_free_pages s' = free_sum s'"
    using assms(1,2) by (auto simp: buddy_wf_def)
  show e: "isfree s' = isfree s"
    unfolding fun_eq_iff free_maximal [OF inv(1)] free_maximal [OF inv(2)] assms(3) by simp
  show "nr_free_pages s' = nr_free_pages s" unfolding nr free_sum_card [OF inv(1)] free_sum_card [OF inv(2)] e by simp
qed

text \<open>The state at the start of the loop of \<^verbatim>\<open>buddy_init\<close>.\<close>

definition boot_buddy :: "nat \<Rightarrow> buddy \<Rightarrow> buddy" where
  "boot_buddy n s = s\<lparr>total_pages := n, mem_map := (\<lambda>_. \<lparr>flags = BIT PG_RESERVED, order = 0, refcount = 0\<rparr>),
     free_list := (\<lambda>_. []), nr_free := (\<lambda>_. 0), nr_free_pages := 0\<rparr>"

lemma boot_init_inv: "init_inv idx (boot_buddy n s)" "free_frames (boot_buddy n s) = {}" "free_sum (boot_buddy n s) = 0"
proof -
  let ?s = "boot_buddy n s"
  have f: "\<not> isfree ?s p k" "\<not> isalloc ?s p k" for p k
    by (simp_all add: boot_buddy_def isfree_def isalloc_def test_flag_bit bit_BIT PG_BUDDY_def PG_RESERVED_def)
  have "lists_ok ?s" by (simp add: lists_ok_def f) (simp add: boot_buddy_def)
  moreover have "pages_ok ?s {}" by (simp add: pages_ok_def boot_buddy_def)
  moreover have "blocks_ok ?s {}" "coalesced ?s" by (simp_all add: blocks_ok_def coalesced_def block_def f)
  ultimately show "init_inv idx ?s" by (simp add: init_inv_def buddy_inv_def f)
  show "free_frames ?s = {}" by (simp add: avail_def f)
  show "free_sum ?s = 0" by (simp add: free_sum_def boot_buddy_def)
qed

lemma boot_blocks:
  assumes "idx \<le> n" and "n \<le> 65536"
  shows "\<exists>s'. init_blocks idx (n - idx) (boot_buddy n s) = Some s' \<and> buddy_wf s' \<and> free_frames s' = {idx..<n} \<and> held s' = {} \<and>
    nr_free_pages s' = n - idx \<and> total_pages s' = n"
proof -
  have tp: "total_pages (boot_buddy n s) = n" "nr_free_pages (boot_buddy n s) = 0" by (simp_all add: boot_buddy_def)
  then have "idx + (n - idx) = total_pages (boot_buddy n s)" using assms(1) by simp
  from init_blocks_ok [OF boot_init_inv(1) this] show ?thesis
    by (elim ex_forward) (use assms(2) in \<open>simp add: boot_init_inv tp buddy_wf_def held_def\<close>)
qed

section \<open>Properties of the allocator\<close>

definition no_buddy :: buddy where
  "no_buddy = \<lparr>mem_map = (\<lambda>_. \<lparr>flags = 0, order = 0, refcount = 0\<rparr>), total_pages = 0, free_list = (\<lambda>_. []),
     nr_free = (\<lambda>_. 0), nr_free_pages = 0\<rparr>"

definition ex_buddy :: buddy where
  "ex_buddy = the (init_blocks 0 8 (boot_buddy 8 no_buddy))"

lemma ex_buddy_ok: "buddy_wf ex_buddy" "free_frames ex_buddy = {0..<8}" "held ex_buddy = {}"
proof -
  obtain s' where s': "init_blocks 0 8 (boot_buddy 8 no_buddy) = Some s'" "buddy_wf s'" "free_frames s' = {0..<8}" "held s' = {}"
    using boot_blocks [of 0 8 no_buddy] by auto
  then have "ex_buddy = s'" by (simp add: ex_buddy_def)
  then show "buddy_wf ex_buddy" "free_frames ex_buddy = {0..<8}" "held ex_buddy = {}" using s' by simp_all
qed

lemma ex_buddy_run: "2 ^ 1 dvd (0 :: nat) \<and> blk 0 1 \<subseteq> free_frames ex_buddy"
  by (auto simp: ex_buddy_ok blk_def)

text \<open>
  C24: allocation. On a well-formed allocator \<^verbatim>\<open>get_free_page\<close> never panics. It returns an aligned block of \<open>2 ^ k\<close> frames that were all free,
  removes exactly these from the free frames and hands out exactly this block; and it returns NULL, changing nothing,
  only when the order is too large or there is no aligned run of \<open>2 ^ k\<close> free frames at all: free memory is never
  lost to fragmentation within an aligned run.
\<close>

theorem get_free_page_spec:
  assumes "buddy_wf s"
  shows "\<exists>a s'. get_free_page k s = Some (a, s') \<and> buddy_wf s' \<and>
    (if a = 0 then s' = s \<and> (k \<le> MAX_ORDER \<longrightarrow> \<not> (\<exists>p. 2 ^ k dvd p \<and> blk p k \<subseteq> free_frames s))
     else 2 ^ k dvd frame_of a \<and> blk (frame_of a) k \<subseteq> free_frames s \<and> free_frames s' = free_frames s - blk (frame_of a) k \<and>
       held s' = insert (a, k) (held s))"
proof -
  have "buddy_inv s {}" using assms by (simp add: buddy_wf_def)
  note r = free_run_iff [OF this, of k]
  show ?thesis
    using get_free_page_ok [OF assms, of k] unfolding r by (elim ex_forward) (simp add: foot_def split: if_splits)
qed

theorem get_free_page_spec_witness:
  "buddy_wf ex_buddy \<and> (\<exists>a s'. get_free_page 1 ex_buddy = Some (a, s') \<and> a \<noteq> 0 \<and> free_frames s' = {0..<8} - blk (frame_of a) 1)"
proof -
  have "1 \<le> MAX_ORDER" by (simp add: MAX_ORDER_def)
  then show ?thesis
    using get_free_page_spec [OF ex_buddy_ok(1), of 1] ex_buddy_ok ex_buddy_run by (fastforce split: if_splits)
qed

text \<open>
  C25: freeing. On a well-formed allocator \<^verbatim>\<open>free_page\<close> succeeds exactly on the blocks handed out and not used as slabs, with the order they
  were handed out with; every other call (a double free, a wrong order, an address inside a block or outside of memory, a
  reserved frame) panics. A successful call adds exactly the frames of the block to the free ones and takes the block back.
\<close>

theorem free_page_spec:
  assumes "buddy_wf s"
  shows "case free_page a k s of
      None \<Rightarrow> (a, k) \<notin> held s
    | Some s' \<Rightarrow> (a, k) \<in> held s \<and> buddy_wf s' \<and> free_frames s' = free_frames s \<union> blk (frame_of a) k \<and>
        blk (frame_of a) k \<inter> free_frames s = {} \<and> held s' = held s - {(a, k)}"
proof (cases "(a, k) \<in> held s")
  case True
  then show ?thesis
    using pool.pool_free [OF assms True] pool.pool_disjoint(1) [OF assms True] by (auto simp: foot_def)
next
  case False
  have "free_page a k s = None"
  proof (rule ccontr)
    assume f: "free_page a k s \<noteq> None"
    obtain p where "a = pfn_to_virt p" "isalloc s p k" "\<not> page_test_flag (mem_map s p) PG_SLAB" by (rule free_page_only [OF assms f])
    then show False using False alloc_frame [OF assms, of p k] by (simp add: held_def)
  qed
  then show ?thesis using False by simp
qed

theorem free_page_spec_witness: "buddy_wf ex_buddy \<and> free_page (pfn_to_virt 1) 0 ex_buddy = None"
  using free_page_spec [OF ex_buddy_ok(1), of "pfn_to_virt 1" 0] ex_buddy_ok by (simp split: option.splits)

text \<open>
  C26: memory is neither lost nor handed out twice. Any sequence of allocations and frees by clients that free only what they hold
  runs without a panic; afterwards the blocks held are disjoint from each other and from the free frames, and together with the
  free frames they are the same frames as before.
\<close>

theorem buddy_conservation:
  assumes "buddy_wf s" and "pool_client get_free_page free_page held ops s"
  shows "\<exists>s'. pool_run get_free_page free_page ops s = Some s' \<and> buddy_wf s' \<and>
    free_frames s' \<union> \<Union> (foot ` held s') = free_frames s \<union> \<Union> (foot ` held s) \<and>
    (\<forall>b \<in> held s'. foot b \<inter> free_frames s' = {} \<and> (\<forall>b' \<in> held s'. b \<noteq> b' \<longrightarrow> foot b \<inter> foot b' = {}))"
  using pool.pool_conserves [OF assms] pool.pool_disjoint by (elim ex_forward) blast

theorem buddy_conservation_witness:
  "\<exists>s'. pool_run get_free_page free_page [PAlloc 1, PAlloc 0] ex_buddy = Some s' \<and> free_frames s' \<union> \<Union> (foot ` held s') = {0..<8}"
proof -
  have "pool_client get_free_page free_page held [PAlloc 1, PAlloc 0] ex_buddy" by (simp split: option.splits)
  from buddy_conservation [OF ex_buddy_ok(1) this] show ?thesis unfolding ex_buddy_ok by (elim ex_forward) simp
qed

text \<open>
  C27: allocating a block and freeing it restores the allocator: not only the free frames but every free block, whatever
  splitting the allocation did, since merging leaves only the maximal aligned free runs; and the counter of free pages is
  the number of free frames the lists hold.
\<close>

theorem buddy_alloc_free:
  assumes "buddy_wf s" and "get_free_page k s = Some (a, s')" and "a \<noteq> 0"
  shows "\<exists>s''. free_page a k s' = Some s'' \<and> isfree s'' = isfree s \<and> held s'' = held s \<and> nr_free_pages s'' = nr_free_pages s"
proof -
  obtain a' s1 where r: "get_free_page k s = Some (a', s1)" "buddy_wf s1"
    "if a' = 0 then s1 = s \<and> \<not> (\<exists>p j. k \<le> j \<and> isfree s p j)
     else foot (a', k) \<subseteq> free_frames s \<and> free_frames s1 = free_frames s - foot (a', k) \<and> held s1 = insert (a', k) (held s) \<and>
       2 ^ k dvd frame_of a' \<and> a' = pfn_to_virt (frame_of a') \<and> frame_of a' + 2 ^ k \<le> total_pages s \<and> total_pages s1 = total_pages s"
    using get_free_page_ok [OF assms(1), of k] by blast
  then have g: "buddy_wf s'" "foot (a, k) \<subseteq> free_frames s" "free_frames s' = free_frames s - foot (a, k)" "held s' = insert (a, k) (held s)"
    using assms(2,3) by simp_all
  have "frame_of a \<in> foot (a, k)" by (simp add: foot_def blk_contains)
  then have new: "(a, k) \<notin> held s" using pool.pool_disjoint(1) [OF assms(1), of "(a, k)"] g(2) by blast
  obtain s'' where s'': "free_page a k s' = Some s''" "buddy_wf s''" "free_frames s'' = free_frames s' \<union> foot (a, k)" "held s'' = held s' - {(a, k)}"
    using pool.pool_free [OF g(1), of "(a, k)"] g(4) by auto
  have "free_frames s'' = free_frames s" using s''(3) g(2,3) by blast
  then show ?thesis using same_frames [OF assms(1) s''(2)] s''(1,4) g(4) new by auto
qed

theorem buddy_alloc_free_witness:
  "\<exists>a s' s''. get_free_page 1 ex_buddy = Some (a, s') \<and> a \<noteq> 0 \<and> free_page a 1 s' = Some s'' \<and> isfree s'' = isfree ex_buddy"
proof -
  have "buddy_inv ex_buddy {}" using ex_buddy_ok(1) by (simp add: buddy_wf_def)
  from free_run_iff [OF this, of 1] have "\<exists>p j. 1 \<le> j \<and> isfree ex_buddy p j" using ex_buddy_run by (auto simp: MAX_ORDER_def)
  then obtain a s' where g: "get_free_page 1 ex_buddy = Some (a, s')" "a \<noteq> 0"
    using get_free_page_ok [OF ex_buddy_ok(1), of 1] by (auto split: if_splits)
  from buddy_alloc_free [OF ex_buddy_ok(1) g] g show ?thesis by blast
qed

text \<open>
  C28: initialisation. When the descriptors fit in memory, \<^verbatim>\<open>buddy_init\<close> gives a well-formed allocator in which
  exactly the frames after the descriptors are free, and no block is handed out; when they do not, it panics.
\<close>

theorem buddy_init_spec:
  assumes "mem_start < 2 ^ 38"
  shows "let first = (mem_start + 65536 * 32 + 4095) div 4096 in
    if first \<le> 65536 then \<exists>s'. buddy_init mem_start s = Some s' \<and> buddy_wf s' \<and> free_frames s' = {first..<65536} \<and> held s' = {} \<and>
        nr_free_pages s' = 65536 - first
    else buddy_init mem_start s = None"
proof -
  define first where "first = (mem_start + 65536 * 32 + 4095) div 4096"
  have lt: "first < 2 ^ 27" using assms by (simp add: first_def)
  have uf: "unat (of_nat first :: u64) = first" using lt by (simp add: unat_of_nat)
  have e: "unat (DRAM_SIZE div PAGE_SIZE) = 65536" by (simp add: DRAM_SIZE_def PAGE_SIZE_def)
  have b: "buddy_init mem_start s = init_blocks first (unat (65536 - of_nat first :: u64)) (boot_buddy 65536 s)"
    by (simp add: buddy_init_def Let_def e boot_buddy_def sizeof_page_def first_def)
  have "if first \<le> 65536 then \<exists>s'. buddy_init mem_start s = Some s' \<and> buddy_wf s' \<and> free_frames s' = {first..<65536} \<and> held s' = {} \<and>
        nr_free_pages s' = 65536 - first
    else buddy_init mem_start s = None"
  proof (cases "first \<le> 65536")
    case True
    then have "unat (65536 - of_nat first :: u64) = 65536 - first" using uf by (subst unat_sub) (simp_all add: word_le_nat_alt)
    then show ?thesis using boot_blocks [OF True, of s] True by (auto simp: b)
  next
    case False
    then have "(65536 :: u64) \<noteq> of_nat first" using uf by (auto simp: word_unat_eq_iff)
    then have "(65536 - of_nat first :: u64) \<noteq> 0" by simp
    then have "buddy_init mem_start s = None"
      using False by (subst b, subst init_blocks.simps) (simp add: Let_def buddy_add_free_block_def boot_buddy_def unat_gt_0)
    then show ?thesis using False by simp
  qed
  then show ?thesis unfolding first_def Let_def .
qed

theorem buddy_init_spec_witness:
  "\<exists>s'. buddy_init 0x200000 ex_buddy = Some s' \<and> nr_free_pages s' = 64512"
  using buddy_init_spec [of "0x200000" ex_buddy] by auto

end
