(* ===== verification/Pgtable.thy ===== *)
theory Pgtable
  imports Buddy
begin

text \<open>
  The Sv39 page tables: the entry format of \<^verbatim>\<open>asm/pte.h\<close> and \<^verbatim>\<open>arch/pgtable.h\<close>, the three-level walk, \<^verbatim>\<open>map_page\<close>
  of \<^verbatim>\<open>arch/riscv/mm/page_table.c\<close> and the user part of \<^verbatim>\<open>mm/mmap.c\<close> that creates and frees tables, over the page
  allocator of theory \<open>Buddy\<close>. A table is known by its kernel address and has 512 entries; \<^verbatim>\<open>pt_alloc\<close> is
  \<^verbatim>\<open>buddy_alloc_page\<close>, as it is from the moment the buddy allocator runs.

  The main result is that the tables of an address space are a partial function from pages to entries: \<^verbatim>\<open>map_page\<close>
  changes it at one page or not at all, although it allocates, links and on failure frees tables.
\<close>

section \<open>Entries\<close>

definition PTE_V :: u64 where "PTE_V = 0x01"
definition PTE_R :: u64 where "PTE_R = 0x02"
definition PTE_W :: u64 where "PTE_W = 0x04"
definition PTE_X :: u64 where "PTE_X = 0x08"
definition PTE_U :: u64 where "PTE_U = 0x10"
definition PTE_G :: u64 where "PTE_G = 0x20"
definition PTE_A :: u64 where "PTE_A = 0x40"
definition PTE_D :: u64 where "PTE_D = 0x80"
definition PTE_TABLE :: u64 where "PTE_TABLE = PTE_V"
definition PTE_PPN_SHIFT :: nat where "PTE_PPN_SHIFT = 10"
definition PAGE_SHIFT :: nat where "PAGE_SHIFT = 12"

lemmas pte_bits = PTE_V_def PTE_R_def PTE_W_def PTE_X_def PTE_U_def PTE_G_def PTE_A_def PTE_D_def PTE_TABLE_def

definition PTE_TO_PA :: "u64 \<Rightarrow> u64" where
  "PTE_TO_PA pte = push_bit PAGE_SHIFT (drop_bit PTE_PPN_SHIFT pte)"

definition PA_TO_PTE :: "u64 \<Rightarrow> u64" where
  "PA_TO_PTE pa = push_bit PTE_PPN_SHIFT (drop_bit PAGE_SHIFT pa)"

definition asm_pte_present :: "u64 \<Rightarrow> bool" where
  "asm_pte_present pte \<longleftrightarrow> pte AND PTE_V \<noteq> 0"

definition asm_pte_user_page :: "u64 \<Rightarrow> bool" where
  "asm_pte_user_page pte \<longleftrightarrow> pte AND PTE_U \<noteq> 0 \<and> PTE_TO_PA pte \<noteq> 0"

definition asm_pte_leaf :: "u64 \<Rightarrow> bool" where
  "asm_pte_leaf pte \<longleftrightarrow> pte AND (PTE_R OR PTE_W OR PTE_X) \<noteq> 0"

definition pgprot_user :: "bool \<Rightarrow> bool \<Rightarrow> bool \<Rightarrow> u64" where
  "pgprot_user read write' exec =
     (let flags = PTE_V OR PTE_U OR PTE_A OR PTE_D;
          flags1 = (if read then flags OR PTE_R else flags);
          flags2 = (if write' then flags1 OR PTE_R OR PTE_W else flags1)
      in if exec then flags2 OR PTE_X else flags2)"

definition pte_is_present :: "u64 \<Rightarrow> bool" where
  "pte_is_present pte = asm_pte_present pte"

definition pte_is_user_page :: "u64 \<Rightarrow> bool" where
  "pte_is_user_page pte = asm_pte_user_page pte"

definition pte_phys_addr :: "u64 \<Rightarrow> u64" where
  "pte_phys_addr pte = PTE_TO_PA pte"

definition pte_leaf_prot :: "u64 \<Rightarrow> u64" where
  "pte_leaf_prot pte = pte AND mask PTE_PPN_SHIFT"

definition pte_make :: "u64 \<Rightarrow> u64 \<Rightarrow> u64" where
  "pte_make pa prot = PA_TO_PTE pa OR prot"

definition pte_clear_present :: "u64 \<Rightarrow> u64" where
  "pte_clear_present pte = pte AND NOT PTE_V"

definition pa_of :: "u64 \<Rightarrow> u64" where "pa_of va = va - KERNEL_VBASE"

section \<open>The walk\<close>

text \<open>The memory of the tables and the page allocator. A failed check of the allocator is the result \<open>None\<close>.\<close>

record ptsys =
  ptmem :: "u64 \<Rightarrow> nat \<Rightarrow> u64"
  pages :: buddy

definition set_pte :: "u64 \<Rightarrow> nat \<Rightarrow> u64 \<Rightarrow> ptsys \<Rightarrow> ptsys" where
  "set_pte t i e s = s\<lparr>ptmem := (ptmem s)(t := (ptmem s t)(i := e))\<rparr>"

definition pt_idx :: "nat \<Rightarrow> u64 \<Rightarrow> nat" where
  "pt_idx shift va = unat (drop_bit shift va AND 0x1FF)"

definition next_table :: "u64 \<Rightarrow> u64" where
  "next_table pte = va_of (PTE_TO_PA pte)"

text \<open>\<^verbatim>\<open>buddy_alloc_page\<close> through \<^verbatim>\<open>pt_alloc_page\<close>: a zeroed page, or 0.\<close>

definition pt_alloc_page :: "ptsys \<Rightarrow> (u64 \<times> ptsys) option" where
  "pt_alloc_page s =
     (case get_free_page 0 (pages s) of
        None \<Rightarrow> None
      | Some (p, b) \<Rightarrow>
          Some (p, if p \<noteq> 0 then s\<lparr>pages := b, ptmem := (ptmem s)(p := \<lambda>_. 0)\<rparr> else s\<lparr>pages := b\<rparr>))"

definition pt_free_page :: "u64 \<Rightarrow> ptsys \<Rightarrow> ptsys option" where
  "pt_free_page p s = map_option (\<lambda>b. s\<lparr>pages := b\<rparr>) (free_page p 0 (pages s))"

text \<open>The second half of \<^verbatim>\<open>pt_walk_create\<close>, from the table \<open>l1\<close> on; \<open>new_l1\<close> says whether that table is new.\<close>

definition pt_walk_l1 :: "u64 \<Rightarrow> u64 \<Rightarrow> u64 \<Rightarrow> bool \<Rightarrow> ptsys \<Rightarrow> ((errno + u64 \<times> nat) \<times> ptsys) option" where
  "pt_walk_l1 root va l1 new_l1 s =
     (let idx1 = pt_idx 21 va; l1e = ptmem s l1 idx1; idx0 = pt_idx 12 va in
      if l1e AND PTE_V = 0 then
        (case pt_alloc_page s of
           None \<Rightarrow> None
         | Some (l0, s1) \<Rightarrow>
             if l0 = 0 then
               (if new_l1 then
                  map_option (\<lambda>s2. (Inl ENOMEM, s2)) (pt_free_page l1 (set_pte root (pt_idx 30 va) 0 s1))
                else Some (Inl ENOMEM, s1))
             else Some (Inr (l0, idx0), set_pte l1 idx1 (PA_TO_PTE (pa_of l0) OR PTE_TABLE) s1))
      else if asm_pte_leaf l1e then Some (Inl EINVAL, s)
      else Some (Inr (next_table l1e, idx0), s))"

definition pt_walk_create :: "u64 \<Rightarrow> u64 \<Rightarrow> ptsys \<Rightarrow> ((errno + u64 \<times> nat) \<times> ptsys) option" where
  "pt_walk_create root va s =
     (let idx2 = pt_idx 30 va; l2e = ptmem s root idx2 in
      if l2e AND PTE_V = 0 then
        (case pt_alloc_page s of
           None \<Rightarrow> None
         | Some (l1, s1) \<Rightarrow>
             if l1 = 0 then Some (Inl ENOMEM, s1)
             else pt_walk_l1 root va l1 True (set_pte root idx2 (PA_TO_PTE (pa_of l1) OR PTE_TABLE) s1))
      else if asm_pte_leaf l2e then Some (Inl EINVAL, s)
      else pt_walk_l1 root va (next_table l2e) False s)"

definition pagetable_lookup :: "u64 \<Rightarrow> u64 \<Rightarrow> ptsys \<Rightarrow> (u64 \<times> nat) option" where
  "pagetable_lookup root va s =
     (let l2e = ptmem s root (pt_idx 30 va) in
      if l2e AND PTE_V = 0 then None
      else if asm_pte_leaf l2e then None
      else
        let l1 = next_table l2e; l1e = ptmem s l1 (pt_idx 21 va) in
        if l1e AND PTE_V = 0 then None
        else if asm_pte_leaf l1e then None
        else Some (next_table l1e, pt_idx 12 va))"

definition map_page :: "u64 \<Rightarrow> u64 \<Rightarrow> u64 \<Rightarrow> u64 \<Rightarrow> ptsys \<Rightarrow> ((errno + unit) \<times> ptsys) option" where
  "map_page root va pa perm s =
     (if \<not> IS_ALIGNED va PAGE_SIZE \<or> \<not> IS_ALIGNED pa PAGE_SIZE then Some (Inl EINVAL, s)
      else if perm AND PTE_V = 0 then Some (Inl EINVAL, s)
      else case pt_walk_create root va s of
        None \<Rightarrow> None
      | Some (Inl e, s1) \<Rightarrow> Some (Inl e, s1)
      | Some (Inr (t, i), s1) \<Rightarrow> Some (Inr (), set_pte t i (PA_TO_PTE pa OR perm) s1))"

text \<open>\<^verbatim>\<open>free_user_page_tables\<close>: the inner loop over one middle table, then the outer loop.\<close>

fun free_l0 :: "u64 \<Rightarrow> nat list \<Rightarrow> ptsys \<Rightarrow> ptsys option" where
  "free_l0 pmd [] s = Some s"
| "free_l0 pmd (j # js) s =
     (if \<not> pte_is_present (ptmem s pmd j) then free_l0 pmd js s
      else
        let pt = next_table (ptmem s pmd j) in
        case pt_free_page pt (s\<lparr>ptmem := (ptmem s)(pt := \<lambda>k. if k < 512 then 0 else ptmem s pt k)\<rparr>) of
          None \<Rightarrow> None
        | Some s1 \<Rightarrow> free_l0 pmd js s1)"

fun free_l1 :: "u64 \<Rightarrow> nat list \<Rightarrow> ptsys \<Rightarrow> ptsys option" where
  "free_l1 pgd [] s = Some s"
| "free_l1 pgd (i # is) s =
     (if \<not> pte_is_present (ptmem s pgd i) then free_l1 pgd is s
      else
        let pmd = next_table (ptmem s pgd i) in
        case free_l0 pmd [0..<512] s of
          None \<Rightarrow> None
        | Some s1 \<Rightarrow> (case pt_free_page pmd s1 of None \<Rightarrow> None | Some s2 \<Rightarrow> free_l1 pgd is s2))"

definition free_user_page_tables :: "u64 \<Rightarrow> ptsys \<Rightarrow> ptsys option" where
  "free_user_page_tables pgd s =
     (case free_l1 pgd [0..<256] s of None \<Rightarrow> None | Some s1 \<Rightarrow> pt_free_page pgd s1)"

section \<open>Well-formed tables\<close>

lemma bit_PA_TO_PTE: "bit (PA_TO_PTE pa) n \<longleftrightarrow> 10 \<le> n \<and> n < 64 \<and> bit pa (n + 2)"
  by (auto simp: PA_TO_PTE_def PTE_PPN_SHIFT_def PAGE_SHIFT_def bit_simps)

lemma bit_PTE_TO_PA: "bit (PTE_TO_PA e) n \<longleftrightarrow> 12 \<le> n \<and> n < 64 \<and> bit e (n - 2)"
proof -
  have "12 \<le> n \<Longrightarrow> 10 + (n - 12) = n - 2" by linarith
  then show ?thesis by (auto simp: PTE_TO_PA_def PTE_PPN_SHIFT_def PAGE_SHIFT_def bit_simps)
qed

lemma bit_PTE_TABLE: "bit PTE_TABLE n \<longleftrightarrow> n = 0"
  by (simp add: pte_bits bit_1_iff)

lemma unat_bit: "bit (w :: u64) n \<longleftrightarrow> bit (unat w) n"
  by (simp add: bit_unsigned_iff)

lemma pte_table:
  assumes "unat pa < 2 ^ 56" and "4096 dvd unat pa"
  shows "PTE_TO_PA (PA_TO_PTE pa OR PTE_TABLE) = pa"
    and "(PA_TO_PTE pa OR PTE_TABLE) AND PTE_V \<noteq> 0" and "\<not> asm_pte_leaf (PA_TO_PTE pa OR PTE_TABLE)"
proof -
  have hi: "bit pa n \<Longrightarrow> n < 56" for n
  proof (rule ccontr)
    assume b: "bit pa n" "\<not> n < 56"
    have "2 ^ n \<le> unat pa"
    proof (rule ccontr)
      assume "\<not> 2 ^ n \<le> unat pa"
      then have "unat pa div 2 ^ n = 0" by simp
      then show False using b(1) by (simp add: unat_bit bit_iff_odd)
    qed
    moreover have "(2 :: nat) ^ 56 \<le> 2 ^ n" using b(2) by (intro power_increasing) auto
    ultimately show False using assms(1) by linarith
  qed
  have lo: "bit pa n \<Longrightarrow> 12 \<le> n" for n
  proof (rule ccontr)
    assume b: "bit pa n" "\<not> 12 \<le> n"
    then have "2 ^ Suc n dvd (4096 :: nat)" using le_imp_power_dvd [of "Suc n" 12 "2 :: nat"] by simp
    then have "2 ^ Suc n dvd unat pa" using assms(2) dvd_trans by blast
    then obtain c where "unat pa = 2 ^ n * (2 * c)" by (auto simp: dvd_def mult.assoc mult.left_commute)
    then have "even (unat pa div 2 ^ n)" by simp
    then show False using b(1) by (simp add: unat_bit bit_iff_odd)
  qed
  show "PTE_TO_PA (PA_TO_PTE pa OR PTE_TABLE) = pa"
  proof (rule bit_word_eqI)
    fix n assume n: "n < LENGTH(64)"
    have "bit pa n \<Longrightarrow> 12 \<le> n \<and> n < 56" "12 \<le> n \<Longrightarrow> Suc (Suc (n - 2)) = n" using hi lo by auto
    then show "bit (PTE_TO_PA (PA_TO_PTE pa OR PTE_TABLE)) n = bit pa n"
      using n by (auto simp: bit_PTE_TO_PA bit_or_iff bit_PA_TO_PTE bit_PTE_TABLE)
  qed
  have 0: "bit (PA_TO_PTE pa OR PTE_TABLE) 0" by (simp add: bit_or_iff bit_PTE_TABLE)
  show "(PA_TO_PTE pa OR PTE_TABLE) AND PTE_V \<noteq> 0"
    using 0 by (metis PTE_V_def and_one_eq bit_0 of_bool_eq(2) one_neq_zero odd_iff_mod_2_eq_one)
  show "\<not> asm_pte_leaf (PA_TO_PTE pa OR PTE_TABLE)"
  proof -
    have e: "bit (2 ^ k :: u64) n \<longleftrightarrow> n = k" if "k < 64" for k n using that by (auto simp: bit_exp_iff)
    have m: "bit PTE_R n \<longleftrightarrow> n = 1" "bit PTE_W n \<longleftrightarrow> n = 2" "bit PTE_X n \<longleftrightarrow> n = 3" for n
      using e [of 1 n] e [of 2 n] e [of 3 n] by (simp_all add: pte_bits)
    have "(PA_TO_PTE pa OR PTE_TABLE) AND (PTE_R OR PTE_W OR PTE_X) = 0"
      by (rule bit_word_eqI) (auto simp: bit_and_iff m bit_or_iff bit_PA_TO_PTE bit_PTE_TABLE)
    then show ?thesis by (simp add: asm_pte_leaf_def)
  qed
qed

text \<open>
  The tables of the user half: the root, the middle tables of its first 256 entries, and their leaf tables, each named by
  the indices that lead to it.
\<close>

definition is_table :: "u64 \<Rightarrow> bool" where
  "is_table e \<longleftrightarrow> e AND PTE_V \<noteq> 0 \<and> \<not> asm_pte_leaf e"

fun tab :: "ptsys \<Rightarrow> u64 \<Rightarrow> nat list \<Rightarrow> u64 option" where
  "tab s t [] = Some t"
| "tab s t (i # is) = (if is_table (ptmem s t i) then tab s (next_table (ptmem s t i)) is else None)"

definition upaths :: "nat list set" where
  "upaths = {[]} \<union> {[i] |i. i < 256} \<union> {[i, j] |i j. i < 256 \<and> j < 512}"

definition inner :: "nat list \<Rightarrow> nat \<Rightarrow> bool" where
  "inner p i \<longleftrightarrow> p @ [i] \<in> upaths"

definition pt_wf :: "ptsys \<Rightarrow> u64 \<Rightarrow> bool" where
  "pt_wf s root \<longleftrightarrow> buddy_wf (pages s) \<and>
     (\<forall>p\<in>upaths. \<forall>t. tab s root p = Some t \<longrightarrow> (t, 0) \<in> held (pages s)) \<and>
     (\<forall>p\<in>upaths. \<forall>q\<in>upaths. \<forall>t. tab s root p = Some t \<longrightarrow> tab s root q = Some t \<longrightarrow> p = q) \<and>
     (\<forall>p i t. inner p i \<longrightarrow> tab s root p = Some t \<longrightarrow> ptmem s t i AND PTE_V \<noteq> 0 \<longrightarrow> \<not> asm_pte_leaf (ptmem s t i))"

lemma pt_wfD:
  assumes "pt_wf s root"
  shows "buddy_wf (pages s)" and "p \<in> upaths \<Longrightarrow> tab s root p = Some t \<Longrightarrow> (t, 0) \<in> held (pages s)"
    and "p \<in> upaths \<Longrightarrow> q \<in> upaths \<Longrightarrow> tab s root p = Some t \<Longrightarrow> tab s root q = Some t \<Longrightarrow> p = q"
    and "inner p i \<Longrightarrow> tab s root p = Some t \<Longrightarrow> ptmem s t i AND PTE_V \<noteq> 0 \<Longrightarrow> \<not> asm_pte_leaf (ptmem s t i)"
  using assms unfolding pt_wf_def by blast+

lemma tab_append: "tab s t (p @ q) = Option.bind (tab s t p) (\<lambda>u. tab s u q)"
  by (induction p arbitrary: t) auto

lemma tab_snoc: "tab s t (p @ [i]) = (case tab s t p of None \<Rightarrow> None
    | Some u \<Rightarrow> if is_table (ptmem s u i) then Some (next_table (ptmem s u i)) else None)"
  by (simp add: tab_append split: option.splits)

lemma innerD: "inner p i \<Longrightarrow> p \<in> upaths \<and> (p = [] \<and> i < 256 \<or> (\<exists>k. p = [k] \<and> k < 256 \<and> i < 512))"
  by (cases p) (auto simp: inner_def upaths_def append_eq_Cons_conv)

lemma upaths_cases:
  assumes "q \<in> upaths"
  obtains "q = []" | p i where "q = p @ [i]" "inner p i" "p \<in> upaths"
proof (cases q rule: rev_cases)
  case (snoc p i)
  then have "inner p i" using assms by (simp add: inner_def)
  then show ?thesis using that(2) [OF snoc] innerD by blast
qed (use that in simp)

text \<open>An entry outside the tables that lead to a path does not matter for it.\<close>

lemma tab_same:
  assumes "\<And>p i t. inner p i \<Longrightarrow> tab s root p = Some t \<Longrightarrow> is_table (ptmem s' t i) = is_table (ptmem s t i) \<and>
      (is_table (ptmem s t i) \<longrightarrow> ptmem s' t i = ptmem s t i)"
    and "q \<in> upaths"
  shows "tab s' root q = tab s root q"
  using assms(2)
proof (induction "length q" arbitrary: q rule: less_induct)
  case less
  show ?case
  proof (cases rule: upaths_cases [OF less.prems])
    case (2 p i)
    then have "tab s' root p = tab s root p" using less by simp
    then show ?thesis using assms(1) [OF 2(2)] unfolding 2(1) tab_snoc by (auto split: option.splits)
  qed simp
qed

lemma set_pte_simps [simp]:
  "ptmem (set_pte t i e s) u j = (if u = t \<and> j = i then e else ptmem s u j)" "pages (set_pte t i e s) = pages s"
  by (simp_all add: set_pte_def)

lemma pt_wf_same:
  assumes "pt_wf s root" and "\<And>q. q \<in> upaths \<Longrightarrow> tab s' root q = tab s root q" and "buddy_wf (pages s')" and "held (pages s) \<subseteq> held (pages s')"
    and "\<And>p i t. inner p i \<Longrightarrow> tab s root p = Some t \<Longrightarrow> ptmem s' t i AND PTE_V \<noteq> 0 \<Longrightarrow> \<not> asm_pte_leaf (ptmem s' t i)"
  shows "pt_wf s' root"
  unfolding pt_wf_def
proof (intro conjI ballI allI impI)
  show "buddy_wf (pages s')" by (rule assms(3))
  show "p \<in> upaths \<Longrightarrow> tab s' root p = Some t \<Longrightarrow> (t, 0) \<in> held (pages s')" for p t
    using pt_wfD(2) [OF assms(1)] assms(2,4) by auto
  show "p \<in> upaths \<Longrightarrow> q \<in> upaths \<Longrightarrow> tab s' root p = Some t \<Longrightarrow> tab s' root q = Some t \<Longrightarrow> p = q" for p q t
    using pt_wfD(3) [OF assms(1), of p q t] assms(2) by simp
  show "\<not> asm_pte_leaf (ptmem s' t i)" if "inner p i" "tab s' root p = Some t" "ptmem s' t i AND PTE_V \<noteq> 0" for p i t
    using assms(5) [OF that(1) _ that(3)] assms(2) [of p] innerD [OF that(1)] that(2) by simp
qed

text \<open>Writing a leaf entry.\<close>

lemma leaf_table:
  assumes "pt_wf s root" and "[i, j] \<in> upaths" and "tab s root [i, j] = Some t" and "inner p k" and "tab s root p = Some u"
  shows "u \<noteq> t"
proof
  assume "u = t"
  then have "p = [i, j]" using pt_wfD(3) [OF assms(1) _ assms(2) _ assms(3), of p] innerD [OF assms(4)] assms(5) by blast
  then show False using innerD [OF assms(4)] by auto
qed

lemma write_leaf:
  assumes "pt_wf s root" and "[i, j] \<in> upaths" and "tab s root [i, j] = Some t"
  shows "pt_wf (set_pte t k e s) root" and "q \<in> upaths \<Longrightarrow> tab (set_pte t k e s) root q = tab s root q"
proof -
  note ne = leaf_table [OF assms]
  show same: "tab (set_pte t k e s) root q = tab s root q" if "q \<in> upaths" for q
    by (rule tab_same [OF _ that]) (use ne in auto)
  show "pt_wf (set_pte t k e s) root"
    by (rule pt_wf_same [OF assms(1) same]) (use ne pt_wfD(1,4) [OF assms(1)] in auto)
qed

section \<open>Allocating and linking tables\<close>

lemma held_page:
  assumes "buddy_wf b" and "(t, 0) \<in> held b"
  shows "t \<noteq> 0" and "next_table (PA_TO_PTE (pa_of t) OR PTE_TABLE) = t" and "is_table (PA_TO_PTE (pa_of t) OR PTE_TABLE)"
proof -
  obtain p where p: "t = pfn_to_virt p" "isalloc b p 0" using heldE [OF assms] by metis
  have "p < 65536" using p(2) assms(1) by (auto simp: buddy_wf_def isalloc_def)
  then have u: "unat t = 0xFFFFFFC080000000 + p * 4096" using p(1) unat_pfn_to_virt by simp
  then show "t \<noteq> 0" by auto
  have "unat (pa_of t) = unat t - unat KERNEL_VBASE"
    unfolding pa_of_def by (rule unat_sub) (simp add: word_le_nat_alt u KERNEL_VBASE_def)
  then have pa: "unat (pa_of t) = 4096 * (524288 + p)" using u by (simp add: KERNEL_VBASE_def)
  have ok: "unat (pa_of t) < 2 ^ 56" "4096 dvd unat (pa_of t)" using \<open>p < 65536\<close> unfolding pa by simp_all
  show "next_table (PA_TO_PTE (pa_of t) OR PTE_TABLE) = t"
    by (simp add: next_table_def pte_table(1) [OF ok]) (simp add: va_of_def pa_of_def)
  show "is_table (PA_TO_PTE (pa_of t) OR PTE_TABLE)" using pte_table(2,3) [OF ok] by (simp add: is_table_def)
qed

lemma pt_alloc_ok:
  assumes wf: "pt_wf s root"
  obtains (none) "pt_alloc_page s = Some (0, s)"
  | (page) t s1 where "pt_alloc_page s = Some (t, s1)" "t \<noteq> 0" "(t, 0) \<notin> held (pages s)" "held (pages s1) = insert (t, 0) (held (pages s))"
      "foot (t, 0) \<subseteq> free_frames (pages s)" "free_frames (pages s1) = free_frames (pages s) - foot (t, 0)"
      "buddy_wf (pages s1)" "ptmem s1 = (ptmem s)(t := \<lambda>_. 0)"
proof -
  obtain a b where a: "get_free_page 0 (pages s) = Some (a, b)" "buddy_wf b"
    "if a = 0 then b = pages s else foot (a, 0) \<subseteq> free_frames (pages s) \<and> free_frames b = free_frames (pages s) - foot (a, 0) \<and>
       held b = insert (a, 0) (held (pages s))"
    using pool.pool_alloc [OF pt_wfD(1) [OF wf], of 0] by blast
  show thesis
  proof (cases "a = 0")
    case True
    then show ?thesis using none a by (simp add: pt_alloc_page_def)
  next
    case False
    have "(a, 0) \<notin> held (pages s)"
    proof
      assume "(a, 0) \<in> held (pages s)"
      then have "foot (a, 0) \<inter> free_frames (pages s) = {}" using pool.pool_disjoint(1) [OF pt_wfD(1) [OF wf]] by blast
      then show False using a(3) False blk_contains [of "frame_of a" 0] by (auto simp: foot_def)
    qed
    then show ?thesis
      using page [of a "s\<lparr>pages := b, ptmem := (ptmem s)(a := \<lambda>_. 0)\<rparr>"] a False by (simp add: pt_alloc_page_def)
  qed
qed

text \<open>A page just allocated leads nowhere and is no table yet.\<close>

lemma fresh_same:
  assumes wf: "pt_wf s root" and t: "(t, 0) \<notin> held (pages s)" and s1: "ptmem s1 = (ptmem s)(t := \<lambda>_. 0)" "buddy_wf (pages s1)"
    "held (pages s1) = insert (t, 0) (held (pages s))"
  shows "pt_wf s1 root" and "q \<in> upaths \<Longrightarrow> tab s1 root q = tab s root q"
proof -
  have ne: "u \<noteq> t" if "inner p i" "tab s root p = Some u" for p i u
    using pt_wfD(2) [OF wf, of p u] innerD [OF that(1)] that(2) t by auto
  show same: "tab s1 root q = tab s root q" if "q \<in> upaths" for q
    by (rule tab_same [OF _ that]) (use ne s1(1) in auto)
  show "pt_wf s1 root"
    by (rule pt_wf_same [OF wf same]) (use ne s1 pt_wfD(4) [OF wf] in auto)
qed

text \<open>Linking such a page at an empty entry adds exactly that path.\<close>

lemma link_table:
  assumes wf: "pt_wf s root" and p: "inner p i" "tab s root p = Some u" and e: "ptmem s u i AND PTE_V = 0"
    and t: "(t, 0) \<in> held (pages s)" "\<forall>q\<in>upaths. tab s root q \<noteq> Some t" "ptmem s t = (\<lambda>_. 0)"
  defines "s2 \<equiv> set_pte u i (PA_TO_PTE (pa_of t) OR PTE_TABLE) s"
  shows "pt_wf s2 root" and "q \<in> upaths \<Longrightarrow> tab s2 root q = (if q = p @ [i] then Some t else tab s root q)"
proof -
  note h = held_page [OF pt_wfD(1) [OF wf] t(1)]
  have pu: "p \<in> upaths" "p @ [i] \<in> upaths" using innerD [OF p(1)] p(1) by (auto simp: inner_def)
  have ut: "u \<noteq> t" using t(2) pu(1) p(2) by blast
  have other: "q' = p" if "q' \<in> upaths" "tab s root q' = Some u" for q' using pt_wfD(3) [OF wf that(1) pu(1) that(2) p(2)] .
  have none: "tab s root (p @ i # r) = None" for r using e p(2) by (simp add: tab_append is_table_def)
  show tabs: "tab s2 root q = (if q = p @ [i] then Some t else tab s root q)" if "q \<in> upaths" for q
    using that
  proof (induction "length q" arbitrary: q rule: less_induct)
    case less
    show ?case
    proof (cases rule: upaths_cases [OF less.prems])
      case 1
      then show ?thesis by simp
    next
      case (2 p' j)
      have ih: "tab s2 root p' = (if p' = p @ [i] then Some t else tab s root p')" using less 2 by simp
      consider "p' = p @ [i]" | "p' = p" "j = i" | "p' \<noteq> p @ [i]" "\<not> (p' = p \<and> j = i)" by blast
      then show ?thesis
      proof cases
        case 1
        then have "tab s root q = None" using none [of "[j]"] 2(1) by simp
        then show ?thesis using 1 ih ut unfolding 2(1) tab_snoc by (simp add: s2_def t(3) is_table_def)
      next
        case 2
        then show ?thesis using ih p(2) h unfolding \<open>q = p' @ [j]\<close> tab_snoc by (simp add: s2_def)
      next
        case 3
        then have "v \<noteq> u \<or> j \<noteq> i" if "tab s root p' = Some v" for v using other [OF 2(3)] that by blast
        then show ?thesis using 3 ih unfolding 2(1) tab_snoc by (auto simp: s2_def split: option.splits)
      qed
    qed
  qed
  show "pt_wf s2 root"
    unfolding pt_wf_def
  proof (intro conjI ballI allI impI)
    show "buddy_wf (pages s2)" using pt_wfD(1) [OF wf] by (simp add: s2_def)
    show "q \<in> upaths \<Longrightarrow> tab s2 root q = Some v \<Longrightarrow> (v, 0) \<in> held (pages s2)" for q v
      using tabs [of q] pt_wfD(2) [OF wf, of q v] t(1) by (auto simp: s2_def split: if_splits)
    show "q \<in> upaths \<Longrightarrow> q' \<in> upaths \<Longrightarrow> tab s2 root q = Some v \<Longrightarrow> tab s2 root q' = Some v \<Longrightarrow> q = q'" for q q' v
      using tabs [of q] tabs [of q'] pt_wfD(3) [OF wf, of q q' v] t(2) by (auto split: if_splits)
    show "\<not> asm_pte_leaf (ptmem s2 v j)" if q: "inner q j" "tab s2 root q = Some v" "ptmem s2 v j AND PTE_V \<noteq> 0" for q j v
      using q tabs [of q] innerD [OF q(1)] pt_wfD(4) [OF wf q(1), of v] h(3) t(3) ut
      by (auto simp: s2_def is_table_def split: if_splits)
  qed
qed

section \<open>The function the tables represent\<close>

definition ptval :: "ptsys \<Rightarrow> u64 \<Rightarrow> u64 \<Rightarrow> u64" where
  "ptval s root va = (case pagetable_lookup root va s of None \<Rightarrow> 0 | Some (t, i) \<Rightarrow> ptmem s t i)"

lemma pagetable_lookup_tab:
  "pagetable_lookup root va s = map_option (\<lambda>t. (t, pt_idx 12 va)) (tab s root [pt_idx 30 va, pt_idx 21 va])"
  by (simp add: pagetable_lookup_def Let_def is_table_def)

lemma ptval_tab:
  "ptval s root va = (case tab s root [pt_idx 30 va, pt_idx 21 va] of None \<Rightarrow> 0 | Some t \<Rightarrow> ptmem s t (pt_idx 12 va))"
  unfolding ptval_def pagetable_lookup_tab by (simp split: option.splits)

lemma unat_drop_bit_eq: "unat (drop_bit k (va :: u64)) = drop_bit k (unat va)"
proof -
  have "take_bit 64 (unat va) = unat va" using unsigned_less [of va, where 'a = nat] by (simp add: take_bit_nat_eq_self_iff)
  then show ?thesis by (simp only: unsigned_drop_bit_eq word_size len_of_numeral_defs) simp
qed

lemma pt_idx_unat: "pt_idx k va = unat va div 2 ^ k mod 512"
proof -
  have "(0x1FF :: u64) = mask 9" by (simp add: mask_eq_exp_minus_1)
  then have "drop_bit k va AND 0x1FF = take_bit 9 (drop_bit k va)" by (simp only: take_bit_eq_mask)
  then have "pt_idx k va = take_bit 9 (drop_bit k (unat va))" by (simp only: pt_idx_def unsigned_take_bit_eq unat_drop_bit_eq)
  then show ?thesis by (simp add: take_bit_eq_mod drop_bit_eq_div)
qed

lemma user_path: "va < 0x4000000000 \<Longrightarrow> [pt_idx 30 va, pt_idx 21 va] \<in> upaths \<and> inner [] (pt_idx 30 va) \<and> inner [pt_idx 30 va] (pt_idx 21 va)"
  by (auto simp: upaths_def inner_def pt_idx_unat word_less_nat_alt)

lemma same_page_idx:
  assumes "va < 0x4000000000" and "va' < 0x4000000000"
  shows "pt_idx 30 va' = pt_idx 30 va \<and> pt_idx 21 va' = pt_idx 21 va \<and> pt_idx 12 va' = pt_idx 12 va \<longleftrightarrow> drop_bit 12 va' = drop_bit 12 va"
proof -
  define n n' where "n = unat va div 4096" and "n' = unat va' div 4096"
  have i: "pt_idx 30 va = n div 512 div 512" "pt_idx 21 va = n div 512 mod 512" "pt_idx 12 va = n mod 512"
    "pt_idx 30 va' = n' div 512 div 512" "pt_idx 21 va' = n' div 512 mod 512" "pt_idx 12 va' = n' mod 512"
    using assms unfolding n_def n'_def by (simp_all add: pt_idx_unat div_mult2_eq [symmetric] word_less_nat_alt)
  have "drop_bit 12 va' = drop_bit 12 va \<longleftrightarrow> n' = n"
    by (simp only: word_unat_eq_iff unat_drop_bit_eq n_def n'_def) (simp add: drop_bit_eq_div)
  moreover have "n' div 512 div 512 = n div 512 div 512 \<and> n' div 512 mod 512 = n div 512 mod 512 \<and> n' mod 512 = n mod 512 \<Longrightarrow> n' = n"
    by (metis div_mult_mod_eq)
  ultimately show ?thesis unfolding i by auto
qed

lemma ptval_same:
  assumes "\<And>q. q \<in> upaths \<Longrightarrow> tab s' root q = tab s root q"
    and "\<And>i j t k. [i, j] \<in> upaths \<Longrightarrow> tab s root [i, j] = Some t \<Longrightarrow> ptmem s' t k = ptmem s t k" and "va < 0x4000000000"
  shows "ptval s' root va = ptval s root va"
  using assms(1) assms(2) [of "pt_idx 30 va" "pt_idx 21 va"] user_path [OF assms(3)] unfolding ptval_tab
  by (cases "tab s root [pt_idx 30 va, pt_idx 21 va]") (simp_all del: tab.simps)

lemma table_not_fresh:
  assumes "pt_wf s root" and "(t, 0) \<notin> held (pages s)" and "q \<in> upaths"
  shows "tab s root q \<noteq> Some t"
  using pt_wfD(2) [OF assms(1,3)] assms(2) by blast

lemma fresh_link:
  assumes wf: "pt_wf s root" and p: "inner p i" "tab s root p = Some u" and e: "ptmem s u i AND PTE_V = 0"
    and t: "(t, 0) \<notin> held (pages s)" and s1: "ptmem s1 = (ptmem s)(t := \<lambda>_. 0)" "buddy_wf (pages s1)"
      "held (pages s1) = insert (t, 0) (held (pages s))"
  defines "s2 \<equiv> set_pte u i (PA_TO_PTE (pa_of t) OR PTE_TABLE) s1"
  shows "pt_wf s2 root" and "q \<in> upaths \<Longrightarrow> tab s2 root q = (if q = p @ [i] then Some t else tab s root q)"
    and "va < 0x4000000000 \<Longrightarrow> ptval s2 root va = ptval s root va" and "ptmem s2 t = (\<lambda>_. 0)" and "u \<noteq> t"
proof -
  note f = fresh_same [OF wf t s1]
  have pu: "p \<in> upaths" using innerD [OF p(1)] by blast
  have ut: "u \<noteq> t" using table_not_fresh [OF wf t pu] p(2) by blast
  have u1: "tab s1 root p = Some u" "ptmem s1 u i AND PTE_V = 0" "(t, 0) \<in> held (pages s1)" "ptmem s1 t = (\<lambda>_. 0)"
    using f(2) [OF pu] p(2) e s1 ut by simp_all
  have nt: "\<forall>q\<in>upaths. tab s1 root q \<noteq> Some t" using f(2) table_not_fresh [OF wf t] by simp
  note l = link_table [OF f(1) p(1) u1(1,2,3) nt u1(4), folded s2_def]
  show "pt_wf s2 root" by (rule l(1))
  show tabs: "tab s2 root q = (if q = p @ [i] then Some t else tab s root q)" if "q \<in> upaths" for q
    using l(2) [OF that] f(2) [OF that] by simp
  show "u \<noteq> t" "ptmem s2 t = (\<lambda>_. 0)" using ut u1(4) by (auto simp: s2_def)
  show "ptval s2 root va = ptval s root va" if va: "va < 0x4000000000"
  proof -
    let ?q = "[pt_idx 30 va, pt_idx 21 va]"
    have q: "?q \<in> upaths" using user_path [OF va] by blast
    have none: "tab s root (p @ [i]) = None" using p(2) e by (simp add: tab_snoc is_table_def)
    have "v \<noteq> u" "v \<noteq> t" if "tab s root ?q = Some v" for v
      using leaf_table [OF wf q that p] table_not_fresh [OF wf t q] that by auto
    then show ?thesis
      using tabs [OF q] none \<open>ptmem s2 t = (\<lambda>_. 0)\<close> s1(1) unfolding ptval_tab by (auto simp: s2_def simp del: tab.simps split: option.splits)
  qed
qed

lemma walk_l1_ok:
  assumes wf: "pt_wf s root" and va: "va < 0x4000000000" and l1: "tab s root [pt_idx 30 va] = Some l1"
  obtains (found) t s' where "pt_walk_l1 root va l1 b s = Some (Inr (t, pt_idx 12 va), s')" "pt_wf s' root"
      "tab s' root [pt_idx 30 va, pt_idx 21 va] = Some t" "\<And>va'. va' < 0x4000000000 \<Longrightarrow> ptval s' root va' = ptval s root va'"
      "ptmem s' root = ptmem s root"
  | (nomem) "pt_walk_l1 root va l1 b s =
      (if b then map_option (\<lambda>s2. (Inl ENOMEM, s2)) (pt_free_page l1 (set_pte root (pt_idx 30 va) 0 s)) else Some (Inl ENOMEM, s))"
proof -
  note u = user_path [OF va]
  let ?p = "[pt_idx 30 va]" and ?i = "pt_idx 21 va"
  define e where "e = ptmem s l1 ?i"
  have root: "l1 \<noteq> root"
    using pt_wfD(3) [OF wf, of ?p "[]" root] l1 u innerD [of ?p ?i] by (auto simp: upaths_def)
  show thesis
  proof (cases "e AND PTE_V = 0")
    case False
    then have "\<not> asm_pte_leaf e" using pt_wfD(4) [OF wf, of ?p ?i l1] u l1 by (simp add: e_def)
    then show ?thesis
      using False found [of "next_table e" s] wf l1 by (simp add: pt_walk_l1_def Let_def e_def [symmetric] is_table_def split: if_splits)
  next
    case True
    show ?thesis
    proof (cases rule: pt_alloc_ok [OF wf])
      case 1
      then show ?thesis using nomem True by (simp add: pt_walk_l1_def Let_def e_def [symmetric])
    next
      case (2 t s1)
      note l = fresh_link [OF wf _ l1 True [unfolded e_def] 2(3,8,7,4)]
      have path: "?p @ [?i] = [pt_idx 30 va, ?i]" by simp
      show ?thesis
      proof (rule found)
        show "pt_walk_l1 root va l1 b s = Some (Inr (t, pt_idx 12 va), set_pte l1 ?i (PA_TO_PTE (pa_of t) OR PTE_TABLE) s1)"
          using 2(1,2) True by (simp add: pt_walk_l1_def Let_def e_def [symmetric])
        show "tab (set_pte l1 ?i (PA_TO_PTE (pa_of t) OR PTE_TABLE) s1) root [pt_idx 30 va, ?i] = Some t"
          using l(2) [of "[pt_idx 30 va, ?i]"] u by (simp del: tab.simps)
        have "t \<noteq> root" using table_not_fresh [OF wf 2(3), of "[]"] by (auto simp: upaths_def)
        then show "ptmem (set_pte l1 ?i (PA_TO_PTE (pa_of t) OR PTE_TABLE) s1) root = ptmem s root"
          using root 2(8) by (auto simp: fun_eq_iff)
      qed (use l u in blast)+
    qed
  qed
qed

lemma pt_free_ok:
  assumes "buddy_wf (pages s)" and "(t, 0) \<in> held (pages s)"
  obtains s' where "pt_free_page t s = Some s'" "buddy_wf (pages s')" "free_frames (pages s') = free_frames (pages s) \<union> foot (t, 0)"
    "held (pages s') = held (pages s) - {(t, 0)}" "ptmem s' = ptmem s"
proof -
  obtain b where "free_page t 0 (pages s) = Some b" "buddy_wf b" "free_frames b = free_frames (pages s) \<union> foot (t, 0)"
    "held b = held (pages s) - {(t, 0)}"
    using pool.pool_free [OF assms] by auto
  then show thesis using that [of "s\<lparr>pages := b\<rparr>"] by (simp add: pt_free_page_def)
qed

lemma walk_create_ok:
  assumes wf: "pt_wf s root" and va: "va < 0x4000000000"
  shows "\<exists>r s'. pt_walk_create root va s = Some (r, s') \<and> pt_wf s' root \<and> (\<forall>i\<ge>256. ptmem s' root i = ptmem s root i) \<and>
    (\<forall>va'<0x4000000000. ptval s' root va' = ptval s root va') \<and>
    (case r of Inl e \<Rightarrow> e = ENOMEM \<and> held (pages s') = held (pages s) \<and> free_frames (pages s') = free_frames (pages s)
     | Inr (t, i) \<Rightarrow> tab s' root [pt_idx 30 va, pt_idx 21 va] = Some t \<and> i = pt_idx 12 va)"
proof -
  note u = user_path [OF va]
  let ?i = "pt_idx 30 va"
  define e where "e = ptmem s root ?i"
  have i: "?i < 256" using u by (auto simp: inner_def upaths_def)
  show ?thesis
  proof (cases "e AND PTE_V = 0")
    case False
    then have "\<not> asm_pte_leaf e" using pt_wfD(4) [OF wf, of "[]" ?i root] u by (simp add: e_def)
    then have w: "pt_walk_create root va s = pt_walk_l1 root va (next_table e) False s" "tab s root [?i] = Some (next_table e)"
      using False by (simp_all add: pt_walk_create_def Let_def e_def [symmetric] is_table_def)
    show ?thesis
    proof (cases rule: walk_l1_ok [OF wf va w(2), where b = False])
      case (1 t s')
      then show ?thesis unfolding w(1) by (intro exI [of _ "Inr (t, pt_idx 12 va)"] exI [of _ s']) (simp del: tab.simps)
    next
      case 2
      then show ?thesis unfolding w(1) using wf by simp
    qed
  next
    case True
    show ?thesis
    proof (cases rule: pt_alloc_ok [OF wf])
      case 1
      then show ?thesis using True wf by (simp add: pt_walk_create_def Let_def e_def [symmetric])
    next
      case (2 l1 s1)
      define s2 where "s2 = set_pte root ?i (PA_TO_PTE (pa_of l1) OR PTE_TABLE) s1"
      note l = fresh_link [OF wf _ tab.simps(1) True [unfolded e_def] 2(3,8,7,4), folded s2_def]
      have nr: "l1 \<noteq> root" using table_not_fresh [OF wf 2(3), of "[]"] by (auto simp: upaths_def)
      have s2: "pt_wf s2 root" "tab s2 root [?i] = Some l1" "\<forall>i\<ge>256. ptmem s2 root i = ptmem s root i"
        "\<forall>va'<0x4000000000. ptval s2 root va' = ptval s root va'"
      proof -
        show "pt_wf s2 root" using l(1) u by blast
        have "[?i] \<in> upaths" using i by (simp add: upaths_def)
        then show "tab s2 root [?i] = Some l1" using l(2) [of "[?i]"] u by (simp del: tab.simps)
        show "\<forall>i\<ge>256. ptmem s2 root i = ptmem s root i" using i nr 2(8) by (simp add: s2_def)
        show "\<forall>va'<0x4000000000. ptval s2 root va' = ptval s root va'" using l(3) u by blast
      qed
      have w: "pt_walk_create root va s = pt_walk_l1 root va l1 True s2"
        using True 2(1,2) by (simp add: pt_walk_create_def Let_def e_def [symmetric] s2_def)
      show ?thesis
      proof (cases rule: walk_l1_ok [OF s2(1) va s2(2), where b = True])
        case (1 t s')
        then show ?thesis unfolding w using s2(3,4)
          by (intro exI [of _ "Inr (t, pt_idx 12 va)"] exI [of _ s']) (simp del: tab.simps)
      next
        case 2
        define s3 where "s3 = set_pte root ?i 0 s2"
        have p3: "pages s3 = pages s1" by (simp add: s3_def s2_def)
        have "(l1, 0) \<in> held (pages s3)" "buddy_wf (pages s3)" unfolding p3 using \<open>held (pages s1) = _\<close> \<open>buddy_wf (pages s1)\<close> by auto
        then obtain s4 where s4: "pt_free_page l1 s3 = Some s4" "buddy_wf (pages s4)"
            "free_frames (pages s4) = free_frames (pages s3) \<union> foot (l1, 0)" "held (pages s4) = held (pages s3) - {(l1, 0)}" "ptmem s4 = ptmem s3"
          using pt_free_ok by blast
        have held4: "held (pages s4) = held (pages s)" "free_frames (pages s4) = free_frames (pages s)"
          using s4(3,4) p3 \<open>held (pages s1) = _\<close> \<open>free_frames (pages s1) = _\<close> \<open>foot (l1, 0) \<subseteq> _\<close> \<open>(l1, 0) \<notin> _\<close> by auto
        have mem4: "ptmem s4 v j = (if v = root \<and> j = ?i then 0 else if v = l1 then 0 else ptmem s v j)" for v j
          using s4(5) \<open>ptmem s1 = _\<close> nr by (simp add: s3_def s2_def)
        have nl: "v \<noteq> l1" if "q \<in> upaths" "tab s root q = Some v" for q v
          using table_not_fresh [OF wf \<open>(l1, 0) \<notin> _\<close> that(1)] that(2) by blast
        have tabs: "tab s4 root q = tab s root q" if "q \<in> upaths" for q
          by (rule tab_same [OF _ that]) (use nl innerD True in \<open>auto simp: mem4 is_table_def e_def\<close>)
        have wf4: "pt_wf s4 root"
          by (rule pt_wf_same [OF wf tabs s4(2)]) (use nl innerD pt_wfD(4) [OF wf] held4 in \<open>auto simp: mem4\<close>)
        have "ptval s4 root va' = ptval s root va'" if "va' < 0x4000000000" for va'
        proof (rule ptval_same [OF tabs _ that])
          fix i j t k assume q: "[i, j] \<in> upaths" "tab s root [i, j] = Some t"
          have "t \<noteq> root" using leaf_table [OF wf q, of "[]" ?i root] u by simp
          then show "ptmem s4 t k = ptmem s t k" using nl [OF q] by (simp add: mem4)
        qed
        moreover have "\<forall>i\<ge>256. ptmem s4 root i = ptmem s root i" using i nr by (simp add: mem4)
        moreover have "pt_walk_create root va s = Some (Inl ENOMEM, s4)" unfolding w 2 using s4(1) by (simp add: s3_def)
        ultimately show ?thesis using wf4 held4 by simp
      qed
    qed
  qed
qed

text \<open>
  C29: Page tables implement a function from pages to entries. On well-formed tables \<^verbatim>\<open>map_page\<close> never runs into a bug
  stop of the allocator. When it succeeds it changes the entry of the one page and nothing else in the user half of the
  address space, although it may have allocated and linked up to two tables; when it fails, with \<^verbatim>\<open>EINVAL\<close> exactly for
  unaligned addresses or an invalid permission and \<^verbatim>\<open>ENOMEM\<close> otherwise, it changes no entry and every page it took is
  back in the allocator. The tables stay well formed and the kernel half of the root is untouched.
\<close>

theorem map_page_spec:
  assumes "pt_wf s root" and "va < 0x4000000000"
  shows "\<exists>r s'. map_page root va pa perm s = Some (r, s') \<and> pt_wf s' root \<and> (\<forall>i\<ge>256. ptmem s' root i = ptmem s root i) \<and>
    (case r of
       Inr _ \<Rightarrow> IS_ALIGNED va PAGE_SIZE \<and> IS_ALIGNED pa PAGE_SIZE \<and> perm AND PTE_V \<noteq> 0 \<and>
         (\<forall>va'<0x4000000000. ptval s' root va' =
            (if drop_bit 12 va' = drop_bit 12 va then PA_TO_PTE pa OR perm else ptval s root va'))
     | Inl e \<Rightarrow>
         e = (if IS_ALIGNED va PAGE_SIZE \<and> IS_ALIGNED pa PAGE_SIZE \<and> perm AND PTE_V \<noteq> 0 then ENOMEM else EINVAL) \<and>
         (\<forall>va'<0x4000000000. ptval s' root va' = ptval s root va') \<and>
         held (pages s') = held (pages s) \<and> free_frames (pages s') = free_frames (pages s))"
proof (cases "IS_ALIGNED va PAGE_SIZE \<and> IS_ALIGNED pa PAGE_SIZE \<and> perm AND PTE_V \<noteq> 0")
  case False
  then have "map_page root va pa perm s = Some (Inl EINVAL, s)" by (auto simp: map_page_def)
  then show ?thesis using assms(1) False by auto
next
  case True
  obtain r s1 where w: "pt_walk_create root va s = Some (r, s1)" "pt_wf s1 root" "\<forall>i\<ge>256. ptmem s1 root i = ptmem s root i"
    "\<forall>va'<0x4000000000. ptval s1 root va' = ptval s root va'"
    "case r of Inl e \<Rightarrow> e = ENOMEM \<and> held (pages s1) = held (pages s) \<and> free_frames (pages s1) = free_frames (pages s)
     | Inr (t, i) \<Rightarrow> tab s1 root [pt_idx 30 va, pt_idx 21 va] = Some t \<and> i = pt_idx 12 va"
    using walk_create_ok [OF assms] by blast
  show ?thesis
  proof (cases r)
    case (Inl e)
    then show ?thesis using w True by (simp add: map_page_def)
  next
    case (Inr ti)
    then obtain t where t: "r = Inr (t, pt_idx 12 va)" "tab s1 root [pt_idx 30 va, pt_idx 21 va] = Some t"
      using w(5) by (auto simp del: tab.simps split: prod.splits)
    note u = user_path [OF assms(2)]
    define s2 where "s2 = set_pte t (pt_idx 12 va) (PA_TO_PTE pa OR perm) s1"
    note l = write_leaf [OF w(2) conjunct1 [OF u] t(2), where k = "pt_idx 12 va" and e = "PA_TO_PTE pa OR perm", folded s2_def]
    have "t \<noteq> root" using leaf_table [OF w(2) conjunct1 [OF u] t(2), of "[]"] u by auto
    then have keep: "\<forall>i\<ge>256. ptmem s2 root i = ptmem s root i" using w(3) by (simp add: s2_def)
    have "ptval s2 root va' = (if drop_bit 12 va' = drop_bit 12 va then PA_TO_PTE pa OR perm else ptval s1 root va')"
      if v: "va' < 0x4000000000" for va'
    proof -
      let ?q = "[pt_idx 30 va', pt_idx 21 va']"
      have q: "?q \<in> upaths" using user_path [OF v] by blast
      have "tab s1 root ?q = Some t \<longleftrightarrow> ?q = [pt_idx 30 va, pt_idx 21 va]"
        using pt_wfD(3) [OF w(2) q conjunct1 [OF u] _ t(2)] t(2) by metis
      then show ?thesis
        using same_page_idx [OF assms(2) v] t(2) unfolding ptval_tab l(2) [OF q]
        by (cases "tab s1 root ?q") (auto simp: s2_def simp del: tab.simps)
    qed
    moreover have "map_page root va pa perm s = Some (Inr (), s2)" using w(1) True t(1) by (simp add: map_page_def s2_def)
    ultimately show ?thesis using w(4) l(1) keep True by simp
  qed
qed

text \<open>An example: an empty root table from an allocator with eight frames.\<close>

definition ex_root :: u64 where
  "ex_root = fst (the (get_free_page 0 ex_buddy))"

definition ex_pt :: ptsys where
  "ex_pt = \<lparr>ptmem = \<lambda>_ _. 0, pages = snd (the (get_free_page 0 ex_buddy))\<rparr>"

lemma ex_pt_wf: "pt_wf ex_pt ex_root"
proof -
  have "buddy_inv ex_buddy {}" using ex_buddy_ok(1) by (simp add: buddy_wf_def)
  moreover have "blk 0 0 \<subseteq> free_frames ex_buddy" by (auto simp: ex_buddy_ok blk_def)
  ultimately have "\<exists>p j. 0 \<le> j \<and> isfree ex_buddy p j" using free_run_iff [of ex_buddy 0] by (auto simp: MAX_ORDER_def)
  then obtain a b where g: "get_free_page 0 ex_buddy = Some (a, b)" "buddy_wf b" "(a, 0) \<in> held b"
    using get_free_page_ok [OF ex_buddy_ok(1), of 0] by (auto split: if_splits)
  have t: "tab ex_pt ex_root p = Some t \<longleftrightarrow> p = [] \<and> t = ex_root" for p t
    by (cases p) (auto simp: ex_pt_def is_table_def)
  show ?thesis using g by (simp add: pt_wf_def t) (simp add: ex_pt_def ex_root_def)
qed

theorem map_page_spec_witness:
  "\<exists>r s'. map_page ex_root 0x5000 0x81000000 (pgprot_user True False False) ex_pt = Some (r, s') \<and> pt_wf s' ex_root \<and>
     (r \<noteq> Inr () \<longrightarrow> ptval s' ex_root 0x5000 = ptval ex_pt ex_root 0x5000)"
proof -
  have "(0x5000 :: u64) < 0x4000000000" by simp
  from map_page_spec [OF ex_pt_wf this, of "0x81000000" "pgprot_user True False False"] show ?thesis
    by (elim ex_forward) (auto split: sum.splits)
qed

section \<open>Freeing the tables\<close>

text \<open>The tables freed by the inner loop for one middle table, and by one round of the outer loop.\<close>

definition kids :: "ptsys \<Rightarrow> u64 \<Rightarrow> nat set \<Rightarrow> u64 set" where
  "kids s t J = {next_table (ptmem s t j) |j. j \<in> J \<and> pte_is_present (ptmem s t j)}"

definition released :: "ptsys \<Rightarrow> ptsys \<Rightarrow> u64 set \<Rightarrow> bool" where
  "released s s' T \<longleftrightarrow> buddy_wf (pages s') \<and> held (pages s') = held (pages s) - (\<lambda>t. (t, 0)) ` T \<and>
     free_frames (pages s') = free_frames (pages s) \<union> (\<Union>t\<in>T. foot (t, 0)) \<and> (\<forall>t. t \<notin> T \<longrightarrow> ptmem s' t = ptmem s t)"

lemma released_trans: "released s s1 T \<Longrightarrow> released s1 s2 U \<Longrightarrow> released s s2 (T \<union> U)"
  unfolding released_def by auto

lemma released_free:
  assumes "buddy_wf (pages s)" and "(t, 0) \<in> held (pages s)"
  obtains s' where "pt_free_page t s = Some s'" "released s s' {t}"
  by (rule pt_free_ok [OF assms]) (auto simp: released_def that)

definition free_ok :: "ptsys \<Rightarrow> u64 \<Rightarrow> nat set \<Rightarrow> bool" where
  "free_ok s t J \<longleftrightarrow> (\<forall>u\<in>kids s t J. (u, 0) \<in> held (pages s)) \<and> t \<notin> kids s t J \<and>
     inj_on (\<lambda>j. next_table (ptmem s t j)) {j \<in> J. pte_is_present (ptmem s t j)}"

lemma kids_insert: "kids s t (insert j J) = (if pte_is_present (ptmem s t j) then {next_table (ptmem s t j)} else {}) \<union> kids s t J"
  by (auto simp: kids_def)

lemma free_l0_ok:
  assumes "buddy_wf (pages s)" and "distinct js" and "free_ok s t (set js)"
  shows "\<exists>s'. free_l0 t js s = Some s' \<and> released s s' (kids s t (set js))"
  using assms
proof (induction js arbitrary: s)
  case Nil
  then show ?case by (simp add: released_def kids_def)
next
  case (Cons j js)
  let ?e = "ptmem s t j"
  have ok: "free_ok s t (set js)" using Cons.prems(3) by (auto simp: free_ok_def kids_insert inj_on_def split: if_splits)
  show ?case
  proof (cases "pte_is_present ?e")
    case False
    then show ?thesis using Cons.IH [OF Cons.prems(1) _ ok] Cons.prems(2) by (simp add: kids_insert)
  next
    case True
    define u where "u = next_table ?e"
    define s0 where "s0 = s\<lparr>ptmem := (ptmem s)(u := \<lambda>k. if k < 512 then 0 else ptmem s u k)\<rparr>"
    have u: "(u, 0) \<in> held (pages s)" "u \<noteq> t" using Cons.prems(3) True by (auto simp: free_ok_def kids_insert u_def)
    obtain s1 where s1: "pt_free_page u s0 = Some s1" "released s0 s1 {u}"
      by (rule released_free [of s0 u]) (use Cons.prems(1) u in \<open>simp_all add: s0_def\<close>)
    have r1: "released s s1 {u}" using s1(2) by (simp add: released_def s0_def)
    have m: "ptmem s1 t = ptmem s t" using r1 u(2) by (simp add: released_def)
    have nu: "u \<notin> kids s t (set js)"
    proof
      assume "u \<in> kids s t (set js)"
      then obtain k where "k \<in> set js" "pte_is_present (ptmem s t k)" "next_table (ptmem s t k) = next_table ?e" by (auto simp: kids_def u_def)
      then show False using Cons.prems(2,3) True by (auto simp: free_ok_def inj_on_def)
    qed
    have ok1: "free_ok s1 t (set js)" using ok nu r1 unfolding free_ok_def kids_def m by (auto simp: released_def)
    have k1: "kids s1 t (set js) = kids s t (set js)" by (simp add: kids_def m)
    obtain s2 where s2: "free_l0 t js s1 = Some s2" "released s1 s2 (kids s t (set js))"
      using Cons.IH [OF _ _ ok1] r1 Cons.prems(2) k1 by (auto simp: released_def)
    have "free_l0 t (j # js) s = Some s2"
      unfolding free_l0.simps Let_def u_def [symmetric] s0_def [symmetric] using True s1(1) s2(1) by simp
    then show ?thesis using released_trans [OF r1 s2(2)] True by (simp add: kids_insert u_def)
  qed
qed

definition subtree :: "ptsys \<Rightarrow> u64 \<Rightarrow> nat \<Rightarrow> u64 set" where
  "subtree s root i =
     (if pte_is_present (ptmem s root i) then
        insert (next_table (ptmem s root i)) (kids s (next_table (ptmem s root i)) {..<512}) else {})"

definition subtree_ok :: "ptsys \<Rightarrow> u64 \<Rightarrow> nat \<Rightarrow> bool" where
  "subtree_ok s root i \<longleftrightarrow> (\<forall>u\<in>subtree s root i. (u, 0) \<in> held (pages s)) \<and> root \<notin> subtree s root i \<and>
     (pte_is_present (ptmem s root i) \<longrightarrow> free_ok s (next_table (ptmem s root i)) {..<512})"

lemma subtree_keeps:
  assumes "released s s1 T" and "root \<notin> T" and "subtree s root i \<inter> T = {}"
  shows "subtree s1 root i = subtree s root i" and "subtree_ok s root i \<Longrightarrow> subtree_ok s1 root i"
proof -
  have m: "ptmem s1 root = ptmem s root" using assms(1,2) by (simp add: released_def)
  have k: "pte_is_present (ptmem s root i) \<Longrightarrow> ptmem s1 (next_table (ptmem s root i)) = ptmem s (next_table (ptmem s root i))"
    using assms(1,3) by (auto simp: released_def subtree_def split: if_splits)
  show sub: "subtree s1 root i = subtree s root i" using k by (simp add: subtree_def m kids_def)
  have kept: "(u, 0) \<in> held (pages s) \<Longrightarrow> u \<notin> T \<Longrightarrow> (u, 0) \<in> held (pages s1)" for u using assms(1) by (auto simp: released_def)
  show "subtree_ok s1 root i" if ok: "subtree_ok s root i"
    unfolding subtree_ok_def sub m
  proof (intro conjI ballI impI)
    show "u \<in> subtree s root i \<Longrightarrow> (u, 0) \<in> held (pages s1)" for u using ok kept assms(3) by (auto simp: subtree_ok_def)
    show "root \<notin> subtree s root i" using ok by (simp add: subtree_ok_def)
    assume p: "pte_is_present (ptmem s root i)"
    then have "kids s (next_table (ptmem s root i)) {..<512} \<inter> T = {}" using assms(3) by (auto simp: subtree_def)
    then have "\<forall>u\<in>kids s (next_table (ptmem s root i)) {..<512}. (u, 0) \<in> held (pages s1)"
      using ok p kept by (fastforce simp: subtree_ok_def free_ok_def)
    moreover have "kids s1 (next_table (ptmem s root i)) {..<512} = kids s (next_table (ptmem s root i)) {..<512}"
      by (simp add: kids_def k [OF p])
    ultimately show "free_ok s1 (next_table (ptmem s root i)) {..<512}"
      using ok p k [OF p] by (simp add: subtree_ok_def free_ok_def)
  qed
qed

lemma free_l1_ok:
  assumes "buddy_wf (pages s)" and "distinct is" and "\<forall>i\<in>set is. subtree_ok s root i"
    and "\<forall>i\<in>set is. \<forall>k\<in>set is. i \<noteq> k \<longrightarrow> subtree s root i \<inter> subtree s root k = {}"
  shows "\<exists>s'. free_l1 root is s = Some s' \<and> released s s' (\<Union>i\<in>set is. subtree s root i)"
  using assms
proof (induction "is" arbitrary: s)
  case Nil
  then show ?case by (simp add: released_def)
next
  case (Cons i "is")
  let ?e = "ptmem s root i"
  show ?case
  proof (cases "pte_is_present ?e")
    case False
    then have "subtree s root i = {}" "free_l1 root (i # is) s = free_l1 root is s" by (simp_all add: subtree_def del: upt_rec_numeral)
    then show ?thesis using Cons.IH [OF Cons.prems(1)] Cons.prems(2-4) by simp
  next
    case True
    define t where "t = next_table ?e"
    have st: "subtree s root i = insert t (kids s t {..<512})" using True by (simp add: subtree_def t_def)
    have ok: "subtree_ok s root i" "free_ok s t {..<512}" "(t, 0) \<in> held (pages s)" "t \<notin> kids s t {..<512}"
      using Cons.prems(3) True by (auto simp: subtree_ok_def t_def free_ok_def subtree_def)
    obtain s1 where s1: "free_l0 t [0..<512] s = Some s1" "released s s1 (kids s t {..<512})"
      using free_l0_ok [OF Cons.prems(1) distinct_upt, of t 0 512] ok(2) unfolding set_upt atLeast0LessThan by blast
    obtain s2 where s2: "pt_free_page t s1 = Some s2" "released s1 s2 {t}"
      by (rule released_free [of s1 t]) (use s1(2) ok(3,4) in \<open>auto simp: released_def\<close>)
    have r: "released s s2 (subtree s root i)" using released_trans [OF s1(2) s2(2)] by (simp add: st Un_commute)
    have keep: "subtree s2 root k = subtree s root k" "subtree_ok s2 root k" if "k \<in> set is" for k
    proof -
      have d: "subtree s root k \<inter> subtree s root i = {}" using Cons.prems(2,4) that by fastforce
      have ro: "root \<notin> subtree s root i" using ok(1) by (simp add: subtree_ok_def)
      show "subtree s2 root k = subtree s root k" "subtree_ok s2 root k" using subtree_keeps [OF r ro d] Cons.prems(3) that by auto
    qed
    have "\<exists>s'. free_l1 root is s2 = Some s' \<and> released s2 s' (\<Union>k\<in>set is. subtree s2 root k)"
    proof (rule Cons.IH)
      show "buddy_wf (pages s2)" using r by (simp add: released_def)
      show "distinct is" using Cons.prems(2) by simp
      show "\<forall>k\<in>set is. subtree_ok s2 root k" using keep(2) by blast
      show "\<forall>k\<in>set is. \<forall>m\<in>set is. k \<noteq> m \<longrightarrow> subtree s2 root k \<inter> subtree s2 root m = {}"
        using keep(1) Cons.prems(4) by simp
    qed
    moreover have "(\<Union>k\<in>set is. subtree s2 root k) = (\<Union>k\<in>set is. subtree s root k)" using keep by simp
    ultimately obtain s3 where s3: "free_l1 root is s2 = Some s3" "released s2 s3 (\<Union>k\<in>set is. subtree s root k)" by auto
    have "free_l1 root (i # is) s = Some s3" 
      unfolding free_l1.simps Let_def t_def [symmetric] using True s1(1) s2(1) s3(1) by (simp del: upt_rec_numeral)
    then show ?thesis using released_trans [OF r s3(2)] by simp
  qed
qed

text \<open>In well-formed tables the subtree of a root entry is what the walk sees below it, and the subtrees are disjoint.\<close>

lemma wf_present:
  assumes wf: "pt_wf s root" and p: "p \<in> upaths" "length p < 2" and i: "i < 512" "p = [] \<Longrightarrow> i < 256" and t: "tab s root p = Some t"
  shows "pte_is_present (ptmem s t i) \<longleftrightarrow> is_table (ptmem s t i)"
proof -
  have "pte_is_present e \<longleftrightarrow> e AND PTE_V \<noteq> 0" for e by (simp add: pte_is_present_def asm_pte_present_def)
  moreover have "inner p i" using p i by (auto simp: inner_def upaths_def)
  ultimately show ?thesis using pt_wfD(4) [OF wf _ t, of i] by (auto simp: is_table_def)
qed

lemma subtree_upaths:
  assumes wf: "pt_wf s root" and i: "i < 256"
  shows "subtree s root i = {t. \<exists>p\<in>upaths. p \<noteq> [] \<and> hd p = i \<and> tab s root p = Some t}"
proof -
  have is1: "pte_is_present (ptmem s root i) \<longleftrightarrow> is_table (ptmem s root i)"
    by (rule wf_present [OF wf, of "[]"]) (use i in \<open>auto simp: upaths_def\<close>)
  have is2: "pte_is_present (ptmem s t j) \<longleftrightarrow> is_table (ptmem s t j)" if "j < 512" "tab s root [i] = Some t" for j t
    by (rule wf_present [OF wf, of "[i]"]) (use i that in \<open>auto simp: upaths_def\<close>)
  have sub1: "subtree s root i = {t. tab s root [i] = Some t \<or> (\<exists>j<512. tab s root [i, j] = Some t)}"
    using is1 is2 by (auto simp: subtree_def kids_def)
  have p: "{p \<in> upaths. p \<noteq> [] \<and> hd p = i} = insert [i] ((\<lambda>j. [i, j]) ` {..<512})" using i by (auto simp: upaths_def)
  have "{t. \<exists>p\<in>upaths. p \<noteq> [] \<and> hd p = i \<and> tab s root p = Some t} =
      {t. \<exists>p\<in>{p \<in> upaths. p \<noteq> [] \<and> hd p = i}. tab s root p = Some t}" by blast
  also have "\<dots> = subtree s root i" unfolding p sub1 by (auto simp del: tab.simps)
  finally show ?thesis by (rule sym)
qed

lemma subtree_disjoint:
  assumes wf: "pt_wf s root" and ik: "i < 256" "k < 256" "i \<noteq> k"
  shows "subtree s root i \<inter> subtree s root k = {}"
proof (rule equals0I)
  fix t assume "t \<in> subtree s root i \<inter> subtree s root k"
  then obtain p q where "p \<in> upaths" "hd p = i" "tab s root p = Some t" "q \<in> upaths" "hd q = k" "tab s root q = Some t"
    using subtree_upaths [OF wf ik(1)] subtree_upaths [OF wf ik(2)] by blast
  then show False using pt_wfD(3) [OF wf, of p q t] ik(3) by blast
qed

lemma subtree_ok_wf:
  assumes wf: "pt_wf s root" and i: "i < 256"
  shows "subtree_ok s root i"
  unfolding subtree_ok_def
proof (intro conjI ballI impI)
  note sub = subtree_upaths [OF wf i]
  show "u \<in> subtree s root i \<Longrightarrow> (u, 0) \<in> held (pages s)" for u using sub pt_wfD(2) [OF wf] by auto
  show "root \<notin> subtree s root i"
  proof
    assume "root \<in> subtree s root i"
    then obtain p where "p \<in> upaths" "p \<noteq> []" "tab s root p = Some root" using sub by blast
    moreover have "[] \<in> upaths" by (simp add: upaths_def)
    ultimately show False using pt_wfD(3) [OF wf, of p "[]" root] by simp
  qed
  assume p: "pte_is_present (ptmem s root i)"
  define t where "t = next_table (ptmem s root i)"
  have "is_table (ptmem s root i)" using p wf_present [OF wf, of "[]" i root] i by (simp add: upaths_def)
  then have t: "tab s root [i] = Some t" by (simp add: t_def)
  have q: "[i] \<in> upaths" "j < 512 \<Longrightarrow> [i, j] \<in> upaths" for j using i by (auto simp: upaths_def)
  have tj: "tab s root [i, j] = Some (next_table (ptmem s t j))" if "j < 512" "pte_is_present (ptmem s t j)" for j
    using wf_present [OF wf q(1) _ that(1) _ t] that(2) \<open>is_table (ptmem s root i)\<close> by (simp add: t_def)
  have "inj_on (\<lambda>j. next_table (ptmem s t j)) {j \<in> {..<512}. pte_is_present (ptmem s t j)}"
    using tj pt_wfD(3) [OF wf q(2) q(2)] by (intro inj_onI) (metis (no_types, lifting) lessThan_iff list.inject mem_Collect_eq)
  moreover have "t \<notin> kids s t {..<512}" using tj pt_wfD(3) [OF wf q(1) q(2) t] by (fastforce simp: kids_def)
  moreover have "(u, 0) \<in> held (pages s)" if "u \<in> kids s t {..<512}" for u
    using that tj pt_wfD(2) [OF wf q(2)] by (auto simp: kids_def)
  ultimately show "free_ok s (next_table (ptmem s root i)) {..<512}" by (simp add: free_ok_def t_def)
qed

lemma tables_split:
  assumes wf: "pt_wf s root"
  shows "{t. \<exists>p\<in>upaths. tab s root p = Some t} = (\<Union>i<256. subtree s root i) \<union> {root}"
proof (intro set_eqI iffI)
  fix t assume "t \<in> {t. \<exists>p\<in>upaths. tab s root p = Some t}"
  then obtain p where p: "p \<in> upaths" "tab s root p = Some t" by blast
  show "t \<in> (\<Union>i<256. subtree s root i) \<union> {root}"
  proof (cases p)
    case (Cons i r)
    then have "i < 256" using p(1) by (auto simp: upaths_def)
    moreover have "t \<in> subtree s root i" unfolding subtree_upaths [OF wf \<open>i < 256\<close>] using p Cons by force
    ultimately show ?thesis by blast
  qed (use p in simp)
next
  fix t assume "t \<in> (\<Union>i<256. subtree s root i) \<union> {root}"
  moreover have "[] \<in> upaths" "tab s root [] = Some root" by (simp_all add: upaths_def)
  ultimately show "t \<in> {t. \<exists>p\<in>upaths. tab s root p = Some t}" using subtree_upaths [OF wf] by blast
qed

text \<open>
  C30: Tearing down an address space loses no page. On well-formed tables \<^verbatim>\<open>free_user_page_tables\<close> runs into no bug stop of
  the allocator and gives back exactly the root, the middle tables and the leaf tables of the user half, each once.
\<close>

theorem free_user_page_tables_spec:
  assumes wf: "pt_wf s root"
  shows "\<exists>s'. free_user_page_tables root s = Some s' \<and>
    released s s' {t. \<exists>p\<in>upaths. tab s root p = Some t}"
proof -
  have "\<exists>s'. free_l1 root [0..<256] s = Some s' \<and> released s s' (\<Union>i\<in>set [0..<256]. subtree s root i)"
    by (rule free_l1_ok) (use pt_wfD(1) [OF wf] subtree_ok_wf [OF wf] subtree_disjoint [OF wf] in \<open>auto simp del: upt_rec_numeral\<close>)
  then obtain s1 where s1: "free_l1 root [0..<256] s = Some s1" "released s s1 (\<Union>i<256. subtree s root i)"
    unfolding set_upt atLeast0LessThan by blast
  have r: "root \<notin> (\<Union>i<256. subtree s root i)" "(root, 0) \<in> held (pages s)"
    using subtree_ok_wf [OF wf] pt_wfD(2) [OF wf, of "[]"] by (auto simp: subtree_ok_def upaths_def)
  obtain s2 where s2: "pt_free_page root s1 = Some s2" "released s1 s2 {root}"
    by (rule released_free [of s1 root]) (use s1(2) r in \<open>auto simp: released_def\<close>)
  show ?thesis using s1(1) s2(1) released_trans [OF s1(2) s2(2)]
    unfolding tables_split [OF wf] by (simp add: free_user_page_tables_def del: upt_rec_numeral)
qed

theorem free_user_page_tables_spec_witness:
  "\<exists>s'. free_user_page_tables ex_root ex_pt = Some s' \<and> (ex_root, 0) \<notin> held (pages s')"
proof -
  have "ex_root \<in> {t. \<exists>p\<in>upaths. tab ex_pt ex_root p = Some t}" by (auto simp: upaths_def intro: exI [of _ "[]"])
  then show ?thesis using free_user_page_tables_spec [OF ex_pt_wf] by (elim ex_forward) (auto simp: released_def)
qed

end
