(* ===== verification/Fdtable.thy ===== *)
theory Fdtable
  imports Refcount "HOL-Library.Monad_Syntax"
begin

text \<open>
  Descriptor tables and open files: \<^verbatim>\<open>fs/vfs/fdtable.c\<close> and the reference counting of \<^verbatim>\<open>fs/vfs/file.c\<close>. Files, tables and
  tasks are numbers. A failed \<^verbatim>\<open>BUG_ON\<close>, the use of a freed table and the use of a freed file are \<open>None\<close>. It is shown that the count
  of a file is the number of descriptors and references to it, over all tables and any sequence of operations.
\<close>

section \<open>State\<close>

definition NR_OPEN :: nat where "NR_OPEN = 32"

definition O_CLOEXEC :: u32 where "O_CLOEXEC = 0x80000"

record files_struct =
  fs_refs :: int
  close_on_exec :: u64
  fds :: "nat option list"

text \<open>
  \<open>frefs\<close> holds the counts of the files (0 once freed), \<open>released\<close> the files freed so far in order, \<open>tabs\<close> the tables
  ever allocated (\<open>None\<close> once freed), and \<open>tfiles\<close> the table of each task.
\<close>

record fdsys =
  frefs :: "nat \<Rightarrow> int"
  static_file :: "nat \<Rightarrow> bool"
  released :: "nat list"
  tabs :: "files_struct option list"
  tfiles :: "nat option list"

definition the_tab :: "nat \<Rightarrow> fdsys \<Rightarrow> files_struct option" where
  "the_tab t s = (if t < length (tabs s) then tabs s ! t else None)"

definition set_tab :: "nat \<Rightarrow> files_struct \<Rightarrow> fdsys \<Rightarrow> fdsys" where
  "set_tab t T s = s\<lparr>tabs := (tabs s)[t := Some T]\<rparr>"

definition task_files :: "nat \<Rightarrow> fdsys \<Rightarrow> nat option" where
  "task_files task s = (if task < length (tfiles s) then tfiles s ! task else None)"

definition task_set_files :: "nat \<Rightarrow> nat option \<Rightarrow> fdsys \<Rightarrow> fdsys" where
  "task_set_files task t s = s\<lparr>tfiles := (tfiles s)[task := t]\<rparr>"

section \<open>Files\<close>

text \<open>
  \<^verbatim>\<open>file_alloc\<close> returns the object \<open>m\<close> that \<^verbatim>\<open>kmalloc\<close> gave; \<^verbatim>\<open>file_put\<close> runs the release hook and frees the object when the last
  reference goes, which is recorded in \<open>released\<close>.
\<close>

definition file_alloc :: "nat option \<Rightarrow> fdsys \<Rightarrow> (nat option \<times> fdsys) option" where
  "file_alloc m s =
     (case m of
        None \<Rightarrow> Some (None, s)
      | Some f \<Rightarrow> do {
          r \<leftarrow> refcount_set 1;
          Some (Some f, s\<lparr>frefs := (frefs s)(f := r), static_file := (static_file s)(f := False)\<rparr>)
        })"

definition file_get :: "nat option \<Rightarrow> fdsys \<Rightarrow> fdsys option" where
  "file_get file s =
     (case file of
        None \<Rightarrow> Some s
      | Some f \<Rightarrow>
          if static_file s f then Some s
          else do { r \<leftarrow> refcount_inc (frefs s f); Some (s\<lparr>frefs := (frefs s)(f := r)\<rparr>) })"

definition file_put :: "nat option \<Rightarrow> fdsys \<Rightarrow> fdsys option" where
  "file_put file s =
     (case file of
        None \<Rightarrow> Some s
      | Some f \<Rightarrow>
          if static_file s f then Some s
          else do {
            (is_last, r) \<leftarrow> refcount_dec_and_test (frefs s f);
            let s1 = s\<lparr>frefs := (frefs s)(f := r)\<rparr>;
            Some (if is_last then s1\<lparr>released := released s1 @ [f]\<rparr> else s1)
          })"

section \<open>Tables\<close>

text \<open>\<open>m\<close> tells whether \<^verbatim>\<open>kmalloc\<close> of a table succeeds.\<close>

definition files_alloc :: "bool \<Rightarrow> fdsys \<Rightarrow> nat option \<times> fdsys" where
  "files_alloc m s =
     (if \<not> m then (None, s)
      else (Some (length (tabs s)), s\<lparr>tabs := tabs s @ [Some \<lparr>fs_refs = 1, close_on_exec = 0, fds = replicate NR_OPEN None\<rparr>]\<rparr>))"

fun dup_loop :: "nat \<Rightarrow> nat \<Rightarrow> nat option list \<Rightarrow> fdsys \<Rightarrow> fdsys option" where
  "dup_loop t i [] s = Some s"
| "dup_loop t i (f # fs) s = do {
     T \<leftarrow> the_tab t s;
     s1 \<leftarrow> file_get f (set_tab t (T\<lparr>fds := (fds T)[i := f]\<rparr>) s);
     dup_loop t (Suc i) fs s1
   }"

definition files_dup :: "bool \<Rightarrow> nat option \<Rightarrow> fdsys \<Rightarrow> (nat option \<times> fdsys) option" where
  "files_dup m old s =
     (case files_alloc m s of
        (None, s1) \<Rightarrow> Some (None, s1)
      | (Some t, s1) \<Rightarrow>
          (case old of
             None \<Rightarrow> Some (Some t, s1)
           | Some old \<Rightarrow> do {
               Old \<leftarrow> the_tab old s1;
               T \<leftarrow> the_tab t s1;
               s2 \<leftarrow> dup_loop t 0 (fds Old) (set_tab t (T\<lparr>close_on_exec := close_on_exec Old\<rparr>) s1);
               Some (Some t, s2)
             }))"

definition files_get :: "nat option \<Rightarrow> fdsys \<Rightarrow> fdsys option" where
  "files_get files s =
     (case files of
        None \<Rightarrow> Some s
      | Some t \<Rightarrow> do {
          T \<leftarrow> the_tab t s;
          r \<leftarrow> refcount_inc (fs_refs T);
          Some (set_tab t (T\<lparr>fs_refs := r\<rparr>) s)
        })"

fun put_loop :: "nat \<Rightarrow> nat list \<Rightarrow> fdsys \<Rightarrow> fdsys option" where
  "put_loop t [] s = Some s"
| "put_loop t (i # is) s = do {
     T \<leftarrow> the_tab t s;
     s1 \<leftarrow> file_put (fds T ! i) (set_tab t (T\<lparr>fds := (fds T)[i := None]\<rparr>) s);
     put_loop t is s1
   }"

definition files_put :: "nat option \<Rightarrow> fdsys \<Rightarrow> fdsys option" where
  "files_put files s =
     (case files of
        None \<Rightarrow> Some s
      | Some t \<Rightarrow> do {
          T \<leftarrow> the_tab t s;
          (is_last, r) \<leftarrow> refcount_dec_and_test (fs_refs T);
          let s1 = set_tab t (T\<lparr>fs_refs := r\<rparr>) s;
          if \<not> is_last then Some s1
          else do {
            s2 \<leftarrow> put_loop t [0..<NR_OPEN] s1;
            Some (s2\<lparr>tabs := (tabs s2)[t := None]\<rparr>)
          }
        })"

text \<open>The console's device operations exist since boot; \<open>ms\<close> are the objects for the three files.\<close>

definition files_install_standard_fds :: "nat option \<Rightarrow> nat option \<Rightarrow> nat option \<Rightarrow> nat option \<Rightarrow> fdsys \<Rightarrow> fdsys option" where
  "files_install_standard_fds m0 m1 m2 files s =
     (case files of
        None \<Rightarrow> Some s
      | Some t \<Rightarrow> do {
          (f0, s1) \<leftarrow> file_alloc m0 s;
          (f1, s2) \<leftarrow> file_alloc m1 s1;
          (f2, s3) \<leftarrow> file_alloc m2 s2;
          T \<leftarrow> the_tab t s3;
          if f0 = None \<or> f1 = None \<or> f2 = None then None
          else Some (set_tab t (T\<lparr>fds := (fds T)[0 := f0, 1 := f1, 2 := f2]\<rparr>) s3)
        })"

definition set_cloexec :: "bool \<Rightarrow> nat \<Rightarrow> u64 \<Rightarrow> u64" where
  "set_cloexec b fd m = (if b then m OR push_bit fd 1 else m AND NOT (push_bit fd 1))"

definition first_free :: "nat \<Rightarrow> files_struct \<Rightarrow> nat option" where
  "first_free lo T = List.find (\<lambda>fd. fds T ! fd = None) [lo..<NR_OPEN]"

definition fd_alloc_flags :: "nat \<Rightarrow> nat option \<Rightarrow> u32 \<Rightarrow> fdsys \<Rightarrow> ((errno + nat) \<times> fdsys) option" where
  "fd_alloc_flags cur file flags s =
     (if file = None then Some (Inl EINVAL, s)
      else case task_files cur s of
        None \<Rightarrow> Some (Inl EBADF, s)
      | Some t \<Rightarrow> do {
          T \<leftarrow> the_tab t s;
          (case first_free 0 T of
             None \<Rightarrow> Some (Inl EMFILE, s)
           | Some fd \<Rightarrow>
               Some (Inr fd, set_tab t (T\<lparr>fds := (fds T)[fd := file],
                 close_on_exec := set_cloexec (flags AND O_CLOEXEC \<noteq> 0) fd (close_on_exec T)\<rparr>) s))
        })"

definition fd_alloc :: "nat \<Rightarrow> nat option \<Rightarrow> fdsys \<Rightarrow> ((errno + nat) \<times> fdsys) option" where
  "fd_alloc cur file s = fd_alloc_flags cur file 0 s"

definition bad_fd :: "int \<Rightarrow> bool" where
  "bad_fd fd \<longleftrightarrow> fd < 0 \<or> fd \<ge> int NR_OPEN"

definition fd_get_checked :: "nat \<Rightarrow> int \<Rightarrow> fdsys \<Rightarrow> (nat option \<times> fdsys) option" where
  "fd_get_checked cur fd s =
     (case task_files cur s of
        None \<Rightarrow> Some (None, s)
      | Some t \<Rightarrow>
          if bad_fd fd then Some (None, s)
          else do {
            T \<leftarrow> the_tab t s;
            let file = fds T ! nat fd;
            s1 \<leftarrow> file_get file s;
            Some (file, s1)
          })"

definition fd_get :: "nat \<Rightarrow> int \<Rightarrow> fdsys \<Rightarrow> (nat option \<times> fdsys) option" where
  "fd_get cur fd s = fd_get_checked cur fd s"

definition fd_get_close_on_exec :: "nat \<Rightarrow> int \<Rightarrow> fdsys \<Rightarrow> (errno + bool) option" where
  "fd_get_close_on_exec cur fd s =
     (case task_files cur s of
        None \<Rightarrow> Some (Inl EBADF)
      | Some t \<Rightarrow>
          if bad_fd fd then Some (Inl EBADF)
          else do {
            T \<leftarrow> the_tab t s;
            Some (if fds T ! nat fd = None then Inl EBADF else Inr (close_on_exec T AND push_bit (nat fd) 1 \<noteq> 0))
          })"

definition fd_set_close_on_exec :: "nat \<Rightarrow> int \<Rightarrow> bool \<Rightarrow> fdsys \<Rightarrow> ((errno + unit) \<times> fdsys) option" where
  "fd_set_close_on_exec cur fd b s =
     (case task_files cur s of
        None \<Rightarrow> Some (Inl EBADF, s)
      | Some t \<Rightarrow>
          if bad_fd fd then Some (Inl EBADF, s)
          else do {
            T \<leftarrow> the_tab t s;
            if fds T ! nat fd = None then Some (Inl EBADF, s)
            else Some (Inr (), set_tab t (T\<lparr>close_on_exec := set_cloexec b (nat fd) (close_on_exec T)\<rparr>) s)
          })"

text \<open>The two loops of \<^verbatim>\<open>files_close_on_exec\<close>: detach the marked descriptors under the lock, then put the files.\<close>

fun detach_loop :: "nat list \<Rightarrow> u64 \<Rightarrow> nat option list \<Rightarrow> nat option list \<Rightarrow> nat option list \<times> nat option list" where
  "detach_loop [] m closing fs = (closing, fs)"
| "detach_loop (fd # rest) m closing fs =
     (if m = 0 then (closing, fs)
      else if m AND 1 = 0 then detach_loop rest (drop_bit 1 m) closing fs
      else detach_loop rest (drop_bit 1 m) (closing[fd := fs ! fd]) (fs[fd := None]))"

fun put_files :: "nat option list \<Rightarrow> fdsys \<Rightarrow> fdsys option" where
  "put_files [] s = Some s"
| "put_files (f # fs) s = do { s1 \<leftarrow> file_put f s; put_files fs s1 }"

definition files_close_on_exec :: "nat option \<Rightarrow> fdsys \<Rightarrow> fdsys option" where
  "files_close_on_exec files s =
     (case files of
        None \<Rightarrow> Some s
      | Some t \<Rightarrow> do {
          T \<leftarrow> the_tab t s;
          let (closing, fs) = detach_loop [0..<NR_OPEN] (close_on_exec T) (replicate NR_OPEN None) (fds T);
          put_files closing (set_tab t (T\<lparr>close_on_exec := 0, fds := fs\<rparr>) s)
        })"

definition files_unshare_for_exec :: "bool \<Rightarrow> nat \<Rightarrow> fdsys \<Rightarrow> ((errno + unit) \<times> fdsys) option" where
  "files_unshare_for_exec m task s =
     (case task_files task s of
        None \<Rightarrow> Some (Inr (), s)
      | Some old \<Rightarrow> do {
          Old \<leftarrow> the_tab old s;
          if fs_refs Old = 1 then Some (Inr (), s)
          else do {
            (files, s1) \<leftarrow> files_dup m (Some old) s;
            if files = None then Some (Inl ENOMEM, s1)
            else do {
              s2 \<leftarrow> files_put (Some old) (task_set_files task files s1);
              Some (Inr (), s2)
            }
          }
        })"

definition fd_close :: "nat \<Rightarrow> int \<Rightarrow> fdsys \<Rightarrow> ((errno + unit) \<times> fdsys) option" where
  "fd_close cur fd s =
     (case task_files cur s of
        None \<Rightarrow> Some (Inl EBADF, s)
      | Some t \<Rightarrow>
          if bad_fd fd then Some (Inl EBADF, s)
          else do {
            T \<leftarrow> the_tab t s;
            let file = fds T ! nat fd;
            if file = None then Some (Inl EBADF, s)
            else do {
              s1 \<leftarrow> file_put file (set_tab t (T\<lparr>fds := (fds T)[nat fd := None],
                close_on_exec := set_cloexec False (nat fd) (close_on_exec T)\<rparr>) s);
              Some (Inr (), s1)
            }
          })"

text \<open>The search for a free slot at or above \<open>lo\<close> and its installation, as in \<^verbatim>\<open>fd_dup\<close> and \<^verbatim>\<open>fd_dup_from\<close>.\<close>

definition dup_install :: "nat \<Rightarrow> nat \<Rightarrow> bool \<Rightarrow> nat option \<Rightarrow> fdsys \<Rightarrow> ((errno + nat) \<times> fdsys) option" where
  "dup_install t lo cloexec file s = do {
     T \<leftarrow> the_tab t s;
     (case first_free lo T of
        None \<Rightarrow> Some (Inl EMFILE, s)
      | Some fd \<Rightarrow> do {
          s1 \<leftarrow> file_get file s;
          Some (Inr fd, set_tab t (T\<lparr>fds := (fds T)[fd := file], close_on_exec := set_cloexec cloexec fd (close_on_exec T)\<rparr>) s1)
        })
   }"

definition fd_dup :: "nat \<Rightarrow> int \<Rightarrow> fdsys \<Rightarrow> ((errno + nat) \<times> fdsys) option" where
  "fd_dup cur oldfd s = do {
     (file, s1) \<leftarrow> fd_get cur oldfd s;
     if file = None then Some (Inl EBADF, s1)
     else case task_files cur s of
       None \<Rightarrow> do { s2 \<leftarrow> file_put file s1; Some (Inl EBADF, s2) }
     | Some t \<Rightarrow> do {
         (r, s2) \<leftarrow> dup_install t 0 False file s1;
         s3 \<leftarrow> file_put file s2;
         Some (r, s3)
       }
   }"

definition fd_dup_from :: "nat \<Rightarrow> int \<Rightarrow> nat \<Rightarrow> bool \<Rightarrow> fdsys \<Rightarrow> ((errno + nat) \<times> fdsys) option" where
  "fd_dup_from cur oldfd minfd cloexec s = do {
     (file, s1) \<leftarrow> fd_get cur oldfd s;
     if file = None then Some (Inl EBADF, s1)
     else case task_files cur s of
       None \<Rightarrow> do { s2 \<leftarrow> file_put file s1; Some (Inl EBADF, s2) }
     | Some t \<Rightarrow>
         if minfd \<ge> NR_OPEN then do { s2 \<leftarrow> file_put file s1; Some (Inl EINVAL, s2) }
         else do {
           (r, s2) \<leftarrow> dup_install t minfd cloexec file s1;
           s3 \<leftarrow> file_put file s2;
           Some (r, s3)
         }
   }"

definition fd_dup2 :: "nat \<Rightarrow> int \<Rightarrow> int \<Rightarrow> bool \<Rightarrow> fdsys \<Rightarrow> ((errno + nat) \<times> fdsys) option" where
  "fd_dup2 cur oldfd newfd cloexec s = do {
     (file, s1) \<leftarrow> fd_get cur oldfd s;
     if file = None then Some (Inl EBADF, s1)
     else case task_files cur s of
       None \<Rightarrow> do { s2 \<leftarrow> file_put file s1; Some (Inl EBADF, s2) }
     | Some t \<Rightarrow>
         if bad_fd newfd then do { s2 \<leftarrow> file_put file s1; Some (Inl EBADF, s2) }
         else if oldfd = newfd then do { s2 \<leftarrow> file_put file s1; Some (Inr (nat newfd), s2) }
         else do {
           T \<leftarrow> the_tab t s1;
           let old = fds T ! nat newfd;
           s2 \<leftarrow> file_get file s1;
           s3 \<leftarrow> file_put old (set_tab t (T\<lparr>fds := (fds T)[nat newfd := file],
             close_on_exec := set_cloexec cloexec (nat newfd) (close_on_exec T)\<rparr>) s2);
           s4 \<leftarrow> file_put file s3;
           Some (Inr (nat newfd), s4)
         }
   }"

definition init_files :: "bool \<Rightarrow> nat option \<Rightarrow> nat option \<Rightarrow> nat option \<Rightarrow> nat \<Rightarrow> fdsys \<Rightarrow> ((errno + unit) \<times> fdsys) option" where
  "init_files m m0 m1 m2 task s =
     (case files_alloc m s of
        (None, s1) \<Rightarrow> Some (Inl ENOMEM, task_set_files task None s1)
      | (Some t, s1) \<Rightarrow> do {
          s2 \<leftarrow> files_install_standard_fds m0 m1 m2 (Some t) (task_set_files task (Some t) s1);
          Some (Inr (), s2)
        })"

definition close_files :: "nat \<Rightarrow> fdsys \<Rightarrow> fdsys option" where
  "close_files task s =
     (case task_files task s of
        None \<Rightarrow> Some s
      | Some t \<Rightarrow> do { s1 \<leftarrow> files_put (Some t) s; Some (task_set_files task None s1) })"

definition copy_files :: "bool \<Rightarrow> nat option \<Rightarrow> nat option \<Rightarrow> nat option \<Rightarrow> nat \<Rightarrow> nat \<Rightarrow> bool \<Rightarrow> fdsys \<Rightarrow> ((errno + unit) \<times> fdsys) option" where
  "copy_files m m0 m1 m2 cur child share s =
     (if share then
        (case task_files cur s of
           None \<Rightarrow> init_files m m0 m1 m2 child s
         | Some t \<Rightarrow> do {
             s1 \<leftarrow> files_get (Some t) s;
             s2 \<leftarrow> close_files child s1;
             Some (Inr (), task_set_files child (Some t) s2)
           })
      else do {
        (files, s1) \<leftarrow> files_dup m (task_files cur s) s;
        if files = None then Some (Inl ENOMEM, s1)
        else do {
          s2 \<leftarrow> close_files child s1;
          Some (Inr (), task_set_files child files s2)
        }
      })"

text \<open>The end of \<^verbatim>\<open>vfs_openat_path\<close>: a new file gets a descriptor, and is put when there is none.\<close>

definition open_file :: "nat \<Rightarrow> nat option \<Rightarrow> u32 \<Rightarrow> fdsys \<Rightarrow> ((errno + nat) \<times> fdsys) option" where
  "open_file cur m flags s = do {
     (file, s1) \<leftarrow> file_alloc m s;
     if file = None then Some (Inl ENOMEM, s1)
     else do {
       (r, s2) \<leftarrow> fd_alloc_flags cur file flags s1;
       (case r of
          Inl e \<Rightarrow> do { s3 \<leftarrow> file_put file s2; Some (Inl e, s3) }
        | Inr fd \<Rightarrow> Some (Inr fd, s2))
     }
   }"


text \<open>The descriptor part of \<^verbatim>\<open>do_execve\<close>: a private table, then the marked descriptors are closed.\<close>

definition exec_files :: "bool \<Rightarrow> nat \<Rightarrow> fdsys \<Rightarrow> ((errno + unit) \<times> fdsys) option" where
  "exec_files m cur s = do {
     (r, s1) \<leftarrow> files_unshare_for_exec m cur s;
     (case r of
        Inl e \<Rightarrow> Some (Inl e, s1)
      | Inr _ \<Rightarrow> do { s2 \<leftarrow> files_close_on_exec (task_files cur s1) s1; Some (Inr (), s2) })
   }"

section \<open>Counting references\<close>

primrec opt_mset :: "'a option \<Rightarrow> 'a multiset" where
  "opt_mset None = {#}"
| "opt_mset (Some x) = {#x#}"

definition somes :: "'a option list \<Rightarrow> 'a multiset" where
  "somes xs = sum_list (map opt_mset xs)"

definition tab_slots :: "files_struct option \<Rightarrow> nat multiset" where
  "tab_slots o' = (case o' of None \<Rightarrow> {#} | Some T \<Rightarrow> somes (fds T))"

text \<open>The files the descriptors of all tables refer to, and the tables the tasks refer to, with multiplicity.\<close>

definition slots :: "fdsys \<Rightarrow> nat multiset" where
  "slots s = sum_list (map tab_slots (tabs s))"

definition troots :: "fdsys \<Rightarrow> nat multiset" where
  "troots s = somes (tfiles s)"

definition tab_ok :: "files_struct \<Rightarrow> bool" where
  "tab_ok T \<longleftrightarrow> length (fds T) = NR_OPEN \<and> (\<forall>i. bit (close_on_exec T) i \<longrightarrow> i < NR_OPEN \<and> fds T ! i \<noteq> None)"

text \<open>
  The invariant, relative to the references to files \<open>E\<close> and to tables \<open>U\<close> that code in progress holds: every count is the number
  of references.
\<close>

definition file_inv :: "fdsys \<Rightarrow> nat multiset \<Rightarrow> bool" where
  "file_inv s E \<longleftrightarrow> (\<forall>f. \<not> static_file s f \<longrightarrow> frefs s f = int (count (slots s + E) f))"

definition tab_inv :: "fdsys \<Rightarrow> nat multiset \<Rightarrow> bool" where
  "tab_inv s U \<longleftrightarrow>
     (\<forall>t. case the_tab t s of
        None \<Rightarrow> t \<notin># troots s + U
      | Some T \<Rightarrow> tab_ok T \<and> t \<in># troots s + U \<and> fs_refs T = int (count (troots s + U) t))"

lemma file_invD: "file_inv s E \<Longrightarrow> \<not> static_file s f \<Longrightarrow> frefs s f = int (count (slots s + E) f)"
  unfolding file_inv_def by blast

lemma tab_invD:
  assumes "tab_inv s U"
  shows "t \<in># troots s + U \<Longrightarrow> \<exists>T. the_tab t s = Some T"
    "the_tab t s = Some T \<Longrightarrow> tab_ok T" "the_tab t s = Some T \<Longrightarrow> t \<in># troots s + U"
    "the_tab t s = Some T \<Longrightarrow> fs_refs T = int (count (troots s + U) t)"
proof -
  have T: "case the_tab t s of None \<Rightarrow> t \<notin># troots s + U
      | Some T \<Rightarrow> tab_ok T \<and> t \<in># troots s + U \<and> fs_refs T = int (count (troots s + U) t)"
    using assms unfolding tab_inv_def by blast
  show "t \<in># troots s + U \<Longrightarrow> \<exists>T. the_tab t s = Some T" using T by (cases "the_tab t s") auto
  show "the_tab t s = Some T \<Longrightarrow> tab_ok T" "the_tab t s = Some T \<Longrightarrow> t \<in># troots s + U"
    "the_tab t s = Some T \<Longrightarrow> fs_refs T = int (count (troots s + U) t)"
    using T by simp_all
qed

lemma tab_invI:
  assumes "\<And>t. the_tab t s = None \<Longrightarrow> t \<notin># troots s + U"
    and "\<And>t T. the_tab t s = Some T \<Longrightarrow> tab_ok T \<and> t \<in># troots s + U \<and> fs_refs T = int (count (troots s + U) t)"
  shows "tab_inv s U"
  unfolding tab_inv_def
proof (intro allI)
  fix t
  show "case the_tab t s of None \<Rightarrow> t \<notin># troots s + U
      | Some T \<Rightarrow> tab_ok T \<and> t \<in># troots s + U \<and> fs_refs T = int (count (troots s + U) t)"
    using assms [of t] by (cases "the_tab t s") simp_all
qed

lemma sum_list_map_update:
  fixes g :: "'a \<Rightarrow> 'b multiset"
  shows "i < length xs \<Longrightarrow> sum_list (map g (xs[i := v])) + g (xs ! i) = sum_list (map g xs) + g v"
proof (induction xs arbitrary: i)
  case (Cons x xs)
  then show ?case by (cases i) (auto simp: ac_simps)
qed simp

lemma mset_move:
  fixes A :: "'a multiset"
  assumes "A' + X = A + V" and "V \<subseteq># U"
  shows "A' + (U - V + X) = A + U"
proof (rule multiset_eqI)
  fix x
  have "count A' x + count X x = count A x + count V x" by (metis assms(1) count_union)
  moreover have "count V x \<le> count U x" using assms(2) by (simp add: subseteq_mset_def)
  ultimately show "count (A' + (U - V + X)) x = count (A + U) x" by simp
qed

lemma somes_update: "i < length xs \<Longrightarrow> somes (xs[i := v]) + opt_mset (xs ! i) = somes xs + opt_mset v"
  by (simp add: somes_def sum_list_map_update)

lemma in_somes: "x \<in># somes xs \<longleftrightarrow> Some x \<in> set xs"
proof -
  have "x \<in># opt_mset v \<longleftrightarrow> v = Some x" for v :: "'a option" by (cases v) auto
  then show ?thesis by (induction xs) (auto simp: somes_def)
qed

lemma opt_mset_somes: "i < length xs \<Longrightarrow> opt_mset (xs ! i) \<subseteq># somes xs"
  using in_somes [of _ xs] nth_mem [of i xs] by (cases "xs ! i") auto

lemma somes_replicate [simp]: "somes (replicate n None) = {#}"
  by (induction n) (simp_all add: somes_def)

lemma somes_append: "somes (xs @ ys) = somes xs + somes ys"
  by (simp add: somes_def)

lemma the_tab_set_tab: "the_tab t s = Some T \<Longrightarrow> the_tab u (set_tab t T' s) = (if u = t then Some T' else the_tab u s)"
  by (auto simp: the_tab_def set_tab_def split: if_splits)

lemma slots_set_tab:
  "the_tab t s = Some T \<Longrightarrow> slots (set_tab t T' s) + somes (fds T) = slots s + somes (fds T')"
  using sum_list_map_update [of t "tabs s" tab_slots "Some T'"]
  by (simp add: slots_def set_tab_def the_tab_def tab_slots_def split: if_splits)

lemma slots_set_slot:
  assumes "the_tab t s = Some T" and "i < length (fds T)" and "fds T' = (fds T)[i := v]"
  shows "slots (set_tab t T' s) + opt_mset (fds T ! i) = slots s + opt_mset v"
proof (rule multiset_eqI)
  fix x
  have "count (slots (set_tab t T' s)) x + count (somes (fds T)) x = count (slots s) x + count (somes (fds T')) x"
    using slots_set_tab [OF assms(1), of T'] by (metis count_union)
  moreover have "count (somes (fds T')) x + count (opt_mset (fds T ! i)) x = count (somes (fds T)) x + count (opt_mset v) x"
    using somes_update [OF assms(2), of v] assms(3) by (metis count_union)
  ultimately show "count (slots (set_tab t T' s) + opt_mset (fds T ! i)) x = count (slots s + opt_mset v) x" by simp
qed

lemma tab_slots_subset: "the_tab t s = Some T \<Longrightarrow> somes (fds T) \<subseteq># slots s"
proof -
  assume "the_tab t s = Some T"
  from slots_set_tab [OF this, of "T\<lparr>fds := []\<rparr>"] have "slots s = slots (set_tab t (T\<lparr>fds := []\<rparr>) s) + somes (fds T)" by (simp add: somes_def)
  then show ?thesis by simp
qed

lemma bit_set_cloexec: "bit (set_cloexec b i m) j \<longleftrightarrow> (if j = i then b \<and> i < 64 else bit m j)"
  by (auto simp: set_cloexec_def bit_simps dest: bit_imp_le_length)

lemma tab_ok_set:
  assumes "tab_ok T" and "i < NR_OPEN" and "b \<Longrightarrow> v \<noteq> None"
  shows "tab_ok (T\<lparr>fds := (fds T)[i := v], close_on_exec := set_cloexec b i (close_on_exec T)\<rparr>)"
  using assms by (auto simp: tab_ok_def bit_set_cloexec nth_list_update)

section \<open>One step at a time\<close>

definition same_tabs :: "fdsys \<Rightarrow> fdsys \<Rightarrow> bool" where
  "same_tabs s s' \<longleftrightarrow> tabs s' = tabs s \<and> tfiles s' = tfiles s \<and> static_file s' = static_file s"

lemma same_tabsD:
  assumes "same_tabs s s'"
  shows "the_tab t s' = the_tab t s" "slots s' = slots s" "troots s' = troots s" "task_files u s' = task_files u s"
    "static_file s' = static_file s" "tabs s' = tabs s" "tfiles s' = tfiles s"
  using assms by (simp_all add: same_tabs_def the_tab_def slots_def troots_def task_files_def)

lemma file_inv_cong:
  assumes "same_tabs s s'" and "\<And>f. \<not> static_file s f \<Longrightarrow> frefs s' f = int (count (slots s + E') f)"
  shows "file_inv s' E'"
  using assms(2) unfolding file_inv_def same_tabsD [OF assms(1)] by simp

lemma tab_inv_cong: "same_tabs s s' \<Longrightarrow> tab_inv s U \<Longrightarrow> tab_inv s' U"
proof -
  assume "same_tabs s s'" "tab_inv s U"
  then show ?thesis unfolding tab_inv_def same_tabsD [OF \<open>same_tabs s s'\<close>] by simp
qed

lemma same_tabs_refl [simp]: "same_tabs s s"
  by (simp add: same_tabs_def)

lemma file_get_ok:
  assumes inv: "file_inv s E" and sub: "opt_mset v \<subseteq># slots s + E" and max: "\<And>f. v = Some f \<Longrightarrow> frefs s f < REFCOUNT_MAX"
  shows "\<exists>s'. file_get v s = Some s' \<and> file_inv s' (E + opt_mset v) \<and> same_tabs s s' \<and> released s' = released s \<and>
    (\<forall>f. frefs s' f \<le> frefs s f + (if v = Some f then 1 else 0))"
proof (cases "\<exists>f. v = Some f \<and> \<not> static_file s f")
  case False
  then have g: "file_get v s = Some s" by (cases v) (auto simp: file_get_def)
  have "file_inv s (E + opt_mset v)"
    using False by (intro file_inv_cong [of s]) (cases v; auto simp: file_invD [OF inv])+
  then show ?thesis using g by simp
next
  case True
  then obtain f where Some: "v = Some f" and ns: "\<not> static_file s f" by blast
  have r: "frefs s f = int (count (slots s + E) f)" by (rule file_invD [OF inv ns])
  have "f \<in># slots s + E" using sub Some by simp
  then have pos: "0 < frefs s f" unfolding r by (simp only: of_nat_0_less_iff count_greater_zero_iff)
  have "refcount_inc (frefs s f) = Some (frefs s f + 1)"
    using pos max [OF Some] by (simp add: refcount_inc_def refcount_inc_not_zero_def)
  then have g: "file_get v s = Some (s\<lparr>frefs := (frefs s)(f := frefs s f + 1)\<rparr>)" (is "_ = Some ?s") using Some ns by (simp add: file_get_def)
  have st: "same_tabs s ?s" by (simp add: same_tabs_def)
  have "file_inv ?s (E + {#f#})" by (rule file_inv_cong [OF st]) (auto simp: r file_invD [OF inv])
  then show ?thesis using g st Some by simp
qed

definition freed :: "nat option \<Rightarrow> fdsys \<Rightarrow> nat multiset \<Rightarrow> nat list" where
  "freed v s E = (case v of None \<Rightarrow> [] | Some f \<Rightarrow> if \<not> static_file s f \<and> count (slots s + E) f = 1 then [f] else [])"

lemma file_put_ok:
  assumes inv: "file_inv s E" and sub: "opt_mset v \<subseteq># E"
  shows "\<exists>s'. file_put v s = Some s' \<and> file_inv s' (E - opt_mset v) \<and> same_tabs s s' \<and> released s' = released s @ freed v s E \<and>
    (\<forall>f. frefs s' f \<le> frefs s f)"
proof (cases "\<exists>f. v = Some f \<and> \<not> static_file s f")
  case False
  then have g: "file_put v s = Some s" "freed v s E = []" by (cases v; auto simp: file_put_def freed_def)+
  have "file_inv s (E - opt_mset v)"
    using False by (intro file_inv_cong [of s]) (cases v; auto simp: file_invD [OF inv])+
  then show ?thesis using g by simp
next
  case True
  then obtain f where Some: "v = Some f" and ns: "\<not> static_file s f" by blast
  have r: "frefs s f = int (count (slots s + E) f)" by (rule file_invD [OF inv ns])
  have "count E f > 0" using sub Some by simp
  then obtain n where c: "count (slots s + E) f = Suc n" "count (slots s + (E - {#f#})) f = n" by (cases "count E f") auto
  let ?l = "count (slots s + E) f = 1"
  define s' where "s' = (let s1 = s\<lparr>frefs := (frefs s)(f := frefs s f - 1)\<rparr> in if ?l then s1\<lparr>released := released s1 @ [f]\<rparr> else s1)"
  have "refcount_dec_and_test (frefs s f) = Some (?l, frefs s f - 1)"
    unfolding refcount_dec_and_test_def r c by simp
  then have g: "file_put v s = Some s'" using Some ns by (simp add: file_put_def s'_def Let_def)
  have st: "same_tabs s s'" "frefs s' = (frefs s)(f := frefs s f - 1)" "released s' = released s @ freed v s E"
    using Some ns by (simp_all add: same_tabs_def s'_def Let_def freed_def)
  have "file_inv s' (E - {#f#})"
  proof (rule file_inv_cong [OF st(1)])
    fix g assume "\<not> static_file s g"
    then show "frefs s' g = int (count (slots s + (E - {#f#})) g)" using file_invD [OF inv, of g] r c by (cases "g = f") (auto simp: st(2))
  qed
  then show ?thesis using g st Some by simp
qed

lemma set_tab_simps [simp]:
  "frefs (set_tab t T s) = frefs s" "static_file (set_tab t T s) = static_file s" "released (set_tab t T s) = released s"
  "tfiles (set_tab t T s) = tfiles s" "troots (set_tab t T s) = troots s" "task_files u (set_tab t T s) = task_files u s"
  by (simp_all add: set_tab_def troots_def task_files_def)

lemma swap_ok:
  assumes inv: "file_inv s E" and t: "the_tab t s = Some T" and D: "somes (fds T') + D' = somes (fds T) + D" "D \<subseteq># E"
  shows "file_inv (set_tab t T' s) (E - D + D')"
proof -
  let ?s = "set_tab t T' s"
  have a: "slots ?s + somes (fds T) = slots s + somes (fds T')" by (rule slots_set_tab [OF t])
  have "slots ?s + D' = slots s + D"
  proof (rule multiset_eqI)
    fix x
    have "count (slots ?s) x + count (somes (fds T)) x = count (slots s) x + count (somes (fds T')) x" by (metis a count_union)
    moreover have "count (somes (fds T')) x + count D' x = count (somes (fds T)) x + count D x" by (metis D(1) count_union)
    ultimately show "count (slots ?s + D') x = count (slots s + D) x" by simp
  qed
  then have e: "slots ?s + (E - D + D') = slots s + E" using D(2) by (rule mset_move)
  show ?thesis unfolding file_inv_def e set_tab_simps using file_invD [OF inv] by blast
qed

lemma slot_ok:
  assumes inv: "file_inv s E" and t: "the_tab t s = Some T" and i: "i < length (fds T)" and v: "opt_mset v \<subseteq># E"
    and T': "fds T' = (fds T)[i := v]"
  shows "file_inv (set_tab t T' s) (E - opt_mset v + opt_mset (fds T ! i))"
  using swap_ok [OF inv t _ v, of T' "opt_mset (fds T ! i)"] somes_update [OF i] T' by simp

lemma tab_inv_same:
  assumes inv: "tab_inv s U" and t: "the_tab t s = Some T" and T': "tab_ok T'" "fs_refs T' = fs_refs T"
    and t': "\<And>u. the_tab u s' = (if u = t then Some T' else the_tab u s)" and tf: "tfiles s' = tfiles s"
  shows "tab_inv s' U"
proof (rule tab_invI)
  have tr: "troots s' = troots s" by (simp add: troots_def tf)
  fix u assume "the_tab u s' = None"
  then show "u \<notin># troots s' + U"
    using tab_invD(1) [OF inv, of u] unfolding t' tr by (auto split: if_splits)
next
  have tr: "troots s' = troots s" by (simp add: troots_def tf)
  fix u V assume "the_tab u s' = Some V"
  then show "tab_ok V \<and> u \<in># troots s' + U \<and> fs_refs V = int (count (troots s' + U) u)"
    using tab_invD(2-4) [OF inv, of u] tab_invD(3,4) [OF inv t] T' unfolding t' tr by (metis option.inject)
qed

lemma tab_set_ok:
  assumes "tab_inv s U" and "the_tab t s = Some T" and "tab_ok T'" "fs_refs T' = fs_refs T"
  shows "tab_inv (set_tab t T' s) U"
  by (rule tab_inv_same [OF assms]) (simp_all add: the_tab_set_tab [OF assms(2)])

section \<open>Whole operations\<close>

text \<open>A step that concerns files only.\<close>

definition files_step :: "fdsys \<Rightarrow> fdsys \<Rightarrow> bool" where
  "files_step s s' \<longleftrightarrow> same_tabs s s' \<and> (\<forall>f. frefs s' f \<le> frefs s f)"

lemma files_step_trans: "files_step s s' \<Longrightarrow> files_step s' s'' \<Longrightarrow> files_step s s''"
  unfolding files_step_def same_tabs_def by (metis order_trans)

lemma put_files_ok:
  "file_inv s E \<Longrightarrow> somes fs \<subseteq># E \<Longrightarrow> \<exists>s'. put_files fs s = Some s' \<and> file_inv s' (E - somes fs) \<and> files_step s s'"
proof (induction fs arbitrary: s E)
  case Nil
  then show ?case by (simp add: somes_def files_step_def)
next
  case (Cons v fs)
  have e: "somes (v # fs) = opt_mset v + somes fs" by (simp add: somes_def)
  then have "opt_mset v \<subseteq># E" using Cons.prems(2) by (metis mset_subset_eq_add_left subset_mset.order_trans)
  then obtain s1 where s1: "file_put v s = Some s1" "file_inv s1 (E - opt_mset v)" "files_step s s1"
    using file_put_ok [OF Cons.prems(1)] by (auto simp: files_step_def)
  have "somes fs \<subseteq># E - opt_mset v" 
  proof (rule mset_subset_eqI)
    fix x
    have "count (opt_mset v) x + count (somes fs) x \<le> count E x" using Cons.prems(2) unfolding e subseteq_mset_def by (metis count_union)
    then show "count (somes fs) x \<le> count (E - opt_mset v) x" by simp
  qed
  then obtain s' where "put_files fs s1 = Some s'" "file_inv s' (E - opt_mset v - somes fs)" "files_step s1 s'"
    using Cons.IH [OF s1(2)] by blast
  moreover from this have "files_step s s'" using s1(3) files_step_trans by blast
  ultimately show ?case using s1(1) unfolding e by (simp add: diff_diff_add_mset)
qed

text \<open>The loop of \<^verbatim>\<open>files_put\<close>: afterwards the slots visited are empty.\<close>

lemma put_loop_ok:
  "file_inv s E \<Longrightarrow> the_tab t s = Some T \<Longrightarrow> \<forall>i \<in> set is. i < length (fds T) \<Longrightarrow>
   \<exists>s' T'. put_loop t is s = Some s' \<and> file_inv s' E \<and> the_tab t s' = Some T' \<and> length (fds T') = length (fds T) \<and>
     (\<forall>i < length (fds T). fds T' ! i = (if i \<in> set is then None else fds T ! i)) \<and>
     (\<forall>u. u \<noteq> t \<longrightarrow> the_tab u s' = the_tab u s) \<and> tfiles s' = tfiles s \<and> static_file s' = static_file s \<and> (\<forall>f. frefs s' f \<le> frefs s f)"
proof (induction "is" arbitrary: s T)
  case Nil
  then show ?case by auto
next
  case (Cons i js)
  define T1 where "T1 = T\<lparr>fds := (fds T)[i := None]\<rparr>"
  have i: "i < length (fds T)" using Cons.prems(3) by simp
  have fi: "file_inv (set_tab t T1 s) (E + opt_mset (fds T ! i))"
    using slot_ok [OF Cons.prems(1,2) i, of None T1] by (simp add: T1_def)
  obtain s1 where s1: "file_put (fds T ! i) (set_tab t T1 s) = Some s1" "file_inv s1 E" "same_tabs (set_tab t T1 s) s1"
    "\<forall>f. frefs s1 f \<le> frefs s f"
    using file_put_ok [OF fi, of "fds T ! i"] by auto
  note st = same_tabsD [OF s1(3)]
  have t1: "the_tab t s1 = Some T1" "\<And>u. u \<noteq> t \<Longrightarrow> the_tab u s1 = the_tab u s"
    unfolding st the_tab_set_tab [OF Cons.prems(2)] by simp_all
  obtain s' T' where s': "put_loop t js s1 = Some s'" "file_inv s' E" "the_tab t s' = Some T'" "length (fds T') = length (fds T)"
    "\<forall>i < length (fds T). fds T' ! i = (if i \<in> set js then None else fds T1 ! i)"
    "\<forall>u. u \<noteq> t \<longrightarrow> the_tab u s' = the_tab u s1" "tfiles s' = tfiles s1" "static_file s' = static_file s1" "\<forall>f. frefs s' f \<le> frefs s1 f"
    using Cons.IH [OF s1(2) t1(1)] Cons.prems(3) by (auto simp: T1_def)
  have "put_loop t (i # js) s = Some s'" using Cons.prems(2) s1(1) s'(1) by (simp add: T1_def)
  moreover have "\<forall>j < length (fds T). fds T' ! j = (if j \<in> set (i # js) then None else fds T ! j)"
    using s'(5) by (auto simp: T1_def nth_list_update)
  moreover have "\<forall>f. frefs s' f \<le> frefs s f" using s'(9) s1(4) order_trans by blast
  ultimately show ?case using s' t1(2) st(5,7) by auto
qed

lemma the_tab_free: "the_tab u (s\<lparr>tabs := (tabs s)[t := None]\<rparr>) = (if u = t then None else the_tab u s)"
  by (auto simp: the_tab_def)

lemma slots_free:
  assumes "the_tab t s = Some T" and "somes (fds T) = {#}"
  shows "slots (s\<lparr>tabs := (tabs s)[t := None]\<rparr>) = slots s"
  using sum_list_map_update [of t "tabs s" tab_slots None] assms
  by (simp add: slots_def the_tab_def tab_slots_def split: if_splits)

text \<open>A table loses one reference; without any left it is freed.\<close>

lemma tab_inv_drop:
  assumes inv: "tab_inv s U" and t: "t \<in># U" and oth: "\<And>u. u \<noteq> t \<Longrightarrow> the_tab u s' = the_tab u s" and tf: "tfiles s' = tfiles s"
    and t': "the_tab t s' = (if count (troots s + (U - {#t#})) t = 0 then None else Some T')"
    and T': "tab_ok T'" "fs_refs T' = int (count (troots s + (U - {#t#})) t)"
  shows "tab_inv s' (U - {#t#})"
proof (rule tab_invI)
  have tr: "troots s' = troots s" by (simp add: troots_def tf)
  fix u assume u: "the_tab u s' = None"
  show "u \<notin># troots s' + (U - {#t#})"
  proof (cases "u = t")
    case True
    then have "count (troots s + (U - {#t#})) u = 0" using u t' by (simp split: if_splits)
    then show ?thesis unfolding tr by (simp only: count_eq_zero_iff not_False_eq_True)
  next
    case False
    then show ?thesis using tab_invD(1) [OF inv, of u] u oth [OF False] by (auto simp: tr dest: in_diffD)
  qed
next
  have tr: "troots s' = troots s" by (simp add: troots_def tf)
  fix u V assume V: "the_tab u s' = Some V"
  show "tab_ok V \<and> u \<in># troots s' + (U - {#t#}) \<and> fs_refs V = int (count (troots s' + (U - {#t#})) u)"
  proof (cases "u = t")
    case True
    then have "V = T'" "count (troots s + (U - {#t#})) u \<noteq> 0" using V t' by (simp_all split: if_splits)
    then show ?thesis using T' True unfolding tr by (simp only: count_eq_zero_iff) simp
  next
    case False
    then have V': "the_tab u s = Some V" using V oth by simp
    have "count (troots s + (U - {#t#})) u = count (troots s + U) u" using False by simp
    then have "u \<in># troots s + (U - {#t#})" using tab_invD(3) [OF inv V'] by (metis count_eq_zero_iff)
    then show ?thesis using tab_invD(2,4) [OF inv V'] False by (simp add: tr)
  qed
qed

text \<open>What a descriptor table shows: its open files and its close-on-exec marks.\<close>

definition tab_view :: "nat \<Rightarrow> fdsys \<Rightarrow> (nat option list \<times> u64) option" where
  "tab_view t s = map_option (\<lambda>T. (fds T, close_on_exec T)) (the_tab t s)"

lemma files_put_ok:
  assumes fi: "file_inv s E" and ti: "tab_inv s U" and t: "t \<in># U"
  shows "\<exists>s'. files_put (Some t) s = Some s' \<and> file_inv s' E \<and> tab_inv s' (U - {#t#}) \<and> tfiles s' = tfiles s \<and>
    static_file s' = static_file s \<and> (\<forall>f. frefs s' f \<le> frefs s f) \<and> (\<forall>u. u \<in># troots s + (U - {#t#}) \<longrightarrow> tab_view u s' = tab_view u s)"
proof -
  obtain T where T: "the_tab t s = Some T" using tab_invD(1) [OF ti, of t] t by auto
  define n where "n = count (troots s + (U - {#t#})) t"
  have "count U t > 0" using t by simp
  then have n: "count (troots s + U) t = Suc n" unfolding n_def by (cases "count U t") auto
  have ok: "tab_ok T" "fs_refs T = int (Suc n)" using tab_invD(2,4) [OF ti T] n by auto
  define T1 where "T1 = T\<lparr>fs_refs := int n\<rparr>"
  define s1 where "s1 = set_tab t T1 s"
  have t1: "the_tab u s1 = (if u = t then Some T1 else the_tab u s)" for u unfolding s1_def by (rule the_tab_set_tab [OF T])
  have T1: "tab_ok T1" "fs_refs T1 = int n" using ok(1) by (simp_all add: T1_def tab_ok_def)
  have f1: "file_inv s1 E" using swap_ok [OF fi T, of T1 "{#}" "{#}"] by (simp add: s1_def T1_def)
  have dec: "refcount_dec_and_test (fs_refs T) = Some (n = 0, int n)" unfolding ok refcount_dec_and_test_def by auto
  show ?thesis
  proof (cases "n = 0")
    case False
    then have "files_put (Some t) s = Some s1" using T dec by (simp add: files_put_def s1_def T1_def Let_def)
    moreover have "tab_inv s1 (U - {#t#})"
      using tab_inv_drop [OF ti t, of s1 T1, folded n_def] t1 T1 False by (simp add: s1_def)
    moreover have "tab_view u s1 = tab_view u s" for u using T by (simp add: tab_view_def t1 T1_def)
    ultimately show ?thesis using f1 by (simp add: s1_def)
  next
    case True
    obtain s2 T2 where s2: "put_loop t [0..<NR_OPEN] s1 = Some s2" "file_inv s2 E" "the_tab t s2 = Some T2" "length (fds T2) = NR_OPEN"
      "\<forall>i < NR_OPEN. fds T2 ! i = None" "\<forall>u. u \<noteq> t \<longrightarrow> the_tab u s2 = the_tab u s1" "tfiles s2 = tfiles s1"
      "static_file s2 = static_file s1" "\<forall>f. frefs s2 f \<le> frefs s1 f"
      using put_loop_ok [OF f1, of t T1 "[0..<NR_OPEN]"] t1 [of t] ok(1) by (auto simp: T1_def tab_ok_def)
    define s3 where "s3 = s2\<lparr>tabs := (tabs s2)[t := None]\<rparr>"
    have t3: "the_tab u s3 = (if u = t then None else the_tab u s)" for u using s2(6) t1 by (simp add: s3_def the_tab_free)
    have "fds T2 = replicate NR_OPEN None" using s2(4,5) by (intro nth_equalityI) auto
    then have "slots s3 = slots s2" unfolding s3_def by (intro slots_free [OF s2(3)]) simp
    then have "file_inv s3 E" using s2(2) by (simp add: file_inv_def s3_def)
    moreover have "files_put (Some t) s = Some s3" using T dec True s2(1) by (simp add: files_put_def s1_def T1_def s3_def Let_def)
    moreover have eq: "tfiles s3 = tfiles s" "static_file s3 = static_file s" "\<forall>f. frefs s3 f \<le> frefs s f" using s2(7-9) by (simp_all add: s3_def s1_def)
    moreover have "tab_inv s3 (U - {#t#})" using tab_inv_drop [OF ti t, of s3 T1, folded n_def] t3 T1 True eq(1) by simp
    moreover have "t \<notin># troots s + (U - {#t#})" using n_def True by (metis count_eq_zero_iff)
    then have "tab_view u s3 = tab_view u s" if "u \<in># troots s + (U - {#t#})" for u using that by (auto simp: tab_view_def t3)
    ultimately show ?thesis by auto
  qed
qed


subsection \<open>Creating and sharing tables\<close>

lemma file_get_set_tab: "file_get v (set_tab t T s) = map_option (set_tab t T) (file_get v s)"
  by (auto simp: file_get_def set_tab_def split: option.splits bind_splits)

lemma files_alloc_ok:
  assumes fi: "file_inv s E" and ti: "tab_inv s U" and a: "files_alloc True s = (Some t, s')"
  shows "file_inv s' E" "tab_inv s' (U + {#t#})" "the_tab t s = None" "t = length (tabs s)"
    "the_tab u s' = (if u = t then Some \<lparr>fs_refs = 1, close_on_exec = 0, fds = replicate NR_OPEN None\<rparr> else the_tab u s)"
    "tfiles s' = tfiles s" "frefs s' = frefs s" "static_file s' = static_file s" "released s' = released s"
proof -
  let ?T = "\<lparr>fs_refs = 1, close_on_exec = 0, fds = replicate NR_OPEN None\<rparr>"
  have t: "t = length (tabs s)" "s' = s\<lparr>tabs := tabs s @ [Some ?T]\<rparr>" using a by (auto simp: files_alloc_def)
  show tu: "the_tab u s' = (if u = t then Some ?T else the_tab u s)" for u by (auto simp: t the_tab_def nth_append)
  show n: "the_tab t s = None" "t = length (tabs s)" by (simp_all add: t the_tab_def)
  show "tfiles s' = tfiles s" "frefs s' = frefs s" "static_file s' = static_file s" "released s' = released s" by (simp_all add: t)
  have "slots s' = slots s" by (simp add: t slots_def tab_slots_def)
  then show "file_inv s' E" using fi by (simp add: file_inv_def t)
  have tr: "troots s' = troots s" by (simp add: troots_def t)
  have z: "count (troots s + U) t = 0" using tab_invD(1) [OF ti, of t] n(1) by (simp only: count_eq_zero_iff) auto
  show "tab_inv s' (U + {#t#})"
  proof (rule tab_invI)
    fix v assume "the_tab v s' = None"
    then show "v \<notin># troots s' + (U + {#t#})" using tab_invD(1) [OF ti, of v] by (auto simp: tu tr split: if_splits)
  next
    fix v V assume "the_tab v s' = Some V"
    then show "tab_ok V \<and> v \<in># troots s' + (U + {#t#}) \<and> fs_refs V = int (count (troots s' + (U + {#t#})) v)"
      using tab_invD(2-4) [OF ti, of v] z by (auto simp: tu tr tab_ok_def split: if_splits)
  qed
qed

lemma dup_loop_ok:
  assumes "file_inv s E" and "the_tab t s = Some T" and "i + length fs \<le> length (fds T)" and "\<forall>j. i \<le> j \<longrightarrow> j < length (fds T) \<longrightarrow> fds T ! j = None"
    and "the_tab old s = Some Old" "old \<noteq> t" "set fs \<subseteq> set (fds Old)" and "\<forall>f. frefs s f + int (length fs) \<le> REFCOUNT_MAX"
  shows "\<exists>s'. dup_loop t i fs s = Some s' \<and> file_inv s' E \<and>
    (\<forall>u. the_tab u s' = (if u = t then Some (T\<lparr>fds := take i (fds T) @ fs @ drop (i + length fs) (fds T)\<rparr>) else the_tab u s)) \<and>
    tfiles s' = tfiles s \<and> static_file s' = static_file s \<and> released s' = released s"
  using assms
proof (induction fs arbitrary: i s T)
  case Nil
  then show ?case by (auto simp: the_tab_def)
next
  case (Cons v fs)
  define T1 where "T1 = T\<lparr>fds := (fds T)[i := v]\<rparr>"
  have i: "i < length (fds T)" "fds T ! i = None" using Cons.prems(3,4) by auto
  have "opt_mset v \<subseteq># somes (fds Old)" using Cons.prems(7) by (cases v) (auto simp: in_somes)
  then have sub: "opt_mset v \<subseteq># slots s + E"
    using tab_slots_subset [OF Cons.prems(5)] by (meson mset_subset_eq_add_left subset_mset.order_trans)
  have "frefs s f < REFCOUNT_MAX" for f
  proof -
    have "frefs s f + int (length (v # fs)) \<le> REFCOUNT_MAX" using Cons.prems(8) by blast
    then show ?thesis by simp
  qed
  then obtain s1 where s1: "file_get v s = Some s1" "file_inv s1 (E + opt_mset v)" "same_tabs s s1" "released s1 = released s"
    "\<forall>f. frefs s1 f \<le> frefs s f + (if v = Some f then 1 else 0)"
    using file_get_ok [OF Cons.prems(1) sub] by blast
  note st = same_tabsD [OF s1(3)]
  define s2 where "s2 = set_tab t T1 s1"
  have ts1: "the_tab t s1 = Some T" using st(1) Cons.prems(2) by simp
  have t2: "the_tab u s2 = (if u = t then Some T1 else the_tab u s)" for u unfolding s2_def the_tab_set_tab [OF ts1] st(1) ..
  have f2: "file_inv s2 E" using slot_ok [OF s1(2) ts1 i(1), of v T1] i(2) by (simp add: s2_def T1_def)
  have b: "\<forall>f. frefs s2 f + int (length fs) \<le> REFCOUNT_MAX"
  proof
    fix f
    have "frefs s1 f \<le> frefs s f + 1" using s1(5) by (smt (verit))
    moreover have "frefs s f + int (length (v # fs)) \<le> REFCOUNT_MAX" using Cons.prems(8) by blast
    ultimately show "frefs s2 f + int (length fs) \<le> REFCOUNT_MAX" by (simp add: s2_def)
  qed
  have e: "take (Suc i) (fds T1) @ fs @ drop (Suc i + length fs) (fds T1) = take i (fds T) @ (v # fs) @ drop (i + length (v # fs)) (fds T)"
    using i(1) by (simp add: T1_def take_Suc_conv_app_nth)
  have len: "length (fds T1) = length (fds T)" "T1\<lparr>fds := x\<rparr> = T\<lparr>fds := x\<rparr>" for x by (simp_all add: T1_def)
  have pre: "the_tab t s2 = Some T1" "Suc i + length fs \<le> length (fds T1)" "\<forall>j. Suc i \<le> j \<longrightarrow> j < length (fds T1) \<longrightarrow> fds T1 ! j = None"
    "the_tab old s2 = Some Old" "set fs \<subseteq> set (fds Old)"
    using Cons.prems(3-7) by (simp_all add: t2 T1_def)
  obtain s' where s': "dup_loop t (Suc i) fs s2 = Some s'" "file_inv s' E"
    "\<forall>u. the_tab u s' = (if u = t then Some (T1\<lparr>fds := take (Suc i) (fds T1) @ fs @ drop (Suc i + length fs) (fds T1)\<rparr>) else the_tab u s2)"
    "tfiles s' = tfiles s2" "static_file s' = static_file s2" "released s' = released s2"
    using Cons.IH [OF f2 pre(1-4) Cons.prems(6) pre(5) b] by blast
  have "dup_loop t i (v # fs) s = Some s'"
    using Cons.prems(2) s1(1) s'(1) by (simp add: file_get_set_tab T1_def [symmetric] s2_def)
  then show ?case using s'(2-6) st(5,7) s1(4) unfolding e len(2) t2 by (auto simp: s2_def)
qed

lemma files_dup_ok:
  assumes fi: "file_inv s E" and ti: "tab_inv s U" and old: "\<And>o'. old = Some o' \<Longrightarrow> \<exists>Old. the_tab o' s = Some Old"
    and b: "\<forall>f. frefs s f + 32 \<le> REFCOUNT_MAX"
  shows "\<exists>s' t. files_dup True old s = Some (Some t, s') \<and> file_inv s' E \<and> tab_inv s' (U + {#t#}) \<and> the_tab t s = None \<and>
    tab_view t s' = (case old of None \<Rightarrow> Some (replicate NR_OPEN None, 0) | Some o' \<Rightarrow> tab_view o' s) \<and>
    (\<forall>u. u \<noteq> t \<longrightarrow> the_tab u s' = the_tab u s) \<and> tfiles s' = tfiles s \<and> static_file s' = static_file s \<and> released s' = released s"
proof -
  obtain t s1 where a: "files_alloc True s = (Some t, s1)" by (simp add: files_alloc_def)
  note al = files_alloc_ok [OF fi ti a]
  show ?thesis
  proof (cases old)
    case None
    then have "files_dup True old s = Some (Some t, s1)" by (simp add: files_dup_def a)
    then show ?thesis using al None by (auto simp: tab_view_def)
  next
    case (Some o')
    obtain Old where O: "the_tab o' s = Some Old" using old [OF Some] by blast
    then have ne: "o' \<noteq> t" using al(3) by auto
    have O1: "the_tab o' s1 = Some Old" using al(5) O ne by simp
    let ?T0 = "\<lparr>fs_refs = 1, close_on_exec = 0, fds = replicate NR_OPEN None\<rparr>"
    define T1 where "T1 = ?T0\<lparr>close_on_exec := close_on_exec Old\<rparr>"
    define s2 where "s2 = set_tab t T1 s1"
    have t1: "the_tab t s1 = Some ?T0" using al(5) by simp
    have t2: "the_tab u s2 = (if u = t then Some T1 else the_tab u s)" for u unfolding s2_def the_tab_set_tab [OF t1] al(5) by simp
    have f2: "file_inv s2 E" using swap_ok [OF al(1) t1, of T1 "{#}" "{#}"] by (simp add: s2_def T1_def)
    have ok: "tab_ok Old" by (rule tab_invD(2) [OF ti O])
    then have lo: "length (fds Old) = NR_OPEN" by (simp add: tab_ok_def)
    have pre: "the_tab t s2 = Some T1" "0 + length (fds Old) \<le> length (fds T1)" "\<forall>j. 0 \<le> j \<longrightarrow> j < length (fds T1) \<longrightarrow> fds T1 ! j = None"
      "the_tab o' s2 = Some Old"
      using lo O ne by (simp_all add: t2 T1_def)
    have pre5: "\<forall>f. frefs s2 f + int (length (fds Old)) \<le> REFCOUNT_MAX" using b al(7) lo by (simp add: s2_def NR_OPEN_def)
    obtain s3 where s3: "dup_loop t 0 (fds Old) s2 = Some s3" "file_inv s3 E"
      "\<forall>u. the_tab u s3 = (if u = t then Some (T1\<lparr>fds := take 0 (fds T1) @ fds Old @ drop (0 + length (fds Old)) (fds T1)\<rparr>) else the_tab u s2)"
      "tfiles s3 = tfiles s2" "static_file s3 = static_file s2" "released s3 = released s2"
      using dup_loop_ok [OF f2 pre(1-4) ne subset_refl pre5] by blast
    let ?T3 = "T1\<lparr>fds := fds Old\<rparr>"
    have t3: "the_tab u s3 = (if u = t then Some ?T3 else the_tab u s1)" for u using s3(3) lo al(5) by (simp add: t2 T1_def)
    have "tab_inv s3 (U + {#t#})"
      by (rule tab_inv_same [OF al(2) t1, of ?T3 s3]) (use ok t3 s3(4) in \<open>simp_all add: T1_def tab_ok_def s2_def\<close>)
    moreover have "files_dup True old s = Some (Some t, s3)"
      using s3(1) t1 O1 Some by (simp add: files_dup_def a s2_def T1_def)
    moreover have "tab_view t s3 = tab_view o' s" by (simp add: tab_view_def t3 T1_def O)
    ultimately show ?thesis using s3(2,4-6) al Some t3 by (auto simp: s2_def)
  qed
qed

lemma files_get_ok:
  assumes fi: "file_inv s E" and ti: "tab_inv s U" and T: "the_tab t s = Some T" and b: "fs_refs T < REFCOUNT_MAX"
  shows "\<exists>s'. files_get (Some t) s = Some s' \<and> file_inv s' E \<and> tab_inv s' (U + {#t#}) \<and> (\<forall>u. tab_view u s' = tab_view u s) \<and>
    tfiles s' = tfiles s \<and> static_file s' = static_file s \<and> frefs s' = frefs s \<and> released s' = released s"
proof -
  have t: "t \<in># troots s + U" "fs_refs T = int (count (troots s + U) t)" "tab_ok T" using tab_invD(2-4) [OF ti T] by blast+
  then have "count (troots s + U) t > 0" by (simp only: count_greater_zero_iff)
  then have pos: "fs_refs T > 0" unfolding t(2) by (simp only: of_nat_0_less_iff)
  then have inc: "refcount_inc (fs_refs T) = Some (fs_refs T + 1)" using b by (simp add: refcount_inc_def refcount_inc_not_zero_def)
  define T1 where "T1 = T\<lparr>fs_refs := fs_refs T + 1\<rparr>"
  let ?s = "set_tab t T1 s"
  have tu: "the_tab u ?s = (if u = t then Some T1 else the_tab u s)" for u by (rule the_tab_set_tab [OF T])
  have "tab_inv ?s (U + {#t#})"
  proof (rule tab_invI)
    fix u assume "the_tab u ?s = None"
    then show "u \<notin># troots ?s + (U + {#t#})" using tab_invD(1) [OF ti, of u] by (auto simp: tu split: if_splits)
  next
    fix u V assume "the_tab u ?s = Some V"
    then show "tab_ok V \<and> u \<in># troots ?s + (U + {#t#}) \<and> fs_refs V = int (count (troots ?s + (U + {#t#})) u)"
    proof (cases "u = t")
      case True
      then have "V = T1" using \<open>the_tab u ?s = Some V\<close> by (simp add: tu)
      then show ?thesis using True t by (simp add: T1_def tab_ok_def)
    next
      case False
      then show ?thesis using tab_invD(2-4) [OF ti, of u V] \<open>the_tab u ?s = Some V\<close> by (simp add: tu)
    qed
  qed
  moreover have "file_inv ?s E" using swap_ok [OF fi T, of T1 "{#}" "{#}"] by (simp add: T1_def)
  moreover have "files_get (Some t) s = Some ?s" using T inc by (simp add: files_get_def T1_def)
  moreover have "tab_view u ?s = tab_view u s" for u unfolding tab_view_def tu using T by (simp add: T1_def)
  ultimately show ?thesis by simp
qed

lemma task_set_files_ok:
  assumes ti: "tab_inv s U" and k: "task < length (tfiles s)" and v: "opt_mset v \<subseteq># U"
  shows "tab_inv (task_set_files task v s) (U - opt_mset v + opt_mset (tfiles s ! task))"
proof -
  have e: "troots (task_set_files task v s) + (U - opt_mset v + opt_mset (tfiles s ! task)) = troots s + U"
    using somes_update [OF k, of v] v by (intro mset_move) (simp_all add: troots_def task_set_files_def)
  have "the_tab u (task_set_files task v s) = the_tab u s" for u by (simp add: the_tab_def task_set_files_def)
  then show ?thesis using ti unfolding tab_inv_def e by simp
qed

lemma task_set_files_simps [simp]:
  "file_inv (task_set_files task v s) E = file_inv s E" "the_tab u (task_set_files task v s) = the_tab u s"
  "tab_view u (task_set_files task v s) = tab_view u s" "frefs (task_set_files task v s) = frefs s"
  "static_file (task_set_files task v s) = static_file s" "tfiles (task_set_files task v s) = (tfiles s)[task := v]"
  by (simp_all add: file_inv_def slots_def the_tab_def tab_view_def task_set_files_def)


subsection \<open>Descriptors\<close>

definition fd_ok :: "fdsys \<Rightarrow> bool" where
  "fd_ok s \<longleftrightarrow> file_inv s {#} \<and> tab_inv s {#}"

text \<open>The counts are far from their limit: an operation adds at most 33 references to a file.\<close>

definition fd_room :: "fdsys \<Rightarrow> bool" where
  "fd_room s \<longleftrightarrow> (\<forall>f. frefs s f + 40 \<le> REFCOUNT_MAX) \<and> (\<forall>t T. the_tab t s = Some T \<longrightarrow> fs_refs T < REFCOUNT_MAX)"

definition task_view :: "nat \<Rightarrow> fdsys \<Rightarrow> (nat option list \<times> u64) option" where
  "task_view task s = (case task_files task s of None \<Rightarrow> None | Some t \<Rightarrow> tab_view t s)"

text \<open>An operation gives the table \<open>t\<close> new contents and leaves the others and the tasks alone.\<close>

definition view_upd :: "fdsys \<Rightarrow> nat \<Rightarrow> nat option list \<Rightarrow> u64 \<Rightarrow> fdsys \<Rightarrow> bool" where
  "view_upd s t fs c s' \<longleftrightarrow> tfiles s' = tfiles s \<and> (\<forall>u. tab_view u s' = (if u = t then Some (fs, c) else tab_view u s))"

lemma task_tab:
  assumes "tab_inv s U" and "task_files task s = Some t"
  obtains T where "the_tab t s = Some T" "tab_ok T" "length (fds T) = NR_OPEN"
proof -
  have "Some t \<in> set (tfiles s)" using assms(2) by (metis nth_mem option.distinct(1) task_files_def)
  then have "t \<in># troots s" by (simp add: troots_def in_somes)
  then obtain T where T: "the_tab t s = Some T" using tab_invD(1) [OF assms(1), of t] by auto
  then show thesis using that tab_invD(2) [OF assms(1) T] by (simp add: tab_ok_def)
qed

text \<open>Setting a slot: the reference held goes into the slot, the one that was there is held.\<close>

lemma set_slot_ok:
  assumes fi: "file_inv s E" and ti: "tab_inv s U" and T: "the_tab t s = Some T" and i: "i < NR_OPEN" and v: "opt_mset v \<subseteq># E" "b \<Longrightarrow> v \<noteq> None"
    and s': "s' = set_tab t (T\<lparr>fds := (fds T)[i := v], close_on_exec := set_cloexec b i (close_on_exec T)\<rparr>) s"
  shows "file_inv s' (E - opt_mset v + opt_mset (fds T ! i))" "tab_inv s' U" "view_upd s t ((fds T)[i := v]) (set_cloexec b i (close_on_exec T)) s'"
    "frefs s' = frefs s" "released s' = released s" "static_file s' = static_file s"
proof -
  have ok: "tab_ok T" "length (fds T) = NR_OPEN" using tab_invD(2) [OF ti T] by (simp_all add: tab_ok_def)
  show "file_inv s' (E - opt_mset v + opt_mset (fds T ! i))" unfolding s' using slot_ok [OF fi T _ v(1)] i ok(2) by simp
  show "tab_inv s' U" unfolding s' by (rule tab_set_ok [OF ti T tab_ok_set [OF ok(1) i v(2)]]) simp_all
  show "view_upd s t ((fds T)[i := v]) (set_cloexec b i (close_on_exec T)) s'"
    by (simp add: view_upd_def tab_view_def s' the_tab_set_tab [OF T])
qed (simp_all add: s')

lemma view_upd_same: "view_upd s t fs c s' \<Longrightarrow> same_tabs s' s'' \<Longrightarrow> view_upd s t fs c s''"
  by (simp add: view_upd_def tab_view_def same_tabsD)

lemma same_view: "same_tabs s s' \<Longrightarrow> tab_view u s' = tab_view u s"
  by (simp add: tab_view_def same_tabsD)

lemma first_free_Some: "first_free lo T = Some i \<longleftrightarrow> lo \<le> i \<and> i < NR_OPEN \<and> fds T ! i = None \<and> (\<forall>j. lo \<le> j \<longrightarrow> j < i \<longrightarrow> fds T ! j \<noteq> None)"
proof -
  have "first_free lo T = Some i \<longleftrightarrow> (\<exists>k < NR_OPEN - lo. fds T ! (lo + k) = None \<and> i = lo + k \<and> (\<forall>j < k. fds T ! (lo + j) \<noteq> None))"
    by (auto simp: first_free_def find_Some_iff)
  also have "\<dots> \<longleftrightarrow> lo \<le> i \<and> i < NR_OPEN \<and> fds T ! i = None \<and> (\<forall>j. lo \<le> j \<longrightarrow> j < i \<longrightarrow> fds T ! j \<noteq> None)" (is "?L \<longleftrightarrow> ?R")
  proof
    assume ?L
    then obtain k where k: "k < NR_OPEN - lo" "fds T ! (lo + k) = None" "i = lo + k" "\<forall>j < k. fds T ! (lo + j) \<noteq> None" by blast
    have "fds T ! j \<noteq> None" if "lo \<le> j" "j < i" for j
    proof -
      have "fds T ! (lo + (j - lo)) \<noteq> None" using k(3,4) that by (intro k(4) [rule_format]) simp
      then show ?thesis using that(1) by simp
    qed
    then show ?R using k by simp
  next
    assume R: ?R
    then have "fds T ! (lo + j) \<noteq> None" if "j < i - lo" for j using that by simp
    then show ?L using R by (intro exI [of _ "i - lo"]) auto
  qed
  finally show ?thesis .
qed

lemma first_free_None: "first_free lo T = None \<longleftrightarrow> (\<forall>j. lo \<le> j \<longrightarrow> j < NR_OPEN \<longrightarrow> fds T ! j \<noteq> None)"
  by (auto simp: first_free_def find_None_iff)

definition lookup :: "nat \<Rightarrow> int \<Rightarrow> fdsys \<Rightarrow> nat option" where
  "lookup cur fd s =
     (case task_view cur s of None \<Rightarrow> None | Some (fs, c) \<Rightarrow> if bad_fd fd then None else fs ! nat fd)"

lemma lookup_tab:
  "task_files cur s = Some t \<Longrightarrow> the_tab t s = Some T \<Longrightarrow> lookup cur fd s = (if bad_fd fd then None else fds T ! nat fd)"
  by (simp add: lookup_def task_view_def tab_view_def)

lemma lookup_none: "task_files cur s = None \<Longrightarrow> lookup cur fd s = None"
  by (simp add: lookup_def task_view_def)

lemma good_fd: "\<not> bad_fd fd \<Longrightarrow> nat fd < NR_OPEN"
  by (auto simp: bad_fd_def nat_less_iff)

lemma fd_get_ok:
  assumes fi: "file_inv s E" and ti: "tab_inv s U" and b: "\<And>f. frefs s f < REFCOUNT_MAX"
  shows "\<exists>s'. fd_get cur fd s = Some (lookup cur fd s, s') \<and> file_inv s' (E + opt_mset (lookup cur fd s)) \<and> same_tabs s s' \<and> released s' = released s \<and>
    (\<forall>f. frefs s' f \<le> frefs s f + 1)"
proof (cases "task_files cur s")
  case None
  then show ?thesis using fi by (simp add: fd_get_def fd_get_checked_def lookup_none)
next
  case (Some t)
  obtain T where T: "the_tab t s = Some T" "length (fds T) = NR_OPEN" using task_tab [OF ti Some] by blast
  note lk = lookup_tab [OF Some T(1), of fd]
  show ?thesis
  proof (cases "bad_fd fd")
    case True
    then show ?thesis using fi Some by (simp add: fd_get_def fd_get_checked_def lk)
  next
    case False
    then have "nat fd < length (fds T)" using T(2) good_fd by simp
    then have "opt_mset (fds T ! nat fd) \<subseteq># slots s + E"
      using opt_mset_somes [of "nat fd" "fds T"] tab_slots_subset [OF T(1)] by (meson mset_subset_eq_add_left subset_mset.order_trans)
    then obtain s' where s': "file_get (fds T ! nat fd) s = Some s'" "file_inv s' (E + opt_mset (fds T ! nat fd))" "same_tabs s s'"
      "released s' = released s" "\<forall>f. frefs s' f \<le> frefs s f + (if fds T ! nat fd = Some f then 1 else 0)"
      using file_get_ok [OF fi] b by blast
    then have "\<forall>f. frefs s' f \<le> frefs s f + 1" by (smt (verit))
    then show ?thesis using s' Some T(1) False by (simp add: fd_get_def fd_get_checked_def lk Let_def)
  qed
qed

lemma put_same:
  assumes "file_inv s E" and "tab_inv s U" and "opt_mset v \<subseteq># E"
  shows "\<exists>s'. file_put v s = Some s' \<and> file_inv s' (E - opt_mset v) \<and> tab_inv s' U \<and> same_tabs s s' \<and> released s' = released s @ freed v s E \<and>
    (\<forall>f. frefs s' f \<le> frefs s f)"
  using file_put_ok [OF assms(1,3)] tab_inv_cong assms(2) by blast

lemma fd_close_ok:
  assumes ok: "fd_ok s"
  shows "\<exists>r s'. fd_close cur fd s = Some (r, s') \<and> fd_ok s' \<and>
    (case lookup cur fd s of
       None \<Rightarrow> r = Inl EBADF \<and> s' = s
     | Some f \<Rightarrow> r = Inr () \<and> (\<exists>t fs c. task_files cur s = Some t \<and> tab_view t s = Some (fs, c) \<and>
         view_upd s t (fs[nat fd := None]) (set_cloexec False (nat fd) c) s') \<and>
         released s' = released s @ (if \<not> static_file s f \<and> count (slots s) f = 1 then [f] else []))"
proof (cases "lookup cur fd s")
  case None
  have "fd_close cur fd s = Some (Inl EBADF, s)"
  proof (cases "task_files cur s")
    case (Some t)
    have ti: "tab_inv s {#}" using ok by (simp add: fd_ok_def)
    obtain T where T: "the_tab t s = Some T" by (rule task_tab [OF ti Some])
    show ?thesis using None lookup_tab [OF Some T, of fd] Some T by (simp add: fd_close_def Let_def split: if_splits)
  qed (simp add: fd_close_def)
  then show ?thesis using None ok by simp
next
  case (Some f)
  have fi: "file_inv s {#}" and ti: "tab_inv s {#}" using ok by (auto simp: fd_ok_def)
  obtain t where t: "task_files cur s = Some t" using Some lookup_none by (cases "task_files cur s") auto
  obtain T where T: "the_tab t s = Some T" "length (fds T) = NR_OPEN" using task_tab [OF ti t] by blast
  have g: "\<not> bad_fd fd" "fds T ! nat fd = Some f" using Some lookup_tab [OF t T(1), of fd] by (auto split: if_splits)
  then have i: "nat fd < NR_OPEN" using good_fd by simp
  define s1 where "s1 = set_tab t (T\<lparr>fds := (fds T)[nat fd := None], close_on_exec := set_cloexec False (nat fd) (close_on_exec T)\<rparr>) s"
  note ss = set_slot_ok [OF fi ti T(1) i _ _ s1_def]
  have f1: "file_inv s1 {#f#}" using ss(1) g(2) by simp
  obtain s' where s': "file_put (Some f) s1 = Some s'" "file_inv s' {#}" "tab_inv s' {#}" "same_tabs s1 s'" "released s' = released s1 @ freed (Some f) s1 {#f#}"
    using put_same [OF f1, of "{#}" "Some f"] ss(2) by auto
  have "slots s1 + opt_mset (fds T ! nat fd) = slots s + opt_mset None" unfolding s1_def using i T by (intro slots_set_slot) simp_all
  then have e: "slots s = add_mset f (slots s1)" using g(2) by simp
  have "static_file s1 = static_file s" by (simp add: s1_def)
  then have "freed (Some f) s1 {#f#} = (if \<not> static_file s f \<and> count (slots s) f = 1 then [f] else [])"
    unfolding e by (simp add: freed_def)
  moreover have "fd_close cur fd s = Some (Inr (), s')" using t T(1) g s'(1) by (simp add: fd_close_def Let_def s1_def)
  moreover have "view_upd s t ((fds T)[nat fd := None]) (set_cloexec False (nat fd) (close_on_exec T)) s'"
    using view_upd_same [OF ss(3) s'(4)] by simp
  moreover have "tab_view t s = Some (fds T, close_on_exec T)" by (simp add: tab_view_def T)
  moreover have "released s1 = released s" by (simp add: s1_def)
  ultimately show ?thesis using Some s'(2,3,5) t by (simp add: fd_ok_def)
qed


text \<open>\<^verbatim>\<open>fd_dup\<close> and \<^verbatim>\<open>fd_dup_from\<close> after the lookup: a second reference goes into the first free slot.\<close>

lemma dup_install_ok:
  assumes fi: "file_inv s E" and ti: "tab_inv s U" and T: "the_tab t s = Some T" and f: "f \<in># E" and b: "frefs s f < REFCOUNT_MAX"
  shows "\<exists>r s'. dup_install t lo c (Some f) s = Some (r, s') \<and> file_inv s' E \<and> tab_inv s' U \<and> tfiles s' = tfiles s \<and>
    (case first_free lo T of None \<Rightarrow> r = Inl EMFILE \<and> (\<forall>u. tab_view u s' = tab_view u s)
     | Some fd \<Rightarrow> r = Inr fd \<and> view_upd s t ((fds T)[fd := Some f]) (set_cloexec c fd (close_on_exec T)) s')"
proof (cases "first_free lo T")
  case None
  then have "dup_install t lo c (Some f) s = Some (Inl EMFILE, s)" using T by (simp add: dup_install_def)
  then show ?thesis using None fi ti by simp
next
  case (Some fd)
  then have fd: "fd < NR_OPEN" "fds T ! fd = None" by (auto simp: first_free_Some)
  have "opt_mset (Some f) \<subseteq># slots s + E" using f by simp
  then obtain s1 where s1: "file_get (Some f) s = Some s1" "file_inv s1 (E + {#f#})" "same_tabs s s1"
    using file_get_ok [OF fi, of "Some f"] b by auto
  note st = same_tabsD [OF s1(3)]
  have T1: "the_tab t s1 = Some T" using T st(1) by simp
  define s2 where "s2 = set_tab t (T\<lparr>fds := (fds T)[fd := Some f], close_on_exec := set_cloexec c fd (close_on_exec T)\<rparr>) s1"
  note ss = set_slot_ok [OF s1(2) tab_inv_cong [OF s1(3) ti] T1 fd(1) _ _ s2_def]
  have "file_inv s2 E" "tab_inv s2 U" using ss(1,2) fd(2) by simp_all
  moreover have "view_upd s t ((fds T)[fd := Some f]) (set_cloexec c fd (close_on_exec T)) s2"
    using ss(3) st(7) same_view [OF s1(3)] by (simp add: view_upd_def)
  moreover have "dup_install t lo c (Some f) s = Some (Inr fd, s2)" using T Some s1(1) by (simp add: dup_install_def s2_def)
  ultimately show ?thesis using Some by (simp add: view_upd_def)
qed

lemma fd_room_lt: "fd_room s \<Longrightarrow> frefs s f + 40 \<le> REFCOUNT_MAX"
  by (simp add: fd_room_def)

text \<open>A call that puts back the reference it took.\<close>

lemma put_back:
  assumes "file_inv s {#f#}" and "tab_inv s U"
  shows "\<exists>s'. file_put (Some f) s = Some s' \<and> file_inv s' {#} \<and> tab_inv s' U \<and> (\<forall>u. tab_view u s' = tab_view u s) \<and> tfiles s' = tfiles s"
  using put_same [OF assms, of "Some f"] same_view same_tabsD(7) by fastforce

lemma fd_dup_from_ok:
  assumes ok: "fd_ok s" and b: "fd_room s"
  shows "\<exists>r s'. fd_dup_from cur oldfd lo c s = Some (r, s') \<and> fd_ok s' \<and> tfiles s' = tfiles s \<and>
    (case lookup cur oldfd s of
       None \<Rightarrow> r = Inl EBADF \<and> (\<forall>u. tab_view u s' = tab_view u s)
     | Some f \<Rightarrow> if lo \<ge> NR_OPEN then r = Inl EINVAL \<and> (\<forall>u. tab_view u s' = tab_view u s)
         else \<exists>t T. task_files cur s = Some t \<and> the_tab t s = Some T \<and>
           (case first_free lo T of None \<Rightarrow> r = Inl EMFILE \<and> (\<forall>u. tab_view u s' = tab_view u s)
            | Some fd \<Rightarrow> r = Inr fd \<and> view_upd s t ((fds T)[fd := Some f]) (set_cloexec c fd (close_on_exec T)) s'))"
proof -
  have fi: "file_inv s {#}" and ti: "tab_inv s {#}" using ok by (auto simp: fd_ok_def)
  have lt: "frefs s f < REFCOUNT_MAX" for f using fd_room_lt [OF b, of f] by simp
  obtain s1 where s1: "fd_get cur oldfd s = Some (lookup cur oldfd s, s1)" "file_inv s1 (opt_mset (lookup cur oldfd s))" "same_tabs s s1"
    "\<forall>f. frefs s1 f \<le> frefs s f + 1"
    using fd_get_ok [OF fi ti lt, of cur oldfd] by auto
  note st = same_tabsD [OF s1(3)]
  have ti1: "tab_inv s1 {#}" by (rule tab_inv_cong [OF s1(3) ti])
  show ?thesis
  proof (cases "lookup cur oldfd s")
    case None
    then show ?thesis using s1 ti1 st(7) same_view [OF s1(3)] by (simp add: fd_dup_from_def fd_ok_def)
  next
    case (Some f)
    obtain t where t: "task_files cur s = Some t" using Some lookup_none by (cases "task_files cur s") auto
    obtain T where T: "the_tab t s = Some T" by (rule task_tab [OF ti t])
    have f1: "file_inv s1 {#f#}" using s1(2) Some by simp
    show ?thesis
    proof (cases "lo \<ge> NR_OPEN")
      case True
      obtain s2 where "file_put (Some f) s1 = Some s2" "file_inv s2 {#}" "tab_inv s2 {#}" "\<forall>u. tab_view u s2 = tab_view u s1" "tfiles s2 = tfiles s1"
        using put_back [OF f1 ti1] by blast
      then show ?thesis using s1(1) Some t True st(7) same_view [OF s1(3)] by (simp add: fd_dup_from_def fd_ok_def)
    next
      case False
      have T1: "the_tab t s1 = Some T" using T st(1) by simp
      have "frefs s1 f \<le> frefs s f + 1" using s1(4) by blast
      then have "frefs s1 f < REFCOUNT_MAX" using fd_room_lt [OF b, of f] by simp
      then obtain r s2 where s2: "dup_install t lo c (Some f) s1 = Some (r, s2)" "file_inv s2 {#f#}" "tab_inv s2 {#}" "tfiles s2 = tfiles s1"
        "case first_free lo T of None \<Rightarrow> r = Inl EMFILE \<and> (\<forall>u. tab_view u s2 = tab_view u s1)
         | Some fd \<Rightarrow> r = Inr fd \<and> view_upd s1 t ((fds T)[fd := Some f]) (set_cloexec c fd (close_on_exec T)) s2"
        using dup_install_ok [OF f1 ti1 T1, of f lo c] by auto
      obtain s3 where s3: "file_put (Some f) s2 = Some s3" "file_inv s3 {#}" "tab_inv s3 {#}" "\<forall>u. tab_view u s3 = tab_view u s2" "tfiles s3 = tfiles s2"
        using put_back [OF s2(2,3)] by blast
      have "fd_dup_from cur oldfd lo c s = Some (r, s3)" using s1(1) Some t False s2(1) s3(1) by (simp add: fd_dup_from_def)
      then show ?thesis
        using s2(4,5) s3 Some False t T st(7) same_view [OF s1(3)] by (simp add: fd_ok_def view_upd_def split: option.splits)
    qed
  qed
qed

lemma fd_dup_from_0: "fd_dup cur oldfd s = fd_dup_from cur oldfd 0 False s"
  by (cases "fd_get cur oldfd s") (auto simp: fd_dup_def fd_dup_from_def NR_OPEN_def split: option.splits)

lemma fd_dup2_ok:
  assumes ok: "fd_ok s" and b: "fd_room s"
  shows "\<exists>r s'. fd_dup2 cur oldfd newfd c s = Some (r, s') \<and> fd_ok s' \<and> tfiles s' = tfiles s \<and>
    (case lookup cur oldfd s of
       None \<Rightarrow> r = Inl EBADF \<and> (\<forall>u. tab_view u s' = tab_view u s)
     | Some f \<Rightarrow> if bad_fd newfd then r = Inl EBADF \<and> (\<forall>u. tab_view u s' = tab_view u s)
         else r = Inr (nat newfd) \<and>
           (if oldfd = newfd then \<forall>u. tab_view u s' = tab_view u s
            else \<exists>t T. task_files cur s = Some t \<and> the_tab t s = Some T \<and>
              view_upd s t ((fds T)[nat newfd := Some f]) (set_cloexec c (nat newfd) (close_on_exec T)) s'))"
proof -
  have fi: "file_inv s {#}" and ti: "tab_inv s {#}" using ok by (auto simp: fd_ok_def)
  have lt: "frefs s f < REFCOUNT_MAX" for f using fd_room_lt [OF b, of f] by simp
  obtain s1 where s1: "fd_get cur oldfd s = Some (lookup cur oldfd s, s1)" "file_inv s1 (opt_mset (lookup cur oldfd s))" "same_tabs s s1"
    "\<forall>f. frefs s1 f \<le> frefs s f + 1"
    using fd_get_ok [OF fi ti lt, of cur oldfd] by auto
  note st = same_tabsD [OF s1(3)]
  have ti1: "tab_inv s1 {#}" by (rule tab_inv_cong [OF s1(3) ti])
  show ?thesis
  proof (cases "lookup cur oldfd s")
    case None
    then show ?thesis using s1 ti1 st(7) same_view [OF s1(3)] by (simp add: fd_dup2_def fd_ok_def)
  next
    case (Some f)
    obtain t where t: "task_files cur s = Some t" using Some lookup_none by (cases "task_files cur s") auto
    obtain T where T: "the_tab t s = Some T" by (rule task_tab [OF ti t])
    have f1: "file_inv s1 {#f#}" using s1(2) Some by simp
    show ?thesis
    proof (cases "bad_fd newfd \<or> oldfd = newfd")
      case True
      obtain s2 where "file_put (Some f) s1 = Some s2" "file_inv s2 {#}" "tab_inv s2 {#}" "\<forall>u. tab_view u s2 = tab_view u s1" "tfiles s2 = tfiles s1"
        using put_back [OF f1 ti1] by blast
      then show ?thesis using s1(1) Some t True st(7) same_view [OF s1(3)] by (auto simp: fd_dup2_def fd_ok_def)
    next
      case False
      let ?n = "nat newfd"
      have n: "?n < NR_OPEN" using False good_fd by blast
      have "opt_mset (Some f) \<subseteq># slots s1 + {#f#}" by simp
      moreover have "frefs s1 f \<le> frefs s f + 1" using s1(4) by blast
      then have "frefs s1 f < REFCOUNT_MAX" using fd_room_lt [OF b, of f] by simp
      ultimately obtain s2 where s2: "file_get (Some f) s1 = Some s2" "file_inv s2 {#f, f#}" "same_tabs s1 s2"
        using file_get_ok [OF f1, of "Some f"] by auto
      note st2 = same_tabsD [OF s2(3)]
      have T2: "the_tab t s2 = Some T" "the_tab t s1 = Some T" using T st(1) st2(1) by simp_all
      define s3 where "s3 = set_tab t (T\<lparr>fds := (fds T)[?n := Some f], close_on_exec := set_cloexec c ?n (close_on_exec T)\<rparr>) s2"
      note ss = set_slot_ok [OF s2(2) tab_inv_cong [OF s2(3) ti1] T2(1) n _ _ s3_def]
      have f3: "file_inv s3 ({#f#} + opt_mset (fds T ! ?n))" "tab_inv s3 {#}" using ss(1,2) by simp_all
      obtain s4 where s4: "file_put (fds T ! ?n) s3 = Some s4" "file_inv s4 {#f#}" "tab_inv s4 {#}" "same_tabs s3 s4"
        using put_same [OF f3, of "fds T ! ?n"] by auto
      obtain s5 where s5: "file_put (Some f) s4 = Some s5" "file_inv s5 {#}" "tab_inv s5 {#}" "\<forall>u. tab_view u s5 = tab_view u s4" "tfiles s5 = tfiles s4"
        using put_back [OF s4(2,3)] by blast
      have "view_upd s2 t ((fds T)[?n := Some f]) (set_cloexec c ?n (close_on_exec T)) s4" using view_upd_same [OF ss(3) s4(4)] by simp
      then have "view_upd s t ((fds T)[?n := Some f]) (set_cloexec c ?n (close_on_exec T)) s5"
        using s5(4,5) st(7) st2(7) same_view [OF s1(3)] same_view [OF s2(3)] by (simp add: view_upd_def)
      moreover have "fd_dup2 cur oldfd newfd c s = Some (Inr ?n, s5)"
        using s1(1) Some t False T2 s2(1) s4(1) s5(1) by (simp add: fd_dup2_def Let_def s3_def)
      ultimately show ?thesis using Some False t T s5(2,3) by (simp add: fd_ok_def view_upd_def)
    qed
  qed
qed


lemma fd_alloc_flags_ok:
  assumes fi: "file_inv s {#f#}" and ti: "tab_inv s {#}"
  shows "\<exists>r s'. fd_alloc_flags cur (Some f) flags s = Some (r, s') \<and> tab_inv s' {#} \<and> tfiles s' = tfiles s \<and>
    (case task_files cur s of
       None \<Rightarrow> r = Inl EBADF \<and> s' = s
     | Some t \<Rightarrow> \<exists>T. the_tab t s = Some T \<and>
         (case first_free 0 T of None \<Rightarrow> r = Inl EMFILE \<and> s' = s
          | Some fd \<Rightarrow> r = Inr fd \<and> file_inv s' {#} \<and>
              view_upd s t ((fds T)[fd := Some f]) (set_cloexec (flags AND O_CLOEXEC \<noteq> 0) fd (close_on_exec T)) s'))"
proof (cases "task_files cur s")
  case None
  then show ?thesis using ti by (simp add: fd_alloc_flags_def)
next
  case (Some t)
  obtain T where T: "the_tab t s = Some T" by (rule task_tab [OF ti Some])
  show ?thesis
  proof (cases "first_free 0 T")
    case None
    then show ?thesis using Some T ti by (simp add: fd_alloc_flags_def)
  next
    case fd: (Some fd)
    then have g: "fd < NR_OPEN" "fds T ! fd = None" by (auto simp: first_free_Some)
    define s1 where "s1 = set_tab t (T\<lparr>fds := (fds T)[fd := Some f],
      close_on_exec := set_cloexec (flags AND O_CLOEXEC \<noteq> 0) fd (close_on_exec T)\<rparr>) s"
    note ss = set_slot_ok [OF fi ti T g(1) _ _ s1_def]
    have "fd_alloc_flags cur (Some f) flags s = Some (Inr fd, s1)" using Some T fd by (simp add: fd_alloc_flags_def s1_def)
    then show ?thesis using ss(1-3) g(2) Some T fd by (simp add: view_upd_def)
  qed
qed

lemma file_alloc_ok:
  assumes fi: "file_inv s {#}" and f: "f \<notin># slots s"
  shows "\<exists>s'. file_alloc (Some f) s = Some (Some f, s') \<and> file_inv s' {#f#} \<and> tabs s' = tabs s \<and> tfiles s' = tfiles s \<and> released s' = released s"
proof -
  let ?s = "s\<lparr>frefs := (frefs s)(f := 1), static_file := (static_file s)(f := False)\<rparr>"
  have "count (slots s) f = 0" using f by (simp add: count_eq_zero_iff)
  then have "file_inv ?s {#f#}" using file_invD [OF fi] by (auto simp: file_inv_def slots_def)
  then show ?thesis by (simp add: file_alloc_def refcount_set_def)
qed

lemma tabs_cong:
  assumes "tabs s' = tabs s" and "tfiles s' = tfiles s"
  shows "the_tab t s' = the_tab t s" "tab_view t s' = tab_view t s" "task_files u s' = task_files u s" "slots s' = slots s" "tab_inv s' U = tab_inv s U"
proof -
  show e: "the_tab t s' = the_tab t s" for t using assms by (simp add: the_tab_def)
  show "tab_view t s' = tab_view t s" "task_files u s' = task_files u s" "slots s' = slots s" using assms by (simp_all add: tab_view_def e task_files_def slots_def)
  have tr: "troots s' = troots s" using assms by (simp add: troots_def)
  show "tab_inv s' U = tab_inv s U" unfolding tab_inv_def e tr by simp
qed

lemma open_file_ok:
  assumes ok: "fd_ok s" and fresh: "\<And>f. m = Some f \<Longrightarrow> f \<notin># slots s"
  shows "\<exists>r s'. open_file cur m flags s = Some (r, s') \<and> fd_ok s' \<and> tfiles s' = tfiles s \<and>
    (case r of Inl e \<Rightarrow> \<forall>u. tab_view u s' = tab_view u s
     | Inr fd \<Rightarrow> \<exists>f t T. m = Some f \<and> task_files cur s = Some t \<and> the_tab t s = Some T \<and> first_free 0 T = Some fd \<and>
         view_upd s t ((fds T)[fd := Some f]) (set_cloexec (flags AND O_CLOEXEC \<noteq> 0) fd (close_on_exec T)) s')"
proof (cases m)
  case None
  then show ?thesis using ok by (simp add: open_file_def file_alloc_def)
next
  case (Some f)
  have fi: "file_inv s {#}" and ti: "tab_inv s {#}" using ok by (auto simp: fd_ok_def)
  obtain s1 where s1: "file_alloc m s = Some (Some f, s1)" "file_inv s1 {#f#}" "tabs s1 = tabs s" "tfiles s1 = tfiles s"
    using file_alloc_ok [OF fi fresh [OF Some]] Some by auto
  note tc = tabs_cong [OF s1(3,4)]
  have ti1: "tab_inv s1 {#}" using ti tc(5) by simp
  obtain r s2 where s2: "fd_alloc_flags cur (Some f) flags s1 = Some (r, s2)" "tab_inv s2 {#}" "tfiles s2 = tfiles s1"
    "case task_files cur s1 of
       None \<Rightarrow> r = Inl EBADF \<and> s2 = s1
     | Some t \<Rightarrow> \<exists>T. the_tab t s1 = Some T \<and>
         (case first_free 0 T of None \<Rightarrow> r = Inl EMFILE \<and> s2 = s1
          | Some fd \<Rightarrow> r = Inr fd \<and> file_inv s2 {#} \<and>
              view_upd s1 t ((fds T)[fd := Some f]) (set_cloexec (flags AND O_CLOEXEC \<noteq> 0) fd (close_on_exec T)) s2)"
    using fd_alloc_flags_ok [OF s1(2) ti1, of cur flags] by blast
  show ?thesis
  proof (cases r)
    case (Inl e)
    then have e: "s2 = s1" using s2(4) by (auto split: option.splits)
    obtain s3 where "file_put (Some f) s1 = Some s3" "file_inv s3 {#}" "tab_inv s3 {#}" "\<forall>u. tab_view u s3 = tab_view u s1" "tfiles s3 = tfiles s1"
      using put_back [OF s1(2) ti1] by blast
    then show ?thesis using s1(1,4) s2(1) Inl e tc(2) by (simp add: open_file_def fd_ok_def)
  next
    case (Inr fd)
    then obtain t T where t: "task_files cur s1 = Some t" "the_tab t s1 = Some T" "first_free 0 T = Some fd" "file_inv s2 {#}"
      "view_upd s1 t ((fds T)[fd := Some f]) (set_cloexec (flags AND O_CLOEXEC \<noteq> 0) fd (close_on_exec T)) s2"
      using s2(4) by (auto split: option.splits)
    then show ?thesis using s1(1,4) s2(1-3) Inr tc Some by (simp add: open_file_def fd_ok_def view_upd_def)
  qed
qed

lemma fd_set_close_on_exec_ok:
  assumes ok: "fd_ok s"
  shows "\<exists>r s'. fd_set_close_on_exec cur fd b s = Some (r, s') \<and> fd_ok s' \<and> tfiles s' = tfiles s"
proof (cases "task_files cur s")
  case None
  then show ?thesis using ok by (simp add: fd_set_close_on_exec_def)
next
  case (Some t)
  have fi: "file_inv s {#}" and ti: "tab_inv s {#}" using ok by (auto simp: fd_ok_def)
  obtain T where T: "the_tab t s = Some T" "tab_ok T" "length (fds T) = NR_OPEN" by (rule task_tab [OF ti Some])
  show ?thesis
  proof (cases "bad_fd fd \<or> fds T ! nat fd = None")
    case True
    then show ?thesis using Some T ok by (auto simp: fd_set_close_on_exec_def)
  next
    case False
    then have i: "nat fd < NR_OPEN" using good_fd by blast
    define T' where "T' = T\<lparr>close_on_exec := set_cloexec b (nat fd) (close_on_exec T)\<rparr>"
    have "tab_ok T'" using T(2) i False by (auto simp: tab_ok_def T'_def bit_set_cloexec split: if_splits)
    then have "tab_inv (set_tab t T' s) {#}" using tab_set_ok [OF ti T(1)] by (simp add: T'_def)
    moreover have "file_inv (set_tab t T' s) {#}" using swap_ok [OF fi T(1), of T' "{#}" "{#}"] by (simp add: T'_def)
    moreover have "fd_set_close_on_exec cur fd b s = Some (Inr (), set_tab t T' s)"
      using Some T(1) False by (auto simp: fd_set_close_on_exec_def T'_def)
    ultimately show ?thesis by (simp add: fd_ok_def)
  qed
qed


subsection \<open>Exec, fork and exit\<close>

lemma detach_loop_spec:
  assumes "length fs = NR_OPEN" and "length cl = NR_OPEN" and "k \<le> NR_OPEN"
    and "\<forall>i < NR_OPEN. k \<le> i \<longrightarrow> cl ! i = None" and "m = drop_bit k (c :: u64)" and "detach_loop [k..<NR_OPEN] m cl fs = (cl', fs')"
  shows "length cl' = NR_OPEN \<and> length fs' = NR_OPEN \<and>
    (\<forall>i < NR_OPEN. cl' ! i = (if k \<le> i \<and> bit c i then fs ! i else cl ! i) \<and> fs' ! i = (if k \<le> i \<and> bit c i then None else fs ! i))"
  using assms
proof (induction "NR_OPEN - k" arbitrary: k cl fs m)
  case 0
  then show ?case by auto
next
  case (Suc n)
  then have k: "k < NR_OPEN" by simp
  then have l: "[k..<NR_OPEN] = k # [Suc k..<NR_OPEN]" by (simp add: upt_conv_Cons)
  have m1: "m AND 1 = 0 \<longleftrightarrow> \<not> bit c k" by (simp add: Suc.prems(5) and_one_eq bit_iff_odd_drop_bit flip: even_iff_mod_2_eq_zero)
  show ?case
  proof (cases "m = 0")
    case True
    have "\<not> bit c i" if "k \<le> i" for i
    proof -
      have "\<not> bit (drop_bit k c) (i - k)" using True Suc.prems(5) by simp
      then show ?thesis using that by (simp add: bit_drop_bit_eq)
    qed
    then show ?thesis using Suc.prems(1,2,6) True by (auto simp: l)
  next
    case False
    have d: "drop_bit 1 m = drop_bit (Suc k) c" by (simp add: Suc.prems(5))
    have n: "n = NR_OPEN - Suc k" "Suc k \<le> NR_OPEN" using Suc.hyps(2) k by simp_all
    define cl1 where "cl1 = (if bit c k then cl[k := fs ! k] else cl)"
    define fs1 where "fs1 = (if bit c k then fs[k := None] else fs)"
    have e: "detach_loop [Suc k..<NR_OPEN] (drop_bit 1 m) cl1 fs1 = (cl', fs')"
      using Suc.prems(6) False m1 by (simp add: l cl1_def fs1_def split: if_splits)
    have len: "length fs1 = NR_OPEN" "length cl1 = NR_OPEN" using Suc.prems(1,2) by (simp_all add: cl1_def fs1_def)
    have "\<forall>i < NR_OPEN. Suc k \<le> i \<longrightarrow> cl1 ! i = None" using Suc.prems(4) by (simp add: cl1_def)
    from Suc.hyps(1) [OF n(1) len n(2) this d e] have sp: "length cl' = NR_OPEN" "length fs' = NR_OPEN"
      "\<And>i. i < NR_OPEN \<Longrightarrow> cl' ! i = (if Suc k \<le> i \<and> bit c i then fs1 ! i else cl1 ! i)"
      "\<And>i. i < NR_OPEN \<Longrightarrow> fs' ! i = (if Suc k \<le> i \<and> bit c i then None else fs1 ! i)" by blast+
    have "cl' ! i = (if k \<le> i \<and> bit c i then fs ! i else cl ! i) \<and> fs' ! i = (if k \<le> i \<and> bit c i then None else fs ! i)"
      if "i < NR_OPEN" for i
    proof (cases "i = k")
      case True
      then show ?thesis using sp(3,4) [OF that] Suc.prems(1,2) k by (simp add: cl1_def fs1_def)
    next
      case False
      then have c: "Suc k \<le> i \<longleftrightarrow> k \<le> i" by linarith
      show ?thesis using sp(3,4) [OF that] False unfolding c by (simp add: cl1_def fs1_def)
    qed
    then show ?thesis using sp(1,2) by blast
  qed
qed

definition kept_fds :: "nat option list \<Rightarrow> u64 \<Rightarrow> nat option list" where
  "kept_fds fs c = map (\<lambda>i. if bit c i then None else fs ! i) [0..<NR_OPEN]"

definition closed_fds :: "nat option list \<Rightarrow> u64 \<Rightarrow> nat option list" where
  "closed_fds fs c = map (\<lambda>i. if bit c i then fs ! i else None) [0..<NR_OPEN]"

lemma detach_loop_all:
  assumes "length fs = NR_OPEN"
  shows "detach_loop [0..<NR_OPEN] c (replicate NR_OPEN None) fs = (closed_fds fs c, kept_fds fs c)"
proof -
  obtain cl' fs' where e: "detach_loop [0..<NR_OPEN] c (replicate NR_OPEN None) fs = (cl', fs')" by fastforce
  have sp: "length cl' = NR_OPEN \<and> length fs' = NR_OPEN \<and>
      (\<forall>i < NR_OPEN. cl' ! i = (if 0 \<le> i \<and> bit c i then fs ! i else replicate NR_OPEN None ! i) \<and> fs' ! i = (if 0 \<le> i \<and> bit c i then None else fs ! i))"
    by (rule detach_loop_spec [OF assms _ _ _ _ e]) simp_all
  have "cl' = closed_fds fs c" "fs' = kept_fds fs c"
    by (rule nth_equalityI; use sp in \<open>simp add: closed_fds_def kept_fds_def\<close>)+
  then show ?thesis using e by simp
qed

lemma kept_closed:
  assumes "length fs = NR_OPEN"
  shows "somes (kept_fds fs c) + somes (closed_fds fs c) = somes fs"
proof -
  have g: "somes (map (\<lambda>i. if P i then None else fs ! i) is) + somes (map (\<lambda>i. if P i then fs ! i else None) is) = somes (map ((!) fs) is)" for P "is"
    by (induction "is") (simp_all add: somes_def ac_simps)
  have "map ((!) fs) [0..<NR_OPEN] = fs" using assms map_nth [of fs] by simp
  then show ?thesis using g [of "bit c" "[0..<NR_OPEN]"] by (simp add: kept_fds_def closed_fds_def)
qed

lemma files_close_on_exec_ok:
  assumes fi: "file_inv s {#}" and ti: "tab_inv s U" and T: "the_tab t s = Some T"
  shows "\<exists>s'. files_close_on_exec (Some t) s = Some s' \<and> file_inv s' {#} \<and> tab_inv s' U \<and> view_upd s t (kept_fds (fds T) (close_on_exec T)) 0 s'"
proof -
  have len: "length (fds T) = NR_OPEN" using tab_invD(2) [OF ti T] by (simp add: tab_ok_def)
  define T' where "T' = T\<lparr>close_on_exec := 0, fds := kept_fds (fds T) (close_on_exec T)\<rparr>"
  define s1 where "s1 = set_tab t T' s"
  have t1: "the_tab u s1 = (if u = t then Some T' else the_tab u s)" for u unfolding s1_def by (rule the_tab_set_tab [OF T])
  have f1: "file_inv s1 (somes (closed_fds (fds T) (close_on_exec T)))"
    using swap_ok [OF fi T, of T' "somes (closed_fds (fds T) (close_on_exec T))" "{#}"] kept_closed [OF len] by (simp add: s1_def T'_def)
  have i1: "tab_inv s1 U" unfolding s1_def by (rule tab_set_ok [OF ti T]) (simp_all add: T'_def tab_ok_def kept_fds_def)
  obtain s' where s': "put_files (closed_fds (fds T) (close_on_exec T)) s1 = Some s'" "file_inv s' {#}" "same_tabs s1 s'"
    using put_files_ok [OF f1 subset_mset.order_refl] by (auto simp: files_step_def)
  have "view_upd s t (kept_fds (fds T) (close_on_exec T)) 0 s1" by (simp add: view_upd_def tab_view_def t1) (simp add: T'_def s1_def)
  then have "view_upd s t (kept_fds (fds T) (close_on_exec T)) 0 s'" using view_upd_same s'(3) by blast
  moreover have "files_close_on_exec (Some t) s = Some s'"
    using T s'(1) by (simp add: files_close_on_exec_def detach_loop_all [OF len] s1_def T'_def)
  ultimately show ?thesis using s'(2) tab_inv_cong [OF s'(3) i1] by blast
qed


text \<open>Putting a table does not look at the tasks, so it may be exchanged with a change of a task's table.\<close>

lemma file_put_tfiles: "file_put v (s\<lparr>tfiles := x\<rparr>) = map_option (\<lambda>s'. s'\<lparr>tfiles := x\<rparr>) (file_put v s)"
  by (cases v) (auto simp: file_put_def Let_def split: bind_splits)

lemma put_loop_tfiles: "put_loop t is (s\<lparr>tfiles := x\<rparr>) = map_option (\<lambda>s'. s'\<lparr>tfiles := x\<rparr>) (put_loop t is s)"
proof (induction "is" arbitrary: s)
  case (Cons i js)
  have e: "the_tab t (s\<lparr>tfiles := x\<rparr>) = the_tab t s" "set_tab t T (s\<lparr>tfiles := x\<rparr>) = (set_tab t T s)\<lparr>tfiles := x\<rparr>" for T
    by (simp_all add: the_tab_def set_tab_def)
  show ?case
  proof (cases "the_tab t s")
    case (Some T)
    then show ?thesis
      by (cases "file_put (fds T ! i) (set_tab t (T\<lparr>fds := (fds T)[i := None]\<rparr>) s)") (simp_all add: e file_put_tfiles Cons.IH)
  qed (simp add: e)
qed simp

lemma files_put_tfiles: "files_put (Some t) (s\<lparr>tfiles := x\<rparr>) = map_option (\<lambda>s'. s'\<lparr>tfiles := x\<rparr>) (files_put (Some t) s)"
proof -
  have e: "the_tab t (s\<lparr>tfiles := x\<rparr>) = the_tab t s" "set_tab t T (s\<lparr>tfiles := x\<rparr>) = (set_tab t T s)\<lparr>tfiles := x\<rparr>" for T
    by (simp_all add: the_tab_def set_tab_def)
  show ?thesis
  proof (cases "the_tab t s")
    case (Some T)
    show ?thesis
    proof (cases "refcount_dec_and_test (fs_refs T)")
      case d: (Some r)
      obtain b n where r: "r = (b, n)" by fastforce
      show ?thesis
        using Some d r by (cases "put_loop t [0..<NR_OPEN] (set_tab t (T\<lparr>fs_refs := n\<rparr>) s)") (simp_all add: files_put_def e put_loop_tfiles Let_def)
    qed (use Some in \<open>simp add: files_put_def e\<close>)
  qed (simp add: files_put_def e)
qed

lemma files_put_keeps_tasks: "files_put (Some t) s = Some s' \<Longrightarrow> tfiles s' = tfiles s"
  using files_put_tfiles [where t = t and s = s and x = "tfiles s"] by (metis fdsys.select_convs(5) fdsys.surjective fdsys.update_convs(5) option.map(2) option.sel)

lemma task_files_lt: "task_files k s = Some t \<Longrightarrow> k < length (tfiles s) \<and> tfiles s ! k = Some t"
  by (simp add: task_files_def split: if_splits)

definition other_views :: "fdsys \<Rightarrow> nat \<Rightarrow> fdsys \<Rightarrow> bool" where
  "other_views s k s' \<longleftrightarrow> length (tfiles s') = length (tfiles s) \<and> (\<forall>j. j \<noteq> k \<longrightarrow> task_view j s' = task_view j s)"

lemma root_in: "task_files j s = Some t \<Longrightarrow> t \<in># troots s"
  using task_files_lt [of j s t] nth_mem by (fastforce simp: troots_def in_somes)

lemma close_files_ok:
  assumes ok: "fd_ok s"
  shows "\<exists>s'. close_files k s = Some s' \<and> fd_ok s' \<and> task_view k s' = None \<and> other_views s k s'"
proof (cases "task_files k s")
  case None
  then show ?thesis using ok by (simp add: close_files_def task_view_def other_views_def)
next
  case (Some t)
  note lt = task_files_lt [OF Some]
  have fi: "file_inv s {#}" and ti: "tab_inv s {#}" using ok by (auto simp: fd_ok_def)
  let ?s0 = "task_set_files k None s"
  have i0: "tab_inv ?s0 {#t#}" using task_set_files_ok [OF ti, of k None] lt by simp
  obtain s' where s': "files_put (Some t) ?s0 = Some s'" "file_inv s' {#}" "tab_inv s' {#}" "tfiles s' = tfiles ?s0"
    "\<forall>u. u \<in># troots ?s0 \<longrightarrow> tab_view u s' = tab_view u ?s0"
    using files_put_ok [OF _ i0, of "{#}" t] fi by auto
  obtain s1 where s1: "files_put (Some t) s = Some s1" "s' = s1\<lparr>tfiles := (tfiles s)[k := None]\<rparr>"
    using s'(1) files_put_tfiles [where t = t and s = s and x = "(tfiles s)[k := None]"] by (auto simp: task_set_files_def)
  have "close_files k s = Some s'" using Some s1 files_put_keeps_tasks [OF s1(1)] by (simp add: close_files_def task_set_files_def)
  moreover have tf: "task_files j s' = (if j = k then None else task_files j s)" for j using s'(4) by (simp add: task_files_def)
  moreover have "task_view j s' = task_view j s" if "j \<noteq> k" for j
  proof (cases "task_files j s")
    case (Some u)
    have "task_files j ?s0 = Some u" using Some that by (simp add: task_files_def split: if_splits)
    then have "tab_view u s' = tab_view u s" using s'(5) root_in by fastforce
    then show ?thesis using Some that by (simp add: task_view_def tf)
  qed (use that in \<open>simp add: task_view_def tf\<close>)
  ultimately show ?thesis using s'(2-4) by (simp add: fd_ok_def other_views_def task_view_def)
qed

lemma count_somes: "count (somes xs) t = card {i. i < length xs \<and> xs ! i = Some t}"
proof -
  have "count (opt_mset v) t = (if v = Some t then 1 else 0)" for v :: "'a option" by (cases v) auto
  then have "count (somes xs) t = length (filter (\<lambda>v. v = Some t) xs)" by (induction xs) (auto simp: somes_def)
  then show ?thesis by (simp add: length_filter_conv_card)
qed

lemma sole_task:
  assumes "count (troots s) t = 1" and "task_files k s = Some t" and "task_files j s = Some t"
  shows "j = k"
proof -
  let ?S = "{i. i < length (tfiles s) \<and> tfiles s ! i = Some t}"
  obtain a where "?S = {a}" using assms(1) by (auto simp: troots_def count_somes card_1_singleton_iff)
  moreover have "j \<in> ?S" "k \<in> ?S" using task_files_lt assms(2,3) by auto
  ultimately show ?thesis by simp
qed

lemma task_view_set:
  assumes "\<And>j u. j \<noteq> k \<Longrightarrow> task_files j s = Some u \<Longrightarrow> tab_view u s' = tab_view u s" and "tfiles s' = (tfiles s)[k := v]"
  shows "other_views s k s'"
proof -
  have "task_files j s' = task_files j s" if "j \<noteq> k" for j using that assms(2) by (simp add: task_files_def)
  then show ?thesis using assms by (auto simp: other_views_def task_view_def split: option.splits)
qed

lemma files_unshare_ok:
  assumes ok: "fd_ok s" and b: "fd_room s"
  shows "\<exists>r s'. files_unshare_for_exec m k s = Some (r, s') \<and> fd_ok s' \<and> task_view k s' = task_view k s \<and> other_views s k s' \<and>
    (r = Inr () \<longrightarrow> (\<forall>t j. task_files k s' = Some t \<longrightarrow> task_files j s' = Some t \<longrightarrow> j = k)) \<and> (r = Inr () \<or> r = Inl ENOMEM \<and> \<not> m)"
proof (cases "task_files k s")
  case None
  then show ?thesis using ok by (simp add: files_unshare_for_exec_def other_views_def)
next
  case (Some old)
  have fi: "file_inv s {#}" and ti: "tab_inv s {#}" using ok by (auto simp: fd_ok_def)
  obtain Old where O: "the_tab old s = Some Old" by (rule task_tab [OF ti Some])
  have refs: "fs_refs Old = int (count (troots s) old)" using tab_invD(4) [OF ti O] by simp
  show ?thesis
  proof (cases "fs_refs Old = 1 \<or> \<not> m")
    case True
    then have "files_unshare_for_exec m k s = Some (if fs_refs Old = 1 then Inr () else Inl ENOMEM, s)"
      using Some O by (auto simp: files_unshare_for_exec_def files_dup_def files_alloc_def)
    moreover have "j = k" if "fs_refs Old = 1" "task_files j s = Some old" for j using sole_task [OF _ Some that(2)] refs that(1) by simp
    ultimately show ?thesis using True ok Some by (auto simp: other_views_def)
  next
    case False
    have "frefs s f + 32 \<le> REFCOUNT_MAX" for f using fd_room_lt [OF b, of f] by simp
    then obtain t s1 where s1: "files_dup True (Some old) s = Some (Some t, s1)" "file_inv s1 {#}" "tab_inv s1 {#t#}" "the_tab t s = None"
      "tab_view t s1 = tab_view old s" "\<forall>u. u \<noteq> t \<longrightarrow> the_tab u s1 = the_tab u s" "tfiles s1 = tfiles s"
      using files_dup_ok [OF fi ti, of "Some old"] O by auto
    let ?s2 = "task_set_files k (Some t) s1"
    note lt = task_files_lt [OF Some]
    have i2: "tab_inv ?s2 {#old#}" using task_set_files_ok [OF s1(3), of k "Some t"] lt s1(7) by simp
    obtain s3 where s3: "files_put (Some old) ?s2 = Some s3" "file_inv s3 {#}" "tab_inv s3 {#}" "tfiles s3 = (tfiles s)[k := Some t]"
      "\<forall>u. u \<in># troots ?s2 \<longrightarrow> tab_view u s3 = tab_view u s1"
      using files_put_ok [OF _ i2, of "{#}" old] s1(2,7) by auto
    have tf: "task_files j s3 = (if j = k then Some t else task_files j s)" "task_files j ?s2 = task_files j s3" for j
      using lt s3(4) s1(7) by (auto simp: task_files_def)
    have nt: "task_files j s \<noteq> Some t" for j
    proof
      assume "task_files j s = Some t"
      then obtain T where "the_tab t s = Some T" by (rule task_tab [OF ti])
      then show False using s1(4) by simp
    qed
    have "task_view k s3 = task_view k s"
      using s3(5) root_in [of k ?s2 t] tf Some s1(5) by (simp add: task_view_def)
    moreover have "other_views s k s3"
    proof (rule task_view_set [OF _ s3(4)])
      fix j u assume j: "j \<noteq> k" "task_files j s = Some u"
      then have "u \<in># troots ?s2" using root_in [of j ?s2 u] tf by simp
      moreover have "u \<noteq> t" using nt j(2) by auto
      ultimately show "tab_view u s3 = tab_view u s" using s3(5) s1(6) by (simp add: tab_view_def)
    qed
    moreover have "files_unshare_for_exec m k s = Some (Inr (), s3)" using Some O False s1(1) s3(1) by (simp add: files_unshare_for_exec_def)
    ultimately show ?thesis using s3(2,3) tf(1) nt by (simp add: fd_ok_def)
  qed
qed


lemma give_table:
  assumes fi: "file_inv s {#}" and ti: "tab_inv s {#t#}" and k: "k < length (tfiles s)" "tfiles s ! k = None"
  shows "fd_ok (task_set_files k (Some t) s)" "task_view k (task_set_files k (Some t) s) = tab_view t s"
    "other_views s k (task_set_files k (Some t) s)"
proof -
  have "tab_inv (task_set_files k (Some t) s) {#}" using task_set_files_ok [OF ti k(1), of "Some t"] k(2) by simp
  then show "fd_ok (task_set_files k (Some t) s)" using fi by (simp add: fd_ok_def)
  show "task_view k (task_set_files k (Some t) s) = tab_view t s" using k by (simp add: task_view_def task_files_def)
  show "other_views s k (task_set_files k (Some t) s)" by (rule task_view_set) simp_all
qed

lemma close_nothing: "k < length (tfiles s) \<Longrightarrow> tfiles s ! k = None \<Longrightarrow> close_files k s = Some s"
  by (simp add: close_files_def task_files_def)

lemma copy_files_ok:
  assumes ok: "fd_ok s" and b: "fd_room s" and child: "child < length (tfiles s)" "tfiles s ! child = None" and sh: "share \<Longrightarrow> task_files cur s \<noteq> None"
  shows "\<exists>r s'. copy_files m m0 m1 m2 cur child share s = Some (r, s') \<and> fd_ok s' \<and> other_views s child s' \<and>
    (r = Inr () \<and> task_view child s' = (case task_files cur s of None \<Rightarrow> Some (replicate NR_OPEN None, 0) | Some t \<Rightarrow> tab_view t s) \<or>
     r = Inl ENOMEM \<and> \<not> m \<and> s' = s)"
proof (cases share)
  case True
  have fi: "file_inv s {#}" and ti: "tab_inv s {#}" using ok by (auto simp: fd_ok_def)
  obtain t where t: "task_files cur s = Some t" using sh True by blast
  obtain T where T: "the_tab t s = Some T" by (rule task_tab [OF ti t])
  then have "fs_refs T < REFCOUNT_MAX" using b by (auto simp: fd_room_def)
  then obtain s1 where s1: "files_get (Some t) s = Some s1" "file_inv s1 {#}" "tab_inv s1 {#t#}" "\<forall>u. tab_view u s1 = tab_view u s" "tfiles s1 = tfiles s"
    using files_get_ok [OF fi ti T] by auto
  have c1: "child < length (tfiles s1)" "tfiles s1 ! child = None" using child s1(5) by simp_all
  have "copy_files m m0 m1 m2 cur child share s = Some (Inr (), task_set_files child (Some t) s1)"
    using True t s1(1) close_nothing [OF c1] by (simp add: copy_files_def)
  moreover have "other_views s child (task_set_files child (Some t) s1)"
    using give_table(3) [OF s1(2,3) c1] s1(4,5) by (simp add: other_views_def task_view_def task_files_def split: option.splits)
  ultimately show ?thesis using give_table(1,2) [OF s1(2,3) c1] s1(4) t by simp
next
  case False
  have fi: "file_inv s {#}" and ti: "tab_inv s {#}" using ok by (auto simp: fd_ok_def)
  show ?thesis
  proof (cases m)
    case nm: False
    then show ?thesis using False ok by (simp add: copy_files_def files_dup_def files_alloc_def other_views_def)
  next
    case m: True
    have "frefs s f + 32 \<le> REFCOUNT_MAX" for f using fd_room_lt [OF b, of f] by simp
    moreover have "\<exists>Old. the_tab o' s = Some Old" if o: "task_files cur s = Some o'" for o'
    proof -
      obtain T where "the_tab o' s = Some T" by (rule task_tab [OF ti o])
      then show ?thesis ..
    qed
    ultimately obtain t s1 where s1: "files_dup True (task_files cur s) s = Some (Some t, s1)" "file_inv s1 {#}" "tab_inv s1 {#t#}" "the_tab t s = None"
      "tab_view t s1 = (case task_files cur s of None \<Rightarrow> Some (replicate NR_OPEN None, 0) | Some o' \<Rightarrow> tab_view o' s)"
      "\<forall>u. u \<noteq> t \<longrightarrow> the_tab u s1 = the_tab u s" "tfiles s1 = tfiles s"
      using files_dup_ok [OF fi ti, of "task_files cur s"] by auto
    have c1: "child < length (tfiles s1)" "tfiles s1 ! child = None" using child s1(7) by simp_all
    have "copy_files m m0 m1 m2 cur child share s = Some (Inr (), task_set_files child (Some t) s1)"
      using False m s1(1) close_nothing [OF c1] by (simp add: copy_files_def)
    moreover have "other_views s child (task_set_files child (Some t) s1)"
    proof (rule task_view_set)
      fix j u assume "task_files j s = Some u"
      then obtain V where "the_tab u s = Some V" by (rule task_tab [OF ti])
      then have "u \<noteq> t" using s1(4) by auto
      then show "tab_view u (task_set_files child (Some t) s1) = tab_view u s" using s1(6) by (simp add: tab_view_def)
    qed (simp add: s1(7))
    ultimately show ?thesis using give_table(1,2) [OF s1(2,3) c1] s1(5) by simp
  qed
qed

lemma init_files_ok:
  assumes ok: "fd_ok s" and k: "k < length (tfiles s)" "tfiles s ! k = None"
    and fresh: "distinct [f0, f1, f2]" "f0 \<notin># slots s" "f1 \<notin># slots s" "f2 \<notin># slots s"
  shows "\<exists>r s'. init_files m (Some f0) (Some f1) (Some f2) k s = Some (r, s') \<and> fd_ok s' \<and>
    (if m then r = Inr () \<and> task_view k s' = Some ([Some f0, Some f1, Some f2] @ replicate 29 None, 0) else r = Inl ENOMEM)"
proof (cases m)
  case False
  then have "init_files m (Some f0) (Some f1) (Some f2) k s = Some (Inl ENOMEM, task_set_files k None s)" by (simp add: init_files_def files_alloc_def)
  moreover have "task_set_files k None s = s" using k by (simp add: task_set_files_def) (metis list_update_id fdsys.surjective fdsys.update_convs(5))
  ultimately show ?thesis using ok False by simp
next
  case True
  have fi: "file_inv s {#}" and ti: "tab_inv s {#}" using ok by (auto simp: fd_ok_def)
  obtain t s1 where a: "files_alloc True s = (Some t, s1)" by (simp add: files_alloc_def)
  note al = files_alloc_ok [OF fi ti a]
  have c1: "k < length (tfiles s1)" "tfiles s1 ! k = None" using k al(6) by simp_all
  have i1: "tab_inv s1 {#t#}" using al(2) by simp
  define s2 where "s2 = task_set_files k (Some t) s1"
  have f2: "file_inv s2 {#}" "tab_inv s2 {#}" using give_table(1) [OF al(1) i1 c1] by (simp_all add: fd_ok_def s2_def)
  define s3 where "s3 = s2\<lparr>frefs := (frefs s2)(f0 := 1, f1 := 1, f2 := 1), static_file := (static_file s2)(f0 := False, f1 := False, f2 := False)\<rparr>"
  have tb: "tabs s3 = tabs s2" "tfiles s3 = tfiles s2" by (simp_all add: s3_def)
  note tc = tabs_cong [OF tb]
  have sl: "slots s2 = slots s" using a by (auto simp: s2_def task_set_files_def files_alloc_def slots_def tab_slots_def)
  have z: "count (slots s) f0 = 0" "count (slots s) f1 = 0" "count (slots s) f2 = 0" using fresh(2-4) by (simp_all add: count_eq_zero_iff)
  have f3: "file_inv s3 {#f0, f1, f2#}"
    unfolding file_inv_def tc(4)
  proof (intro allI impI)
    fix f assume "\<not> static_file s3 f"
    then show "frefs s3 f = int (count (slots s2 + {#f0, f1, f2#}) f)"
      using file_invD [OF f2(1), of f] z fresh(1) by (auto simp: s3_def sl)
  qed
  let ?T = "\<lparr>fs_refs = 1, close_on_exec = 0, fds = replicate NR_OPEN None\<rparr>"
  define T' where "T' = ?T\<lparr>fds := (fds ?T)[0 := Some f0, 1 := Some f1, 2 := Some f2]\<rparr>"
  have T3: "the_tab t s3 = Some ?T" using al(5) [of t] tc(1) [of t] by (simp add: s2_def)
  have T'f: "fds T' = [Some f0, Some f1, Some f2] @ replicate 29 None" by (simp add: T'_def NR_OPEN_def eval_nat_numeral)
  have "somes (fds T') = {#f0, f1, f2#}" unfolding T'f somes_append somes_replicate by (simp add: somes_def)
  then have "file_inv (set_tab t T' s3) {#}" using swap_ok [OF f3 T3, of T' "{#}" "{#f0, f1, f2#}"] by simp
  moreover have "tab_inv (set_tab t T' s3) {#}"
    using tab_set_ok [OF _ T3, of "{#}" T'] f2(2) tc(5) by (simp add: T'_def tab_ok_def)
  moreover have "files_install_standard_fds (Some f0) (Some f1) (Some f2) (Some t) s2 = Some (set_tab t T' s3)"
    using T3 by (simp add: files_install_standard_fds_def file_alloc_def refcount_set_def T'_def flip: s3_def)
  then have "init_files m (Some f0) (Some f1) (Some f2) k s = Some (Inr (), set_tab t T' s3)"
    using True a by (simp add: init_files_def flip: s2_def)
  moreover have "task_view k (set_tab t T' s3) = Some ([Some f0, Some f1, Some f2] @ replicate 29 None, 0)"
    using c1 T'f the_tab_set_tab [OF T3, of t T'] by (simp add: task_view_def task_files_def tab_view_def tb s2_def) (simp add: T'_def)
  ultimately show ?thesis using True by (simp add: fd_ok_def)
qed


lemma exec_files_ok:
  assumes ok: "fd_ok s" and b: "fd_room s"
  shows "\<exists>r s'. exec_files m k s = Some (r, s') \<and> fd_ok s' \<and> other_views s k s' \<and>
    (case r of Inl e \<Rightarrow> e = ENOMEM \<and> \<not> m \<and> task_view k s' = task_view k s
     | Inr _ \<Rightarrow> task_view k s' = map_option (\<lambda>(fs, c). (kept_fds fs c, 0)) (task_view k s))"
proof -
  obtain r s1 where s1: "files_unshare_for_exec m k s = Some (r, s1)" "fd_ok s1" "task_view k s1 = task_view k s" "other_views s k s1"
    "r = Inr () \<longrightarrow> (\<forall>t j. task_files k s1 = Some t \<longrightarrow> task_files j s1 = Some t \<longrightarrow> j = k)" "r = Inr () \<or> r = Inl ENOMEM \<and> \<not> m"
    using files_unshare_ok [OF ok b] by blast
  have fi: "file_inv s1 {#}" and ti: "tab_inv s1 {#}" using s1(2) by (auto simp: fd_ok_def)
  show ?thesis
  proof (cases r)
    case (Inl e)
    then show ?thesis using s1 by (simp add: exec_files_def)
  next
    case (Inr u)
    show ?thesis
    proof (cases "task_files k s1")
      case None
      then have "exec_files m k s = Some (Inr (), s1)" "task_view k s1 = None" using s1(1) Inr by (simp_all add: exec_files_def files_close_on_exec_def task_view_def)
      then show ?thesis using s1(2-4) by simp
    next
      case (Some t)
      obtain T where T: "the_tab t s1 = Some T" by (rule task_tab [OF ti Some])
      obtain s2 where s2: "files_close_on_exec (Some t) s1 = Some s2" "file_inv s2 {#}" "tab_inv s2 {#}"
        "view_upd s1 t (kept_fds (fds T) (close_on_exec T)) 0 s2"
        using files_close_on_exec_ok [OF fi ti T] by blast
      have tf: "task_files j s2 = task_files j s1" "length (tfiles s2) = length (tfiles s1)" for j using s2(4) by (simp_all add: view_upd_def task_files_def)
      have "exec_files m k s = Some (Inr (), s2)" using s1(1) Inr Some s2(1) by (simp add: exec_files_def)
      moreover have "task_view k s1 = Some (fds T, close_on_exec T)" using Some T by (simp add: task_view_def tab_view_def)
      then have "task_view k s = Some (fds T, close_on_exec T)" using s1(3) by simp
      moreover have "task_view k s2 = Some (kept_fds (fds T) (close_on_exec T), 0)"
        using s2(4) Some by (simp add: task_view_def tf view_upd_def)
      moreover have "task_view j s2 = task_view j s1" if "j \<noteq> k" for j
      proof (cases "task_files j s1")
        case (Some v)
        have "v \<noteq> t"
        proof
          assume "v = t"
          then have "j = k" using s1(5) [rule_format, of t j] Inr \<open>task_files k s1 = Some t\<close> Some by simp
          then show False using that by simp
        qed
        then show ?thesis using s2(4) Some by (simp add: task_view_def tf view_upd_def)
      qed (simp add: task_view_def tf)
      then have "other_views s k s2" using s1(4) unfolding other_views_def tf(2) by metis
      ultimately show ?thesis using s2(2,3) by (simp add: fd_ok_def)
    qed
  qed
qed

section \<open>Reachable states\<close>

datatype fd_op =
    OpInit nat bool nat nat nat
  | OpOpen nat "nat option" u32
  | OpClose nat int
  | OpDup nat int
  | OpDupFrom nat int nat bool
  | OpDup2 nat int int bool
  | OpCloexec nat int bool
  | OpFork nat nat bool bool
  | OpExec nat bool
  | OpExit nat

fun fd_exec :: "fd_op \<Rightarrow> fdsys \<Rightarrow> fdsys option" where
  "fd_exec (OpInit k m f0 f1 f2) s = map_option snd (init_files m (Some f0) (Some f1) (Some f2) k s)"
| "fd_exec (OpOpen cur m flags) s = map_option snd (open_file cur m flags s)"
| "fd_exec (OpClose cur fd) s = map_option snd (fd_close cur fd s)"
| "fd_exec (OpDup cur fd) s = map_option snd (fd_dup cur fd s)"
| "fd_exec (OpDupFrom cur fd lo c) s = map_option snd (fd_dup_from cur fd lo c s)"
| "fd_exec (OpDup2 cur fd fd' c) s = map_option snd (fd_dup2 cur fd fd' c s)"
| "fd_exec (OpCloexec cur fd b) s = map_option snd (fd_set_close_on_exec cur fd b s)"
| "fd_exec (OpFork cur child share m) s = map_option snd (copy_files m None None None cur child share s)"
| "fd_exec (OpExec cur m) s = map_option snd (exec_files m cur s)"
| "fd_exec (OpExit k) s = close_files k s"

text \<open>
  What the callers and the memory allocator provide: new file objects are not in use, a new task has no table yet, a task that
  shares its table has one, and no count is near the limit of 32 bits.
\<close>

definition unused :: "nat \<Rightarrow> fdsys \<Rightarrow> bool" where
  "unused f s \<longleftrightarrow> (\<forall>o' \<in> set (tabs s). case o' of None \<Rightarrow> True | Some T \<Rightarrow> Some f \<notin> set (fds T))"

fun fd_pre :: "fd_op \<Rightarrow> fdsys \<Rightarrow> bool" where
  "fd_pre (OpInit k m f0 f1 f2) s \<longleftrightarrow> k < length (tfiles s) \<and> tfiles s ! k = None \<and> distinct [f0, f1, f2] \<and>
     unused f0 s \<and> unused f1 s \<and> unused f2 s"
| "fd_pre (OpOpen cur m flags) s \<longleftrightarrow> (case m of None \<Rightarrow> True | Some f \<Rightarrow> unused f s)"
| "fd_pre (OpFork cur child share m) s \<longleftrightarrow> child < length (tfiles s) \<and> tfiles s ! child = None \<and> (share \<longrightarrow> task_files cur s \<noteq> None)"
| "fd_pre _ s \<longleftrightarrow> True"

definition boot_fds :: "nat \<Rightarrow> fdsys" where
  "boot_fds n = \<lparr>frefs = (\<lambda>_. 0), static_file = (\<lambda>_. False), released = [], tabs = [], tfiles = replicate n None\<rparr>"

inductive fd_reach :: "fdsys \<Rightarrow> bool" where
  boot: "fd_reach (boot_fds n)"
| step: "fd_reach s \<Longrightarrow> fd_room s \<Longrightarrow> fd_pre op s \<Longrightarrow> fd_exec op s = Some s' \<Longrightarrow> fd_reach s'"

lemma unused_slots: "unused f s \<Longrightarrow> f \<notin># slots s"
proof -
  have "f \<in># sum_list (map tab_slots xs) \<longleftrightarrow> (\<exists>o' \<in> set xs. f \<in># tab_slots o')" for xs by (induction xs) auto
  then have "f \<in># slots s \<longleftrightarrow> (\<exists>o' \<in> set (tabs s). f \<in># tab_slots o')" by (simp add: slots_def)
  then show "unused f s \<Longrightarrow> f \<notin># slots s" by (auto simp: unused_def tab_slots_def in_somes split: option.splits)
qed

lemma fd_step_ok:
  assumes ok: "fd_ok s" and b: "fd_room s" and pre: "fd_pre op s"
  shows "\<exists>s'. fd_exec op s = Some s' \<and> fd_ok s'"
proof (cases op)
  case (OpInit k m f0 f1 f2)
  then show ?thesis using init_files_ok [OF ok, of k f0 f1 f2 m] pre unused_slots by fastforce
next
  case (OpOpen cur m flags)
  have "f \<notin># slots s" if "m = Some f" for f using that pre OpOpen unused_slots by simp
  from open_file_ok [OF ok this, of m cur flags] show ?thesis using OpOpen by fastforce
next
  case (OpClose cur fd)
  then show ?thesis using fd_close_ok [OF ok, of cur fd] by fastforce
next
  case (OpDup cur fd)
  then show ?thesis using fd_dup_from_ok [OF ok b, of cur fd 0 False] fd_dup_from_0 by fastforce
next
  case (OpDupFrom cur fd lo c)
  then show ?thesis using fd_dup_from_ok [OF ok b, of cur fd lo c] by fastforce
next
  case (OpDup2 cur fd fd' c)
  then show ?thesis using fd_dup2_ok [OF ok b, of cur fd fd' c] by fastforce
next
  case (OpCloexec cur fd c)
  then show ?thesis using fd_set_close_on_exec_ok [OF ok, of cur fd c] by fastforce
next
  case (OpFork cur child share m)
  then show ?thesis using copy_files_ok [OF ok b, of child share cur m None None None] pre by fastforce
next
  case (OpExec cur m)
  then show ?thesis using exec_files_ok [OF ok b, of m cur] by fastforce
next
  case (OpExit k)
  then show ?thesis using close_files_ok [OF ok, of k] by fastforce
qed

lemma boot_fds_ok: "fd_ok (boot_fds n)"
proof -
  have "troots (boot_fds n) = {#}" by (simp add: troots_def boot_fds_def)
  then show ?thesis by (simp add: fd_ok_def file_inv_def tab_inv_def the_tab_def slots_def) (simp add: boot_fds_def)
qed

lemma fd_reach_ok: "fd_reach s \<Longrightarrow> fd_ok s"
proof (induction rule: fd_reach.induct)
  case (step s op s')
  then show ?case using fd_step_ok [of s op] by auto
qed (rule boot_fds_ok)


text \<open>The descriptors that refer to a file, over all tables, and the tasks that use a table.\<close>

definition descriptors :: "fdsys \<Rightarrow> nat \<Rightarrow> (nat \<times> nat) set" where
  "descriptors s f = {(t, i). \<exists>T. the_tab t s = Some T \<and> i < length (fds T) \<and> fds T ! i = Some f}"

definition users :: "fdsys \<Rightarrow> nat \<Rightarrow> nat set" where
  "users s t = {k. task_files k s = Some t}"

lemma count_slots: "count (slots s) f = card (descriptors s f)"
proof -
  let ?D = "\<lambda>t. {i. \<exists>T. tabs s ! t = Some T \<and> i < length (fds T) \<and> fds T ! i = Some f}"
  have c: "count (tab_slots (tabs s ! t)) f = card (?D t)" for t
    by (cases "tabs s ! t") (simp_all add: tab_slots_def count_somes)
  have fin: "finite (?D t)" for t by (cases "tabs s ! t") auto
  have "count (sum_list (map tab_slots xs)) f = (\<Sum>t<length xs. count (tab_slots (xs ! t)) f)" for xs
    by (induction xs rule: rev_induct) (simp_all add: nth_append)
  then have "count (slots s) f = (\<Sum>t<length (tabs s). card (?D t))" unfolding slots_def by (simp add: c)
  also have "\<dots> = card (SIGMA t:{..<length (tabs s)}. ?D t)" using fin by simp
  also have "(SIGMA t:{..<length (tabs s)}. ?D t) = descriptors s f" by (auto simp: descriptors_def the_tab_def split: if_splits)
  finally show ?thesis .
qed

lemma count_troots: "count (troots s) t = card (users s t)"
proof -
  have "{i. i < length (tfiles s) \<and> tfiles s ! i = Some t} = users s t" by (auto simp: users_def task_files_def split: if_splits)
  then show ?thesis by (simp add: troots_def count_somes)
qed

lemma fd_ok_counts:
  assumes "fd_ok s"
  shows "\<not> static_file s f \<Longrightarrow> frefs s f = int (card (descriptors s f))"
    "the_tab t s = Some T \<Longrightarrow> fs_refs T = int (card (users s t)) \<and> users s t \<noteq> {} \<and> tab_ok T"
    "task_files k s = Some t \<Longrightarrow> the_tab t s \<noteq> None"
proof -
  have fi: "file_inv s {#}" and ti: "tab_inv s {#}" using assms by (auto simp: fd_ok_def)
  show "\<not> static_file s f \<Longrightarrow> frefs s f = int (card (descriptors s f))" using file_invD [OF fi] by (simp add: count_slots)
  show "fs_refs T = int (card (users s t)) \<and> users s t \<noteq> {} \<and> tab_ok T" if T: "the_tab t s = Some T"
  proof -
    have "t \<in># troots s" using tab_invD(3) [OF ti T] by simp
    then have "card (users s t) > 0" unfolding count_troots [symmetric] by (simp only: count_greater_zero_iff)
    then show ?thesis using tab_invD(2,4) [OF ti T] by (auto simp: count_troots)
  qed
  show "the_tab t s \<noteq> None" if k: "task_files k s = Some t"
  proof -
    obtain T where "the_tab t s = Some T" by (rule task_tab [OF ti k])
    then show ?thesis by simp
  qed
qed

lemma lookup_upd:
  assumes "task_files cur s = Some t" and "the_tab t s = Some T" and "view_upd s t fs c s'"
  shows "lookup cur fd s' = (if bad_fd fd then None else fs ! nat fd)"
proof -
  have "task_files cur s' = Some t" using assms(1,3) by (simp add: view_upd_def task_files_def split: if_splits)
  then show ?thesis using assms(3) by (simp add: lookup_def task_view_def view_upd_def)
qed

section \<open>Properties of the descriptor tables\<close>

text \<open>Three tasks, of which the first has the standard descriptors.\<close>

definition ex_fds :: fdsys where
  "ex_fds = \<lparr>frefs = (\<lambda>_. 0)(10 := 1, 11 := 1, 12 := 1), static_file = (\<lambda>_. False), released = [],
     tabs = [Some \<lparr>fs_refs = 1, close_on_exec = 0, fds = [Some 10, Some 11, Some 12] @ replicate 29 None\<rparr>], tfiles = [Some 0, None, None]\<rparr>"

lemma std_fds: "(replicate NR_OPEN None)[0 := Some a, Suc 0 := Some b, 2 := Some c] = [Some a, Some b, Some c] @ replicate 29 None"
  by (simp add: NR_OPEN_def eval_nat_numeral)

lemma ex_fds_step: "fd_exec (OpInit 0 True 10 11 12) (boot_fds 3) = Some ex_fds"
proof -
  have "replicate 3 None = [None, None, None :: nat option]" by (simp add: eval_nat_numeral)
  then show ?thesis
    by (simp add: init_files_def files_alloc_def files_install_standard_fds_def file_alloc_def refcount_set_def task_set_files_def
      the_tab_def set_tab_def boot_fds_def ex_fds_def std_fds fun_upd_def cong: if_cong)
qed

lemma ex_fds_reach: "fd_reach ex_fds" "fd_room ex_fds"
proof -
  have r: "fd_room (boot_fds 3)" by (simp add: fd_room_def boot_fds_def the_tab_def REFCOUNT_MAX_def)
  have p: "fd_pre (OpInit 0 True 10 11 12) (boot_fds 3)" by (simp add: boot_fds_def unused_def)
  show "fd_reach ex_fds" by (rule fd_reach.step [OF fd_reach.boot r p ex_fds_step])
  show "fd_room ex_fds" by (simp add: fd_room_def ex_fds_def the_tab_def REFCOUNT_MAX_def)
qed

lemma ex_fds_lookup: "lookup 0 0 ex_fds = Some 10" "lookup 0 3 ex_fds = None"
  by (simp_all add: lookup_def task_view_def task_files_def tab_view_def the_tab_def ex_fds_def bad_fd_def NR_OPEN_def eval_nat_numeral)

text \<open>
  C31: reference counting. From boot, under any sequence of opens, closes, duplications, forks with and without shared tables,
  execs and exits, the next operation stops at no \<^verbatim>\<open>BUG_ON\<close> and touches no freed table or file, and in every state reached the count of each
  file is the number of descriptors that refer to it over all tables, the count of each table is the number of tasks that use it, no
  table exists that no task uses, and only open descriptors are marked close-on-exec.
\<close>

theorem fd_refcounts:
  assumes "fd_reach s" and "fd_room s" and "fd_pre op s"
  shows "\<exists>s'. fd_exec op s = Some s' \<and> fd_reach s' \<and>
    (\<forall>f. \<not> static_file s' f \<longrightarrow> frefs s' f = int (card (descriptors s' f))) \<and>
    (\<forall>t T. the_tab t s' = Some T \<longrightarrow> fs_refs T = int (card (users s' t)) \<and> users s' t \<noteq> {} \<and> tab_ok T) \<and>
    (\<forall>k t. task_files k s' = Some t \<longrightarrow> the_tab t s' \<noteq> None)"
proof -
  obtain s' where s': "fd_exec op s = Some s'" "fd_ok s'" using fd_step_ok [OF fd_reach_ok [OF assms(1)] assms(2,3)] by blast
  have "fd_reach s'" by (rule fd_reach.step [OF assms s'(1)])
  then show ?thesis using s' fd_ok_counts [OF s'(2)] by blast
qed

theorem fd_refcounts_witness: "\<exists>s'. fd_exec (OpFork 0 1 True True) ex_fds = Some s' \<and> (\<forall>k t. task_files k s' = Some t \<longrightarrow> the_tab t s' \<noteq> None)"
proof -
  have "fd_pre (OpFork 0 1 True True) ex_fds" by (simp add: ex_fds_def task_files_def)
  from fd_refcounts [OF ex_fds_reach this] show ?thesis by (elim ex_forward) simp
qed



text \<open>
  C33: duplication. \<^verbatim>\<open>fd_dup_from\<close> (and \<^verbatim>\<open>fd_dup\<close>, which is its case from 0 without the mark) makes the lowest free descriptor at or above the minimum refer to
  the same file, and changes no other descriptor; it reports \<^verbatim>\<open>EBADF\<close> exactly for a descriptor that is not open, \<^verbatim>\<open>EINVAL\<close> exactly for a
  minimum out of range, and \<^verbatim>\<open>EMFILE\<close> exactly when all descriptors from the minimum on are in use.
\<close>

theorem fd_dup_spec:
  assumes "fd_reach s" and "fd_room s"
  shows "\<exists>r s'. fd_dup_from cur oldfd lo c s = Some (r, s') \<and>
    (case r of
       Inl e \<Rightarrow> (\<forall>k. task_view k s' = task_view k s) \<and>
         (e = EBADF \<and> lookup cur oldfd s = None \<or> lookup cur oldfd s \<noteq> None \<and> (e = EINVAL \<and> NR_OPEN \<le> lo \<or>
          e = EMFILE \<and> lo < NR_OPEN \<and> (\<forall>j. lo \<le> j \<longrightarrow> j < NR_OPEN \<longrightarrow> lookup cur (int j) s \<noteq> None)))
     | Inr fd \<Rightarrow> lo \<le> fd \<and> fd < NR_OPEN \<and> lookup cur (int fd) s = None \<and> (\<forall>j. lo \<le> j \<longrightarrow> j < fd \<longrightarrow> lookup cur (int j) s \<noteq> None) \<and>
         lookup cur oldfd s \<noteq> None \<and> lookup cur (int fd) s' = lookup cur oldfd s \<and> (\<forall>j. j \<noteq> int fd \<longrightarrow> lookup cur j s' = lookup cur j s))"
proof -
  have ok: "fd_ok s" by (rule fd_reach_ok [OF assms(1)])
  obtain r s' where d: "fd_dup_from cur oldfd lo c s = Some (r, s')" "tfiles s' = tfiles s"
    "case lookup cur oldfd s of
       None \<Rightarrow> r = Inl EBADF \<and> (\<forall>u. tab_view u s' = tab_view u s)
     | Some f \<Rightarrow> if lo \<ge> NR_OPEN then r = Inl EINVAL \<and> (\<forall>u. tab_view u s' = tab_view u s)
         else \<exists>t T. task_files cur s = Some t \<and> the_tab t s = Some T \<and>
           (case first_free lo T of None \<Rightarrow> r = Inl EMFILE \<and> (\<forall>u. tab_view u s' = tab_view u s)
            | Some fd \<Rightarrow> r = Inr fd \<and> view_upd s t ((fds T)[fd := Some f]) (set_cloexec c fd (close_on_exec T)) s')"
    using fd_dup_from_ok [OF ok assms(2), of cur oldfd lo c] by blast
  have same: "task_view k s' = task_view k s" if "\<forall>u. tab_view u s' = tab_view u s" for k
    using that d(2) by (simp add: task_view_def task_files_def split: option.splits)
  show ?thesis
  proof (cases "lookup cur oldfd s")
    case None
    then show ?thesis using d same by simp
  next
    case (Some f)
    show ?thesis
    proof (cases "NR_OPEN \<le> lo")
      case True
      then show ?thesis using d Some same by simp
    next
      case False
      then obtain t T where t: "task_files cur s = Some t" "the_tab t s = Some T"
        "case first_free lo T of None \<Rightarrow> r = Inl EMFILE \<and> (\<forall>u. tab_view u s' = tab_view u s)
         | Some fd \<Rightarrow> r = Inr fd \<and> view_upd s t ((fds T)[fd := Some f]) (set_cloexec c fd (close_on_exec T)) s'"
        using d(3) Some by auto
      have lk: "lookup cur (int j) s = fds T ! j" if "j < NR_OPEN" for j using lookup_tab [OF t(1,2), of "int j"] that by (simp add: bad_fd_def)
      show ?thesis
      proof (cases "first_free lo T")
        case None
        then have "lookup cur (int j) s \<noteq> None" if "lo \<le> j" "j < NR_OPEN" for j using that lk by (simp add: first_free_None)
        then show ?thesis using d(1) t(3) None Some False same by auto
      next
        case fd: (Some fd)
        then have g: "lo \<le> fd" "fd < NR_OPEN" "fds T ! fd = None" "\<And>j. lo \<le> j \<Longrightarrow> j < fd \<Longrightarrow> fds T ! j \<noteq> None" by (auto simp: first_free_Some)
        have r: "r = Inr fd" "view_upd s t ((fds T)[fd := Some f]) (set_cloexec c fd (close_on_exec T)) s'" using t(3) fd by auto
        note u = lookup_upd [OF t(1,2) r(2)]
        have "length (fds T) = NR_OPEN" using fd_ok_counts(2) [OF ok t(2)] by (simp add: tab_ok_def)
        then have "lookup cur (int fd) s' = Some f" "\<And>j. j \<noteq> int fd \<Longrightarrow> lookup cur j s' = lookup cur j s"
          using u g(2) lookup_tab [OF t(1,2)] by (auto simp: bad_fd_def)
        moreover have "lookup cur (int j) s \<noteq> None" if "lo \<le> j" "j < fd" for j using g(2,4) that lk by simp
        ultimately show ?thesis using d(1) r(1) Some g lk [OF g(2)] by simp
      qed
    qed
  qed
qed

theorem fd_dup_spec_witness: "\<exists>fd s'. fd_dup_from 0 0 3 True ex_fds = Some (Inr fd, s') \<and> fd = 3 \<and> lookup 0 3 s' = Some 10"
proof -
  obtain r s' where d: "fd_dup_from 0 0 3 True ex_fds = Some (r, s')" and
    c: "case r of
       Inl e \<Rightarrow> (\<forall>k. task_view k s' = task_view k ex_fds) \<and>
         (e = EBADF \<and> lookup 0 0 ex_fds = None \<or> lookup 0 0 ex_fds \<noteq> None \<and> (e = EINVAL \<and> NR_OPEN \<le> 3 \<or>
          e = EMFILE \<and> 3 < NR_OPEN \<and> (\<forall>j. 3 \<le> j \<longrightarrow> j < NR_OPEN \<longrightarrow> lookup 0 (int j) ex_fds \<noteq> None)))
     | Inr fd \<Rightarrow> 3 \<le> fd \<and> fd < NR_OPEN \<and> lookup 0 (int fd) ex_fds = None \<and> (\<forall>j. 3 \<le> j \<longrightarrow> j < fd \<longrightarrow> lookup 0 (int j) ex_fds \<noteq> None) \<and>
         lookup 0 0 ex_fds \<noteq> None \<and> lookup 0 (int fd) s' = lookup 0 0 ex_fds \<and> (\<forall>j. j \<noteq> int fd \<longrightarrow> lookup 0 j s' = lookup 0 j ex_fds)"
    using fd_dup_spec [OF ex_fds_reach, of 0 0 3 True] by blast
  have l3: "lookup 0 (int 3) ex_fds = None" using ex_fds_lookup(2) by simp
  show ?thesis
  proof (cases r)
    case (Inl e)
    then have "\<forall>j. 3 \<le> j \<longrightarrow> j < NR_OPEN \<longrightarrow> lookup 0 (int j) ex_fds \<noteq> None" using c ex_fds_lookup(1) by (simp add: NR_OPEN_def)
    from this [rule_format, of 3] show ?thesis using l3 by (simp add: NR_OPEN_def)
  next
    case (Inr fd)
    then have "\<not> 3 < fd" "3 \<le> fd" "lookup 0 (int fd) s' = Some 10" using c l3 ex_fds_lookup(1) by auto
    then show ?thesis using d Inr by auto
  qed
qed

text \<open>
  C34: closing. \<^verbatim>\<open>fd_close\<close> frees exactly the descriptor, clears its mark, and releases the file exactly when this was the last descriptor for it in any
  table; a descriptor that is not open is reported with \<^verbatim>\<open>EBADF\<close> and nothing changes.
\<close>

theorem fd_close_spec:
  assumes "fd_reach s"
  shows "\<exists>r s'. fd_close cur fd s = Some (r, s') \<and>
    (case lookup cur fd s of
       None \<Rightarrow> r = Inl EBADF \<and> s' = s
     | Some f \<Rightarrow> r = Inr () \<and> lookup cur fd s' = None \<and> (\<forall>j. j \<noteq> fd \<longrightarrow> lookup cur j s' = lookup cur j s) \<and>
         released s' = released s @ (if \<not> static_file s f \<and> card (descriptors s f) = 1 then [f] else []))"
proof -
  have ok: "fd_ok s" by (rule fd_reach_ok [OF assms])
  show ?thesis
  proof (cases "lookup cur fd s")
    case None
    then show ?thesis using fd_close_ok [OF ok, of cur fd] by auto
  next
    case (Some f)
    then obtain s' t fs c where d: "fd_close cur fd s = Some (Inr (), s')" "task_files cur s = Some t" "tab_view t s = Some (fs, c)"
      "view_upd s t (fs[nat fd := None]) (set_cloexec False (nat fd) c) s'"
      "released s' = released s @ (if \<not> static_file s f \<and> count (slots s) f = 1 then [f] else [])"
      using fd_close_ok [OF ok, of cur fd] by auto
    obtain T where T: "the_tab t s = Some T" "fs = fds T" using d(3) by (auto simp: tab_view_def)
    have g: "\<not> bad_fd fd" using Some lookup_tab [OF d(2) T(1), of fd] by (auto split: if_splits)
    have "length (fds T) = NR_OPEN" using fd_ok_counts(2) [OF ok T(1)] by (simp add: tab_ok_def)
    then have "lookup cur fd s' = None" "\<And>j. j \<noteq> fd \<Longrightarrow> lookup cur j s' = lookup cur j s"
      using lookup_upd [OF d(2) T(1) d(4)] T(2) g good_fd [OF g] lookup_tab [OF d(2) T(1)] by (auto simp: bad_fd_def nth_list_update)
    then show ?thesis using Some d(1,5) by (simp add: count_slots)
  qed
qed

theorem fd_close_spec_witness: "\<exists>s'. fd_close 0 0 ex_fds = Some (Inr (), s') \<and> lookup 0 0 s' = None"
  using fd_close_spec [OF ex_fds_reach(1), of 0 0] ex_fds_lookup(1) by auto

end
