(* ===== verification/Trap.thy ===== *)
theory Trap
  imports Prelude
begin

text \<open>
  The user register image of \<^verbatim>\<open>arch/riscv/include/asm/trap_frame.h\<close> with the accessors of \<^verbatim>\<open>arch/trap.h\<close>, the
  classification of exceptions of \<^verbatim>\<open>arch/riscv/trap.c\<close>, and the system-call dispatcher of
  \<^verbatim>\<open>syscall/syscall.c\<close> with its record of the interrupted call, from which \<^verbatim>\<open>SA_RESTART\<close> replays it.
\<close>

section \<open>Trap frames\<close>

record trap_frame =
  tf_sepc :: u64
  tf_ra :: u64
  tf_sp :: u64
  tf_gp :: u64
  tf_tp :: u64
  tf_t0 :: u64
  tf_t1 :: u64
  tf_t2 :: u64
  tf_s0 :: u64
  tf_s1 :: u64
  tf_a0 :: u64
  tf_a1 :: u64
  tf_a2 :: u64
  tf_a3 :: u64
  tf_a4 :: u64
  tf_a5 :: u64
  tf_a6 :: u64
  tf_a7 :: u64
  tf_s2 :: u64
  tf_s3 :: u64
  tf_s4 :: u64
  tf_s5 :: u64
  tf_s6 :: u64
  tf_s7 :: u64
  tf_s8 :: u64
  tf_s9 :: u64
  tf_s10 :: u64
  tf_s11 :: u64
  tf_t3 :: u64
  tf_t4 :: u64
  tf_t5 :: u64
  tf_t6 :: u64
  tf_scause :: u64
  tf_stval :: u64
  tf_sstatus :: u64

definition SSTATUS_SPP :: u64 where "SSTATUS_SPP = 0x100"

definition SSTATUS_FS_MASK :: u64 where "SSTATUS_FS_MASK = push_bit 13 3"

definition SCAUSE_IRQ_FLAG :: u64 where "SCAUSE_IRQ_FLAG = push_bit 63 1"

definition syscall_nr :: "trap_frame \<Rightarrow> u64" where "syscall_nr tf = tf_a7 tf"

definition syscall_args :: "trap_frame \<Rightarrow> u64 list" where
  "syscall_args tf = [tf_a0 tf, tf_a1 tf, tf_a2 tf, tf_a3 tf, tf_a4 tf, tf_a5 tf]"

text \<open>An argument number above 5 is \<^verbatim>\<open>unreachable()\<close> in the source; every caller passes a constant below 6.\<close>

definition syscall_arg :: "trap_frame \<Rightarrow> nat \<Rightarrow> u64" where
  "syscall_arg tf nr = syscall_args tf ! nr"

definition syscall_set_return :: "trap_frame \<Rightarrow> u64 \<Rightarrow> trap_frame" where
  "syscall_set_return tf ret = tf\<lparr>tf_a0 := ret\<rparr>"

definition trap_frame_from_user :: "trap_frame \<Rightarrow> bool" where
  "trap_frame_from_user tf \<longleftrightarrow> tf_sstatus tf AND SSTATUS_SPP = 0"

definition trap_disable_user_fpu :: "trap_frame \<Rightarrow> trap_frame" where
  "trap_disable_user_fpu tf = tf\<lparr>tf_sstatus := tf_sstatus tf AND NOT SSTATUS_FS_MASK\<rparr>"

definition trap_advance_pc :: "trap_frame \<Rightarrow> u64 \<Rightarrow> trap_frame" where
  "trap_advance_pc tf bytes = tf\<lparr>tf_sepc := tf_sepc tf + bytes\<rparr>"

definition trap_setup_signal_handler :: "trap_frame \<Rightarrow> u64 \<Rightarrow> u64 \<Rightarrow> u64 \<Rightarrow> u64 \<Rightarrow> u64 \<Rightarrow> u64 \<Rightarrow> trap_frame" where
  "trap_setup_signal_handler tf handler restorer sp arg0 arg1 arg2 =
     tf\<lparr>tf_sepc := handler, tf_ra := restorer, tf_sp := sp, tf_a0 := arg0, tf_a1 := arg1, tf_a2 := arg2\<rparr>"

section \<open>Classification of exceptions\<close>

text \<open>
  \<^verbatim>\<open>siginfo_t\<close> of \<^verbatim>\<open>uapi/siginfo.h\<close>: the union of the sender-specific fields is a datatype; a zeroed structure reads
  as the \<^verbatim>\<open>kill\<close> member with zero fields.
\<close>

datatype siginfo_fields =
    SiKill int u32
  | SiTimer int int u64 int
  | SiChld int u32 int int int
  | SiFault u64 int

record siginfo =
  si_signo :: int
  si_errno :: int
  si_code :: int
  si_fields :: siginfo_fields

definition siginfo0 :: siginfo where
  "siginfo0 = \<lparr>si_signo = 0, si_errno = 0, si_code = 0, si_fields = SiKill 0 0\<rparr>"

datatype trap_disposition =
    TRAP_EXCEPTION_SYSCALL | TRAP_EXCEPTION_PAGE_FAULT | TRAP_EXCEPTION_USER_SIGNAL siginfo | TRAP_EXCEPTION_KERNEL_FATAL

definition SI_KERNEL :: int where "SI_KERNEL = 0x80"

definition trap_fault_info :: "int \<Rightarrow> int \<Rightarrow> u64 \<Rightarrow> siginfo" where
  "trap_fault_info sig code addr = siginfo0\<lparr>si_signo := sig, si_code := code, si_fields := SiFault addr 0\<rparr>"

text \<open>
  The causes are those of \<^verbatim>\<open>asm/trap.h\<close> (8 the user \<^verbatim>\<open>ecall\<close>, 12, 13 and 15 the page faults), the signals 4
  \<^verbatim>\<open>SIGILL\<close>, 5 \<^verbatim>\<open>SIGTRAP\<close>, 7 \<^verbatim>\<open>SIGBUS\<close>, 11 \<^verbatim>\<open>SIGSEGV\<close>, and the codes those of \<^verbatim>\<open>uapi/siginfo.h\<close>.
\<close>

definition trap_classify_exception :: "trap_frame \<Rightarrow> trap_disposition" where
  "trap_classify_exception tf =
     (let cause = tf_scause tf AND NOT SCAUSE_IRQ_FLAG in
      if cause = 12 \<or> cause = 13 \<or> cause = 15 then TRAP_EXCEPTION_PAGE_FAULT
      else if \<not> trap_frame_from_user tf then TRAP_EXCEPTION_KERNEL_FATAL
      else if cause = 8 then TRAP_EXCEPTION_SYSCALL
      else if cause \<in> {0, 4, 6} then TRAP_EXCEPTION_USER_SIGNAL (trap_fault_info 7 1 (tf_stval tf))
      else if cause \<in> {1, 5, 7} then TRAP_EXCEPTION_USER_SIGNAL (trap_fault_info 11 2 (tf_stval tf))
      else if cause = 2 then TRAP_EXCEPTION_USER_SIGNAL (trap_fault_info 4 1 (tf_sepc tf))
      else if cause = 3 then TRAP_EXCEPTION_USER_SIGNAL (trap_fault_info 5 1 (tf_sepc tf))
      else if cause = 9 then TRAP_EXCEPTION_USER_SIGNAL (trap_fault_info 4 4 (tf_sepc tf))
      else TRAP_EXCEPTION_USER_SIGNAL (trap_fault_info 4 SI_KERNEL (tf_sepc tf)))"

section \<open>System calls and their restart\<close>

primrec errno_nr :: "errno \<Rightarrow> u64" where
  "errno_nr EPERM = 1"
| "errno_nr ENOENT = 2"
| "errno_nr EINTR = 4"
| "errno_nr EIO = 5"
| "errno_nr E2BIG = 7"
| "errno_nr EBADF = 9"
| "errno_nr EAGAIN = 11"
| "errno_nr ENOMEM = 12"
| "errno_nr EACCES = 13"
| "errno_nr EFAULT = 14"
| "errno_nr EEXIST = 17"
| "errno_nr EINVAL = 22"
| "errno_nr EMFILE = 24"
| "errno_nr ENOSPC = 28"
| "errno_nr EPIPE = 32"
| "errno_nr ENODATA = 61"
| "errno_nr EOPNOTSUPP = 95"
| "errno_nr ENAMETOOLONG = 36"
| "errno_nr ESRCH = 3"
| "errno_nr ECHILD = 10"
| "errno_nr ENOTDIR = 20"
| "errno_nr EISDIR = 21"
| "errno_nr ENOTTY = 25"
| "errno_nr ENOSYS = 38"
| "errno_nr EOVERFLOW = 75"
| "errno_nr ETIMEDOUT = 110"
| "errno_nr EBUSY = 16"
| "errno_nr ENODEV = 19"
| "errno_nr ERANGE = 34"
| "errno_nr ENXIO = 6"
| "errno_nr EFBIG = 27"

record restart_context =
  rst_pc :: u64
  rst_args :: "u64 list"
  rst_nr :: u64
  rst_valid :: bool
  rst_restartable :: bool

definition NR_SYSCALL :: u64 where "NR_SYSCALL = 453"

definition FUTEX_CMD_MASK :: u64 where "FUTEX_CMD_MASK = NOT (128 OR 256)"

definition is_restartable :: "trap_frame \<Rightarrow> u64 \<Rightarrow> bool" where
  "is_restartable tf nr =
     (if nr = 63 \<or> nr = 64 \<or> nr = 260 then True
      else if nr = 98 then syscall_arg tf 1 AND FUTEX_CMD_MASK = 0 \<and> syscall_arg tf 3 = 0
      else False)"

definition restart_save :: "trap_frame \<Rightarrow> u64 \<Rightarrow> restart_context" where
  "restart_save tf nr =
     \<lparr>rst_pc = tf_sepc tf - 4, rst_args = map (syscall_arg tf) [0..<6], rst_nr = nr, rst_valid = True,
      rst_restartable = is_restartable tf nr\<rparr>"

definition restart_clear :: "restart_context" where
  "restart_clear = \<lparr>rst_pc = 0, rst_args = replicate 6 0, rst_nr = 0, rst_valid = False, rst_restartable = False\<rparr>"

definition restart_finish :: "restart_context \<Rightarrow> u64 \<Rightarrow> restart_context" where
  "restart_finish ctx ret = (if ret \<noteq> - errno_nr EINTR \<or> \<not> rst_restartable ctx then restart_clear else ctx)"

definition restart_for_signal :: "restart_context \<Rightarrow> trap_frame \<Rightarrow> bool \<Rightarrow> bool \<times> restart_context \<times> trap_frame" where
  "restart_for_signal ctx tf sa_restart =
     (if \<not> rst_valid ctx then (False, ctx, tf)
      else if \<not> sa_restart \<or> \<not> rst_restartable ctx then (False, restart_clear, tf)
      else
        (True, restart_clear,
         tf\<lparr>tf_sepc := rst_pc ctx, tf_a0 := rst_args ctx ! 0, tf_a1 := rst_args ctx ! 1, tf_a2 := rst_args ctx ! 2,
            tf_a3 := rst_args ctx ! 3, tf_a4 := rst_args ctx ! 4, tf_a5 := rst_args ctx ! 5, tf_a7 := rst_nr ctx\<rparr>))"

text \<open>
  A system call receives the trap frame and may rewrite it, and it may change the restart record of the task (\<^verbatim>\<open>execve\<close>
  and \<^verbatim>\<open>exit\<close> clear it) and the rest of the kernel, of type \<open>'w\<close>. The table is an argument: \<open>None\<close> is an empty entry.
\<close>

type_synonym 'w kernel_view = "trap_frame \<times> restart_context \<times> 'w"

type_synonym 'w syscall_fn = "'w kernel_view \<Rightarrow> u64 \<times> 'w kernel_view"

definition do_syscall :: "(u64 \<Rightarrow> 'w syscall_fn option) \<Rightarrow> 'w kernel_view \<Rightarrow> 'w kernel_view" where
  "do_syscall syscall_table kv =
     (case kv of (tf, ctx, w) \<Rightarrow>
      let nr = syscall_nr tf;
          ctx1 = restart_save tf nr in
      case (if nr \<ge> NR_SYSCALL then None else syscall_table nr) of
        None \<Rightarrow>
          let ret = - errno_nr ENOSYS in (syscall_set_return tf ret, restart_finish ctx1 ret, w)
      | Some fn \<Rightarrow>
          (case fn (tf, ctx1, w) of
             (ret, tf2, ctx2, w2) \<Rightarrow> (syscall_set_return tf2 ret, restart_finish ctx2 ret, w2)))"

section \<open>Restarting replays the call\<close>

lemmas tf_accessors = syscall_nr_def syscall_arg_def syscall_args_def syscall_set_return_def

lemma interrupted_call:
  assumes "syscall_nr tf < NR_SYSCALL" and "table (syscall_nr tf) = Some fn"
    and "fn (tf, restart_save tf (syscall_nr tf), w) = (- errno_nr EINTR, tf, restart_save tf (syscall_nr tf), w')"
  shows "do_syscall table (tf, ctx, w) =
    (tf\<lparr>tf_a0 := - errno_nr EINTR\<rparr>,
     if is_restartable tf (syscall_nr tf) then restart_save tf (syscall_nr tf) else restart_clear, w')"
  using assms by (simp add: do_syscall_def Let_def not_le [symmetric] restart_finish_def syscall_set_return_def restart_save_def)

lemma restart_saved:
  "restart_for_signal (restart_save tf (syscall_nr tf)) (tf\<lparr>tf_a0 := r\<rparr>) sa =
   (if sa \<and> is_restartable tf (syscall_nr tf) then (True, restart_clear, tf\<lparr>tf_sepc := tf_sepc tf - 4\<rparr>)
    else (False, restart_clear, tf\<lparr>tf_a0 := r\<rparr>))"
  by (simp add: restart_for_signal_def restart_save_def tf_accessors upt_conv_Cons numeral_nat)

lemma restart_cleared: "restart_for_signal restart_clear tf sa = (False, restart_clear, tf)"
  by (simp add: restart_for_signal_def restart_clear_def)

text \<open>
  C35: Interrupted system calls. A call that returns \<^verbatim>\<open>-EINTR\<close> and is then met by a signal whose handler has
  \<^verbatim>\<open>SA_RESTART\<close> leaves, when it is one of the restartable calls, the frame the program had at its \<^verbatim>\<open>ecall\<close>
  instruction: the program counter is back on the instruction and every argument register, the call number and all other
  registers are those of the first attempt, so the next dispatch runs the same call. Otherwise the program sees
  \<^verbatim>\<open>-EINTR\<close> in \<^verbatim>\<open>a0\<close>. In both cases the record of the call is cleared, so a later signal cannot replay it.
\<close>

theorem syscall_restart_spec:
  assumes "trap_advance_pc ecall 4 = tf"
    and "syscall_nr tf < NR_SYSCALL" and "table (syscall_nr tf) = Some fn"
    and "fn (tf, restart_save tf (syscall_nr tf), w) = (- errno_nr EINTR, tf, restart_save tf (syscall_nr tf), w')"
  shows "(case do_syscall table (tf, ctx, w) of (tf1, ctx1, w1) \<Rightarrow> w1 = w' \<and>
    restart_for_signal ctx1 tf1 sa =
      (if sa \<and> is_restartable ecall (syscall_nr ecall) then (True, restart_clear, ecall)
       else (False, restart_clear, tf\<lparr>tf_a0 := - errno_nr EINTR\<rparr>)))"
proof -
  have e: "tf\<lparr>tf_sepc := tf_sepc tf - 4\<rparr> = ecall" "syscall_nr tf = syscall_nr ecall"
    "is_restartable tf = is_restartable ecall"
    using assms(1) by (auto simp: trap_advance_pc_def tf_accessors is_restartable_def fun_eq_iff)
  show ?thesis
    unfolding interrupted_call [where tf = tf and table = table and fn = fn and w = w and w' = w', OF assms(2-4)]
    by (simp add: restart_saved restart_cleared e(1) e(2) [symmetric] e(3) [symmetric])
qed

definition zero_frame :: trap_frame where
  "zero_frame =
    \<lparr>tf_sepc = 0, tf_ra = 0, tf_sp = 0, tf_gp = 0, tf_tp = 0, tf_t0 = 0,
     tf_t1 = 0, tf_t2 = 0, tf_s0 = 0, tf_s1 = 0, tf_a0 = 0, tf_a1 = 0,
     tf_a2 = 0, tf_a3 = 0, tf_a4 = 0, tf_a5 = 0, tf_a6 = 0, tf_a7 = 0,
     tf_s2 = 0, tf_s3 = 0, tf_s4 = 0, tf_s5 = 0, tf_s6 = 0, tf_s7 = 0,
     tf_s8 = 0, tf_s9 = 0, tf_s10 = 0, tf_s11 = 0, tf_t3 = 0, tf_t4 = 0,
     tf_t5 = 0, tf_t6 = 0, tf_scause = 0, tf_stval = 0, tf_sstatus = 0\<rparr>"

definition ex_read :: "unit syscall_fn" where
  "ex_read kv = (- errno_nr EINTR, kv)"

theorem syscall_restart_spec_witness:
  "(case do_syscall (\<lambda>_. Some ex_read) (zero_frame\<lparr>tf_sepc := 0x1004, tf_a0 := 3, tf_a7 := 63\<rparr>, restart_clear, ()) of
      (tf1, ctx1, w1) \<Rightarrow> w1 = () \<and>
      restart_for_signal ctx1 tf1 True = (True, restart_clear, zero_frame\<lparr>tf_sepc := 0x1000, tf_a0 := 3, tf_a7 := 63\<rparr>))"
  using syscall_restart_spec [of "zero_frame\<lparr>tf_sepc := 0x1000, tf_a0 := 3, tf_a7 := 63\<rparr>"
      "zero_frame\<lparr>tf_sepc := 0x1004, tf_a0 := 3, tf_a7 := 63\<rparr>" "\<lambda>_. Some ex_read" ex_read "()" "()" True restart_clear]
  by (simp add: trap_advance_pc_def zero_frame_def ex_read_def NR_SYSCALL_def syscall_nr_def is_restartable_def)

end
