(* ===== verification/Uaccess.thy ===== *)
theory Uaccess
  imports Vma
begin

text \<open>
  Access to user memory: \<^verbatim>\<open>mm/uaccess.c\<close> and the range walk of \<^verbatim>\<open>mm/page_fault.c\<close> it relies on, over the
  VMA array of theory \<open>Vma\<close>. User memory is seen the way the program sees it, as one byte per address. What the page
  tables, the page allocator and the page cache contribute to a fault (the second half of
  \<^verbatim>\<open>fault_in_user_page_locked\<close>) is the outcome \<open>mm_page_in\<close> of making a page present, an error or nothing.

  The main results: a range can be faulted in exactly when every byte of it lies in an area that permits the access and
  in a page that can be made present, and \<^verbatim>\<open>strncpy_from_user\<close>, which works in page-sized pieces, returns what a
  byte-by-byte scan returns.
\<close>

lemma unat_u64: "unat (x :: u64) < 18446744073709551616"
  using unsigned_less [of x, where 'a = nat] by simp

section \<open>Operations\<close>

datatype user_access = USER_FAULT_READ | USER_FAULT_WRITE | USER_FAULT_EXEC

record mm_struct =
  mm_vma :: vmas
  mm_bytes :: "u64 \<Rightarrow> u8"
  mm_page_in :: "u64 \<Rightarrow> user_access \<Rightarrow> errno option"

definition access_ok :: "u64 \<Rightarrow> u64 \<Rightarrow> bool" where
  "access_ok a size' =
     (if size' = 0 then True else if a + size' < a then False else if a + size' > TASK_SIZE then False else True)"

fun check_vma_permission :: "user_access \<Rightarrow> vm_area_struct \<Rightarrow> bool" where
  "check_vma_permission USER_FAULT_EXEC v \<longleftrightarrow> vm_flags v AND VM_EXEC \<noteq> 0"
| "check_vma_permission USER_FAULT_READ v \<longleftrightarrow> vm_flags v AND VM_READ \<noteq> 0"
| "check_vma_permission USER_FAULT_WRITE v \<longleftrightarrow> vm_flags v AND VM_WRITE \<noteq> 0"

definition fault_in_user_page_locked :: "mm_struct \<Rightarrow> u64 \<Rightarrow> user_access \<Rightarrow> errno + unit" where
  "fault_in_user_page_locked mm fault_addr access =
     (case find_vma (mm_vma mm) fault_addr of
        None \<Rightarrow> Inl EFAULT
      | Some i \<Rightarrow>
          if \<not> check_vma_permission access (mm_vma mm ! i) then Inl EFAULT
          else case mm_page_in mm (fault_addr AND PAGE_MASK) access of None \<Rightarrow> Inr () | Some e \<Rightarrow> Inl e)"

text \<open>The inner loop, over the page addresses still to visit.\<close>

fun fault_pages :: "mm_struct \<Rightarrow> u64 \<Rightarrow> user_access \<Rightarrow> u64 list \<Rightarrow> errno + unit" where
  "fault_pages mm cursor access [] = Inr ()"
| "fault_pages mm cursor access (va # vas) =
     (case fault_in_user_page_locked mm (if va < cursor then cursor else va) access of
        Inl e \<Rightarrow> Inl e
      | Inr _ \<Rightarrow> fault_pages mm cursor access vas)"

function fault_segments :: "mm_struct \<Rightarrow> u64 \<Rightarrow> u64 \<Rightarrow> user_access \<Rightarrow> errno + unit" where
  "fault_segments mm cursor range_end access =
     (if cursor < range_end then
        case find_vma (mm_vma mm) cursor of
          None \<Rightarrow> Inl EFAULT
        | Some i \<Rightarrow>
            let v = mm_vma mm ! i in
            if \<not> check_vma_permission access v then Inl EFAULT
            else
              let segment_end = (if vm_end v < range_end then vm_end v else range_end) in
              if segment_end \<le> cursor then Inl EFAULT
              else
                (case fault_pages mm cursor access (va_range (cursor AND PAGE_MASK) (mm_page_align_up segment_end)) of
                   Inl e \<Rightarrow> Inl e
                 | Inr _ \<Rightarrow> fault_segments mm segment_end range_end access)
      else Inr ())"
  by pat_completeness auto
termination
  by (relation "measure (\<lambda>(mm, cursor, range_end, access). unat range_end - unat cursor)")
    (auto simp: word_less_nat_alt not_le)

declare fault_segments.simps [simp del]

definition fault_in_user_range :: "mm_struct option \<Rightarrow> u64 \<Rightarrow> u64 \<Rightarrow> user_access \<Rightarrow> errno + unit" where
  "fault_in_user_range mm addr size' access =
     (if size' = 0 then Inr ()
      else case mm of
        None \<Rightarrow> Inl EFAULT
      | Some m \<Rightarrow>
          if \<not> access_ok addr size' then Inl EFAULT
          else fault_segments m addr (addr + size') access)"

definition user_range_probe :: "mm_struct option \<Rightarrow> u64 \<Rightarrow> u64 \<Rightarrow> bool \<Rightarrow> errno + unit" where
  "user_range_probe mm addr size' write' =
     (if size' = 0 then Inr ()
      else if \<not> access_ok addr size' then Inl EFAULT
      else case mm of
        None \<Rightarrow> Inl EFAULT
      | Some _ \<Rightarrow> fault_in_user_range mm addr size' (if write' then USER_FAULT_WRITE else USER_FAULT_READ))"

definition read_bytes :: "(u64 \<Rightarrow> u8) \<Rightarrow> u64 \<Rightarrow> nat \<Rightarrow> u8 list" where
  "read_bytes m a n = map (\<lambda>i. m (a + of_nat i)) [0..<n]"

definition write_bytes :: "(u64 \<Rightarrow> u8) \<Rightarrow> u64 \<Rightarrow> u8 list \<Rightarrow> u64 \<Rightarrow> u8" where
  "write_bytes m a bs x = (if unat (x - a) < length bs then bs ! unat (x - a) else m x)"

text \<open>
  The copies return the number of bytes not copied: zero or all. A copy to the user also gives the memory after it, a
  copy from the user the bytes read.
\<close>

definition copy_to_user :: "mm_struct option \<Rightarrow> u64 \<Rightarrow> u8 list \<Rightarrow> nat \<times> mm_struct option" where
  "copy_to_user mm to from =
     (case user_range_probe mm to (of_nat (length from)) True of
        Inl _ \<Rightarrow> (length from, mm)
      | Inr _ \<Rightarrow> (0, map_option (\<lambda>m. m\<lparr>mm_bytes := write_bytes (mm_bytes m) to from\<rparr>) mm))"

definition copy_from_user :: "mm_struct option \<Rightarrow> u64 \<Rightarrow> nat \<Rightarrow> nat \<times> u8 list" where
  "copy_from_user mm from n =
     (case user_range_probe mm from (of_nat n) False of
        Inl _ \<Rightarrow> (n, [])
      | Inr _ \<Rightarrow> (0, case mm of None \<Rightarrow> [] | Some m \<Rightarrow> read_bytes (mm_bytes m) from n))"

text \<open>
  \<^verbatim>\<open>strncpy_from_user\<close>: the outer loop takes pieces up to the end of a page and of an area; \<open>scan_chunk\<close> is the inner
  loop, giving the bytes stored and whether the last of them is the terminator. The result is the length or the error, and
  the bytes stored in the buffer.
\<close>

fun scan_chunk :: "u8 list \<Rightarrow> u8 list \<times> bool" where
  "scan_chunk [] = ([], False)"
| "scan_chunk (c # cs) = (if c = 0 then ([c], True) else case scan_chunk cs of (ds, b) \<Rightarrow> (c # ds, b))"

function strncpy_loop :: "mm_struct option \<Rightarrow> u64 \<Rightarrow> u64 \<Rightarrow> u64 \<Rightarrow> u8 list \<Rightarrow> (errno + u64) \<times> u8 list" where
  "strncpy_loop mm src maxlen n dst =
     (if n < maxlen then
        let addr = src + n;
            chunk = min (maxlen - n) (PAGE_SIZE - (addr AND (PAGE_SIZE - 1))) in
        if \<not> access_ok addr 1 then (Inl EFAULT, dst)
        else case mm of
          None \<Rightarrow> (Inl EFAULT, dst)
        | Some m \<Rightarrow>
            (case find_vma (mm_vma m) addr of
               None \<Rightarrow> (Inl EFAULT, dst)
             | Some i \<Rightarrow>
                 if vm_flags (mm_vma m ! i) AND VM_READ = 0 then (Inl EFAULT, dst)
                 else
                   let chunk' = min chunk (vm_end (mm_vma m ! i) - addr) in
                   if chunk' = 0 then (Inl EFAULT, dst)
                   else case user_range_probe mm addr chunk' False of
                     Inl _ \<Rightarrow> (Inl EFAULT, dst)
                   | Inr _ \<Rightarrow>
                       (case scan_chunk (read_bytes (mm_bytes m) addr (unat chunk')) of
                          (bs, True) \<Rightarrow> (Inr (n + of_nat (length bs) - 1), dst @ bs)
                        | (bs, False) \<Rightarrow> strncpy_loop mm src maxlen (n + chunk') (dst @ bs)))
      else (Inl ENAMETOOLONG, dst[unat (maxlen - 1) := 0]))"
  by pat_completeness auto
termination
proof (relation "measure (\<lambda>(mm, src, maxlen, n, dst). unat maxlen - unat n)", goal_cases)
  case 1
  then show ?case by simp
next
  case (2 mm src maxlen n dst addr chunk m i chunk')
  have c: "unat chunk' \<le> unat maxlen - unat n" "0 < unat chunk'" "unat n < unat maxlen"
    using 2(1,3,8,9) by (auto simp: min_def word_nat_order unat_sub unat_gt_0)
  then have "unat (n + chunk') = unat n + unat chunk'"
    using unat_u64 [of maxlen] by (intro unat_add_noov) simp
  then show ?case using c by simp
qed

declare strncpy_loop.simps [simp del]

definition strncpy_from_user :: "mm_struct option \<Rightarrow> u64 \<Rightarrow> u64 \<Rightarrow> (errno + u64) \<times> u8 list" where
  "strncpy_from_user mm src maxlen =
     (if src = 0 then (Inl EFAULT, [])
      else if maxlen = 0 then (Inl ENAMETOOLONG, [])
      else strncpy_loop mm src maxlen 0 [])"

section \<open>Pages of a range\<close>

lemma page_mask_unat: "unat (x AND PAGE_MASK) = 4096 * (unat x div 4096)"
proof -
  have "PAGE_MASK = NOT (mask 12)" by (simp add: PAGE_MASK_def PAGE_SIZE_def mask_eq_exp_minus_1)
  moreover have "x AND NOT (mask 12) = push_bit 12 (drop_bit 12 x)"
    by (intro bit_word_eqI) (auto simp: bit_simps)
  ultimately have "unat (x AND PAGE_MASK) = unat (push_bit 12 (drop_bit 12 x))" by simp
  also have "\<dots> = 4096 * (unat x div 4096) mod 2 ^ 64"
    by (simp add: unsigned_push_bit_eq unsigned_drop_bit_eq take_bit_eq_mod push_bit_eq_mult drop_bit_eq_div unat_word_ariths unat_div mod_mult_right_eq mult.commute)
  also have "\<dots> = 4096 * (unat x div 4096)" using unat_u64 [of x] by (intro mod_less) simp
  finally show ?thesis .
qed

lemma page_align_up_unat:
  assumes "x \<le> TASK_SIZE"
  shows "unat (mm_page_align_up x) = 4096 * ((unat x + 4095) div 4096)"
proof -
  have x: "unat x \<le> 2147483648" using assms by (simp add: TASK_SIZE_def word_le_nat_alt)
  have "mm_page_align_up x = (x + 4095) AND PAGE_MASK"
    by (simp add: mm_page_align_up_def ALIGN_UP_def PAGE_MASK_def PAGE_SIZE_def)
  moreover have "unat (x + 4095) = unat x + 4095" using x by (subst unat_add_noov) auto
  ultimately show ?thesis by (simp add: page_mask_unat)
qed

lemma va_range_set:
  assumes "e \<le> - PAGE_SIZE"
  shows "set (va_range a e) = {x. a \<le> x \<and> x < e \<and> 4096 dvd (unat x - unat a)}"
  using assms
proof (induction a e rule: va_range.induct)
  case (1 a e)
  show ?case
  proof (cases "a < e")
    case True
    then have n: "a < a + PAGE_SIZE" and u: "unat (a + PAGE_SIZE) = unat a + 4096"
      using 1(2) by (auto simp: PAGE_SIZE_def word_nat_order unat_word_ariths)
    have step: "x = a \<or> (a + PAGE_SIZE \<le> x \<and> x < e \<and> 4096 dvd (unat x - unat (a + PAGE_SIZE))) \<longleftrightarrow>
        a \<le> x \<and> x < e \<and> 4096 dvd (unat x - unat a)" for x
    proof (cases "a + PAGE_SIZE \<le> x")
      case le: True
      then have "unat a + 4096 \<le> unat x" using u by (simp add: word_le_nat_alt)
      then have "unat x - unat a = (unat x - unat (a + PAGE_SIZE)) + 4096" and "x \<noteq> a" and "a \<le> x"
        using u by (auto simp: word_le_nat_alt)
      then show ?thesis using le by (auto simp: dvd_add_left_iff)
    next
      case False
      then have lt: "unat x < unat a + 4096" using u by (simp add: word_le_nat_alt not_le)
      have "a \<le> x \<Longrightarrow> 4096 dvd (unat x - unat a) \<Longrightarrow> unat x - unat a = 0"
        using lt nat_dvd_not_less [of "unat x - unat a" 4096] by (cases "unat x - unat a = 0") (auto simp: word_le_nat_alt)
      then show ?thesis using False True by (auto simp: word_nat_order word_unat_eq_iff)
    qed
    have "set (va_range a e) = insert a (set (va_range (a + PAGE_SIZE) e))"
      using va_range_loop [OF 1(2), of a] True by simp
    also have "\<dots> = {x. a \<le> x \<and> x < e \<and> 4096 dvd (unat x - unat a)}"
      unfolding 1(1) [OF True n 1(2)] using step by blast
    finally show ?thesis .
  next
    case False
    then show ?thesis using va_range_loop [OF 1(2), of a] by auto
  qed
qed

lemma pages_below: "k < (n + 4095) div 4096 \<longleftrightarrow> 4096 * k < (n :: nat)"
  using less_eq_div_iff_mult_less_eq [of 4096 "Suc k" "n + 4095"] by auto

lemma segment_page_iff:
  assumes "c < e" and "e \<le> TASK_SIZE"
  shows "va \<in> set (va_range (c AND PAGE_MASK) (mm_page_align_up e)) \<longleftrightarrow>
    (\<exists>k. unat va = 4096 * k \<and> unat c div 4096 \<le> k \<and> 4096 * k < unat e)"
proof -
  have e: "unat e \<le> 2147483648" using assms(2) by (simp add: TASK_SIZE_def word_le_nat_alt)
  have up: "unat (mm_page_align_up e) = 4096 * ((unat e + 4095) div 4096)" by (rule page_align_up_unat [OF assms(2)])
  have "4096 * ((unat e + 4095) div 4096) \<le> unat e + 4095" by (rule times_div_less_eq_dividend)
  then have "unat (mm_page_align_up e) \<le> 2147487743" using e unfolding up by (rule order_trans [OF _ add_right_mono, of _ "unat e" 4095 2147483648, simplified])
  then have "mm_page_align_up e \<le> - PAGE_SIZE" unfolding PAGE_SIZE_def word_le_nat_alt by (rule order_trans) simp
  note set_eq = va_range_set [OF this]
  have "va \<in> set (va_range (c AND PAGE_MASK) (mm_page_align_up e)) \<longleftrightarrow>
     4096 * (unat c div 4096) \<le> unat va \<and> unat va < 4096 * ((unat e + 4095) div 4096) \<and>
     4096 dvd (unat va - 4096 * (unat c div 4096))"
    by (simp add: set_eq word_nat_order page_mask_unat up)
  also have "\<dots> \<longleftrightarrow> (\<exists>k. unat va = 4096 * k \<and> unat c div 4096 \<le> k \<and> 4096 * k < unat e)"
    (is "?l \<longleftrightarrow> ?r")
  proof
    assume l: ?l
    then obtain j where "unat va - 4096 * (unat c div 4096) = 4096 * j" by blast
    moreover have "4096 * (unat c div 4096) \<le> unat va" using l by blast
    ultimately have "unat va = 4096 * (unat c div 4096 + j)" by (metis add_mult_distrib2 le_add_diff_inverse)
    moreover have "4096 * (unat c div 4096 + j) < 4096 * ((unat e + 4095) div 4096)" using l calculation by metis
    then have "4096 * (unat c div 4096 + j) < unat e" using pages_below [of "unat c div 4096 + j" "unat e"] by simp
    ultimately show ?r by (intro exI [of _ "unat c div 4096 + j"]) simp
  next
    assume ?r
    then obtain k where k: "unat va = 4096 * k" "unat c div 4096 \<le> k" "4096 * k < unat e" by blast
    then have "k < (unat e + 4095) div 4096" using pages_below [of k "unat e"] by simp
    moreover have "unat va - 4096 * (unat c div 4096) = 4096 * (k - unat c div 4096)"
      unfolding k(1) by (rule diff_mult_distrib2 [symmetric])
    ultimately show ?l using k(1,2) by (metis dvd_triv_left mult_le_mono2 nat_mult_less_cancel1 zero_less_numeral)
  qed
  finally show ?thesis .
qed

lemma segment_pages:
  assumes "c < e" and "e \<le> TASK_SIZE" and "va \<in> set (va_range (c AND PAGE_MASK) (mm_page_align_up e))"
  shows "c \<le> (if va < c then c else va)" and "(if va < c then c else va) < e"
    and "(if va < c then c else va) AND PAGE_MASK = va"
proof -
  obtain k where k: "unat va = 4096 * k" "unat c div 4096 \<le> k" "4096 * k < unat e"
    using assms(3) unfolding segment_page_iff [OF assms(1,2)] by blast
  show "c \<le> (if va < c then c else va)" by auto
  show "(if va < c then c else va) < e" using k assms(1) by (simp add: word_less_nat_alt)
  show "(if va < c then c else va) AND PAGE_MASK = va"
  proof (cases "va < c")
    case True
    then have "4096 * k < unat c" using k by (simp add: word_less_nat_alt)
    then have "unat c div 4096 = k" using k(2) by linarith
    then show ?thesis using True k(1) by (simp add: word_unat_eq_iff page_mask_unat)
  next
    case False
    then show ?thesis using k(1) by (simp add: word_unat_eq_iff page_mask_unat)
  qed
qed

lemma page_in_segment:
  assumes "c < e" and "e \<le> TASK_SIZE" and "c \<le> x" and "x < e"
  shows "x AND PAGE_MASK \<in> set (va_range (c AND PAGE_MASK) (mm_page_align_up e))"
proof -
  have "unat c div 4096 \<le> unat x div 4096" using assms(3) by (simp add: word_le_nat_alt div_le_mono)
  moreover have "4096 * (unat x div 4096) < unat e" using assms(4) by (simp add: word_less_nat_alt)
  ultimately show ?thesis
    unfolding segment_page_iff [OF assms(1,2)] by (simp add: page_mask_unat)
qed

section \<open>Faulting in a range\<close>

text \<open>A byte the program may access that way: its area permits it and its page can be made present.\<close>

definition user_ok :: "mm_struct \<Rightarrow> user_access \<Rightarrow> u64 \<Rightarrow> bool" where
  "user_ok mm access x \<longleftrightarrow> fault_in_user_page_locked mm x access = Inr ()"

lemma user_ok_in:
  assumes "vma_wf (mm_vma mm)" and "i < length (mm_vma mm)" and "in_vma (mm_vma mm ! i) x"
  shows "user_ok mm access x \<longleftrightarrow>
    check_vma_permission access (mm_vma mm ! i) \<and> mm_page_in mm (x AND PAGE_MASK) access = None"
  using find_vma_Some_iff [OF assms(1), of x i] assms(2,3)
  by (simp add: user_ok_def fault_in_user_page_locked_def split: option.splits)

lemma fault_pages_ok:
  "fault_pages mm c access vas = Inr () \<longleftrightarrow> (\<forall>va \<in> set vas. user_ok mm access (if va < c then c else va))"
  by (induction vas) (auto simp: user_ok_def split: sum.splits)

lemma fault_segment_ok:
  assumes wf: "vma_wf (mm_vma mm)" and i: "i < length (mm_vma mm)" "in_vma (mm_vma mm ! i) c"
    and e: "c < e" "e \<le> vm_end (mm_vma mm ! i)" "e \<le> TASK_SIZE"
    and perm: "check_vma_permission access (mm_vma mm ! i)"
  shows "fault_pages mm c access (va_range (c AND PAGE_MASK) (mm_page_align_up e)) = Inr () \<longleftrightarrow>
    (\<forall>x. c \<le> x \<and> x < e \<longrightarrow> user_ok mm access x)"
proof -
  have inv: "in_vma (mm_vma mm ! i) x" if "c \<le> x" "x < e" for x
    using i(2) e(2) that by (auto simp: in_vma_def)
  have ok: "user_ok mm access x \<longleftrightarrow> mm_page_in mm (x AND PAGE_MASK) access = None" if "c \<le> x" "x < e" for x
    using user_ok_in [OF wf i(1) inv [OF that]] perm by simp
  have "fault_pages mm c access (va_range (c AND PAGE_MASK) (mm_page_align_up e)) = Inr () \<longleftrightarrow>
    (\<forall>va \<in> set (va_range (c AND PAGE_MASK) (mm_page_align_up e)). mm_page_in mm va access = None)"
    unfolding fault_pages_ok
    by (intro ball_cong refl) (metis ok segment_pages [OF e(1,3)])
  also have "\<dots> \<longleftrightarrow> (\<forall>x. c \<le> x \<and> x < e \<longrightarrow> user_ok mm access x)"
    by (metis ok segment_pages [OF e(1,3)] page_in_segment [OF e(1,3)])
  finally show ?thesis .
qed

lemma fault_segments_stop:
  assumes "\<not> (c < e \<and> (\<exists>i. find_vma (mm_vma mm) c = Some i \<and> check_vma_permission access (mm_vma mm ! i)))"
  shows "fault_segments mm c e access = Inr () \<longleftrightarrow> \<not> c < e" and "c < e \<Longrightarrow> \<not> user_ok mm access c"
  using assms
  by (auto simp: user_ok_def fault_in_user_page_locked_def fault_segments.simps [of mm c] split: option.splits)

lemma fault_segments_step:
  assumes "c < e" and "find_vma (mm_vma mm) c = Some i" and "check_vma_permission access (mm_vma mm ! i)"
  shows "c < min (vm_end (mm_vma mm ! i)) e"
    and "fault_segments mm c e access =
      (case fault_pages mm c access (va_range (c AND PAGE_MASK) (mm_page_align_up (min (vm_end (mm_vma mm ! i)) e))) of
         Inl e' \<Rightarrow> Inl e' | Inr _ \<Rightarrow> fault_segments mm (min (vm_end (mm_vma mm ! i)) e) e access)"
proof -
  show *: "c < min (vm_end (mm_vma mm ! i)) e"
    using assms(1) find_vma_SomeD [OF assms(2)] by (auto simp: in_vma_def)
  have "(if vm_end (mm_vma mm ! i) < e then vm_end (mm_vma mm ! i) else e) = min (vm_end (mm_vma mm ! i)) e"
    by (auto simp: min_def)
  then show "fault_segments mm c e access =
      (case fault_pages mm c access (va_range (c AND PAGE_MASK) (mm_page_align_up (min (vm_end (mm_vma mm ! i)) e))) of
         Inl e' \<Rightarrow> Inl e' | Inr _ \<Rightarrow> fault_segments mm (min (vm_end (mm_vma mm ! i)) e) e access)"
    using assms * by (subst fault_segments.simps) (simp add: Let_def iffD2 [OF not_le] del: not_le)
qed

lemma fault_segments_ok:
  assumes wf: "vma_wf (mm_vma mm)" and e: "e \<le> TASK_SIZE"
  shows "fault_segments mm c e access = Inr () \<longleftrightarrow> (\<forall>x. c \<le> x \<and> x < e \<longrightarrow> user_ok mm access x)"
proof (induction "unat e - unat c" arbitrary: c rule: less_induct)
  case less
  show ?case
  proof (cases "c < e \<and> (\<exists>i. find_vma (mm_vma mm) c = Some i \<and> check_vma_permission access (mm_vma mm ! i))")
    case False
    show ?thesis using fault_segments_stop [OF False] by auto
  next
    case True
    then obtain i where i: "c < e" "find_vma (mm_vma mm) c = Some i" "check_vma_permission access (mm_vma mm ! i)" by blast
    define s where "s = min (vm_end (mm_vma mm ! i)) e"
    note step = fault_segments_step [OF i, folded s_def]
    have iv: "i < length (mm_vma mm)" "in_vma (mm_vma mm ! i) c" using find_vma_SomeD [OF i(2)] by auto
    have s: "s \<le> vm_end (mm_vma mm ! i)" "s \<le> e" "s \<le> TASK_SIZE" using e by (auto simp: s_def intro: min.coboundedI2)
    have IH: "fault_segments mm s e access = Inr () \<longleftrightarrow> (\<forall>x. s \<le> x \<and> x < e \<longrightarrow> user_ok mm access x)"
      using step(1) i(1) by (intro less) (simp add: word_less_nat_alt)
    have "fault_segments mm c e access = Inr () \<longleftrightarrow>
      fault_pages mm c access (va_range (c AND PAGE_MASK) (mm_page_align_up s)) = Inr () \<and>
      fault_segments mm s e access = Inr ()"
      unfolding step(2) by (simp split: sum.splits)
    also have "\<dots> \<longleftrightarrow> (\<forall>x. c \<le> x \<and> x < s \<longrightarrow> user_ok mm access x) \<and> (\<forall>x. s \<le> x \<and> x < e \<longrightarrow> user_ok mm access x)"
      unfolding IH fault_segment_ok [OF wf iv step(1) s(1,3) i(3)] ..
    also have "\<dots> \<longleftrightarrow> (\<forall>x. c \<le> x \<and> x < e \<longrightarrow> user_ok mm access x)"
      using step(1) s(2) by (meson not_le less_imp_le order_less_le_trans order_trans)
    finally show ?thesis .
  qed
qed

lemma user_range_probe_iff:
  assumes "vma_wf (mm_vma m)"
  shows "user_range_probe (Some m) a n w = Inr () \<longleftrightarrow>
    n = 0 \<or> (access_ok a n \<and>
      (\<forall>x. a \<le> x \<and> x < a + n \<longrightarrow> user_ok m (if w then USER_FAULT_WRITE else USER_FAULT_READ) x))"
  using fault_segments_ok [OF assms, of "a + n" a]
  by (auto simp: user_range_probe_def fault_in_user_range_def access_ok_def split: if_splits)

section \<open>Copies\<close>

lemma read_write_bytes:
  assumes "length bs < 2 ^ 64"
  shows "read_bytes (write_bytes m a bs) a (length bs) = bs"
  using assms by (intro nth_equalityI) (simp_all add: read_bytes_def write_bytes_def unat_of_nat)

lemma read_write_apart:
  assumes "unat a + n \<le> unat b \<or> unat b + length bs \<le> unat a" and "unat a + n \<le> 2 ^ 64" and "unat b + length bs \<le> 2 ^ 64"
  shows "read_bytes (write_bytes m b bs) a n = read_bytes m a n"
proof -
  have "\<not> unat (a + of_nat i - b) < length bs" if "i < n" for i
  proof -
    have i: "unat (a + of_nat i) = unat a + i"
      using that assms(2) by (subst unat_add_noov) (simp_all add: unat_of_nat)
    show ?thesis
    proof (cases "unat b \<le> unat a + i")
      case True
      then have "unat (a + of_nat i - b) = unat a + i - unat b"
        using i by (simp add: unat_sub word_le_nat_alt)
      then show ?thesis using assms(1) that True by auto
    next
      case False
      then have "unat (a + of_nat i - b) = 2 ^ 64 + (unat a + i) - unat b"
        using i unat_u64 [of b] by (simp add: unat_sub_if' word_le_nat_alt)
      then show ?thesis using assms(3) by simp
    qed
  qed
  then show ?thesis by (simp add: read_bytes_def write_bytes_def)
qed

lemma read_bytes_Suc: "read_bytes m a (Suc k) = m a # read_bytes m (a + 1) k"
  by (simp add: read_bytes_def upt_conv_Cons map_Suc_upt [symmetric] comp_def algebra_simps del: upt_Suc)

lemma read_bytes_length [simp]: "length (read_bytes m a n) = n"
  by (simp add: read_bytes_def)

text \<open>A C object of \<open>n\<close> bytes in memory: least significant byte first.\<close>

primrec le_bytes :: "nat \<Rightarrow> nat \<Rightarrow> u8 list" where
  "le_bytes 0 x = []"
| "le_bytes (Suc n) x = of_nat x # le_bytes n (x div 256)"

primrec le_nat :: "u8 list \<Rightarrow> nat" where
  "le_nat [] = 0"
| "le_nat (b # bs) = unat b + 256 * le_nat bs"

lemma le_bytes_length [simp]: "length (le_bytes n x) = n"
  by (induction n arbitrary: x) simp_all

lemma le_nat_bytes: "le_nat (le_bytes n x) = x mod 256 ^ n"
proof (induction n arbitrary: x)
  case 0
  show ?case by simp
next
  case (Suc n)
  show ?case by (simp add: Suc unat_of_nat mod_mult2_eq)
qed

lemma le_u32 [simp]: "of_nat (le_nat (le_bytes 4 (unat (w :: u32)))) = w"
  using unsigned_less [of w, where 'a = nat] by (simp add: le_nat_bytes)

lemma le_u64 [simp]: "of_nat (le_nat (le_bytes 8 (unat (w :: u64)))) = w"
  using unat_u64 [of w] by (simp add: le_nat_bytes)

section \<open>Strings\<close>

text \<open>The scan, one byte after the other: the length of the string or the error, and the bytes read.\<close>

primrec byte_scan :: "mm_struct \<Rightarrow> u64 \<Rightarrow> nat \<Rightarrow> (errno + nat) \<times> u8 list" where
  "byte_scan m a 0 = (Inl ENAMETOOLONG, [])"
| "byte_scan m a (Suc k) =
     (if \<not> user_ok m USER_FAULT_READ a then (Inl EFAULT, [])
      else if mm_bytes m a = 0 then (Inr 0, [0])
      else case byte_scan m (a + 1) k of (r, bs) \<Rightarrow> (map_sum id Suc r, mm_bytes m a # bs))"

lemma byte_scan_chunk:
  assumes "\<forall>i<k. user_ok m USER_FAULT_READ (a + of_nat i)"
  shows "byte_scan m a (k + r) =
    (case scan_chunk (read_bytes (mm_bytes m) a k) of
       (bs, True) \<Rightarrow> (Inr (length bs - 1), bs)
     | (bs, False) \<Rightarrow> (case byte_scan m (a + of_nat k) r of (res, cs) \<Rightarrow> (map_sum id ((+) k) res, bs @ cs)))
    \<and> (case scan_chunk (read_bytes (mm_bytes m) a k) of (bs, b) \<Rightarrow> (b \<longrightarrow> bs \<noteq> []) \<and> (\<not> b \<longrightarrow> length bs = k))"
  using assms
proof (induction k arbitrary: a)
  case 0
  show ?case by (cases "byte_scan m a r"; cases "fst (byte_scan m a r)") (auto simp: read_bytes_def)
next
  case (Suc k)
  have 0: "user_ok m USER_FAULT_READ a" using Suc.prems by fastforce
  have "\<forall>i<k. user_ok m USER_FAULT_READ (a + 1 + of_nat i)"
    using Suc.prems by (metis Suc_less_eq of_nat_Suc add.assoc)
  moreover have "(\<lambda>x. Suc (k + x)) = (+) (Suc k)" by auto
  ultimately show ?case
    using 0 Suc.IH [of "a + 1"] by (auto simp: read_bytes_Suc map_sum.compositionality comp_def id_def add.assoc split: prod.splits bool.splits sum.splits)
qed

lemma page_offset_unat: "unat (a AND (PAGE_SIZE - 1)) = unat a mod 4096"
proof -
  have "a AND (PAGE_SIZE - 1) = take_bit 12 a" by (simp add: PAGE_SIZE_def take_bit_eq_mask mask_eq_exp_minus_1 and.commute)
  then show ?thesis by (simp add: take_bit_eq_mod unat_mod)
qed

lemma same_page: "b < 4096 - n mod 4096 \<Longrightarrow> (n + b) div 4096 = n div (4096 :: nat)"
  by (simp add: div_add1_eq [of n b])

lemma scan_piece:
  assumes wf: "vma_wf (mm_vma m)" and i: "find_vma (mm_vma m) a = Some i"
    and k: "k \<le> PAGE_SIZE - (a AND (PAGE_SIZE - 1))" "k \<le> vm_end (mm_vma m ! i) - a" "k \<noteq> 0"
  shows "\<forall>j < unat k. user_ok m access (a + of_nat j) \<longleftrightarrow> user_ok m access a"
    and "user_range_probe (Some m) a k False = Inr () \<longleftrightarrow> user_ok m USER_FAULT_READ a"
proof -
  have iv: "i < length (mm_vma m)" "in_vma (mm_vma m ! i) a" using find_vma_SomeD [OF i] by auto
  have "vma_ok (mm_vma m ! i)" by (rule vma_wfD(1) [OF wf iv(1)])
  then have e: "vm_end (mm_vma m ! i) \<le> TASK_SIZE" "unat a < unat (vm_end (mm_vma m ! i))"
    using iv(2) by (auto simp: vma_ok_def in_vma_def word_less_nat_alt)
  have u: "unat k + unat a \<le> unat (vm_end (mm_vma m ! i))" "unat k \<le> 4096 - unat a mod 4096"
  proof -
    show "unat k + unat a \<le> unat (vm_end (mm_vma m ! i))"
      using k(2) e(2) by (simp add: word_le_nat_alt unat_sub)
    have "a AND (PAGE_SIZE - 1) \<le> PAGE_SIZE"
      unfolding word_le_nat_alt page_offset_unat by (simp add: PAGE_SIZE_def)
    then show "unat k \<le> 4096 - unat a mod 4096"
      using k(1) by (simp add: word_le_nat_alt unat_sub page_offset_unat) (simp add: PAGE_SIZE_def)
  qed
  have lim: "unat (vm_end (mm_vma m ! i)) \<le> 2147483648" using e(1) by (simp add: TASK_SIZE_def word_le_nat_alt)
  have all: "user_ok m access (a + of_nat j) \<longleftrightarrow> user_ok m access a" if "j < unat k" for j access
  proof -
    have j: "unat (a + of_nat j) = unat a + j"
      using that u(1) lim by (subst unat_add_noov) (simp_all add: unat_of_nat)
    then have "in_vma (mm_vma m ! i) (a + of_nat j)"
      using iv(2) that u(1) by (auto simp: in_vma_def word_nat_order)
    moreover have "(a + of_nat j) AND PAGE_MASK = a AND PAGE_MASK"
      using same_page [of j "unat a"] that u(2) by (simp add: word_unat_eq_iff page_mask_unat j)
    ultimately show ?thesis using user_ok_in [OF wf iv(1)] iv(2) by simp
  qed
  then show "\<forall>j < unat k. user_ok m access (a + of_nat j) \<longleftrightarrow> user_ok m access a" by blast
  have ak: "unat (a + k) = unat a + unat k" using u(1) lim by (subst unat_add_noov) simp_all
  have ok: "access_ok a k"
    using u(1) lim k(3) ak e(1) by (auto simp: access_ok_def word_nat_order)
  have "(\<forall>x. a \<le> x \<and> x < a + k \<longrightarrow> user_ok m USER_FAULT_READ x) \<longleftrightarrow> user_ok m USER_FAULT_READ a" (is "?l \<longleftrightarrow> ?r")
  proof
    assume ?l
    then show ?r using k(3) ak by (simp add: word_nat_order unat_gt_0)
  next
    assume r: ?r
    have "user_ok m USER_FAULT_READ x" if "a \<le> x" "x < a + k" for x
    proof -
      have "unat x - unat a < unat k" and "a + of_nat (unat x - unat a) = x"
        using that ak by (auto simp: word_nat_order of_nat_diff)
      then show ?thesis using all [of "unat x - unat a"] r by metis
    qed
    then show ?l by blast
  qed
  then show "user_range_probe (Some m) a k False = Inr () \<longleftrightarrow> user_ok m USER_FAULT_READ a"
    using user_range_probe_iff [OF wf, of a k False] ok k(3) by simp
qed

definition strncpy_result :: "u64 \<Rightarrow> u64 \<Rightarrow> u8 list \<Rightarrow> (errno + nat) \<times> u8 list \<Rightarrow> (errno + u64) \<times> u8 list" where
  "strncpy_result maxlen n dst res =
     (case res of
        (Inr k, bs) \<Rightarrow> (Inr (n + of_nat k), dst @ bs)
      | (Inl e, bs) \<Rightarrow> (Inl e, if e = ENAMETOOLONG then (dst @ bs)[unat (maxlen - 1) := 0] else dst @ bs))"

definition piece :: "mm_struct \<Rightarrow> u64 \<Rightarrow> u64 \<Rightarrow> nat \<Rightarrow> u64" where
  "piece m a left i = min (min left (PAGE_SIZE - (a AND (PAGE_SIZE - 1)))) (vm_end (mm_vma m ! i) - a)"

lemma piece_le:
  "piece m a left i \<le> left" "piece m a left i \<le> PAGE_SIZE - (a AND (PAGE_SIZE - 1))"
  "piece m a left i \<le> vm_end (mm_vma m ! i) - a"
  by (simp_all add: piece_def min_le_iff_disj)

lemma strncpy_fault:
  assumes "\<not> user_ok m USER_FAULT_READ (src + n)" and "n < maxlen" and wf: "vma_wf (mm_vma m)"
  shows "strncpy_loop (Some m) src maxlen n dst = (Inl EFAULT, dst)"
proof -
  have "\<exists>e. user_range_probe (Some m) (src + n) (piece m (src + n) (maxlen - n) i) False = Inl e"
    if "find_vma (mm_vma m) (src + n) = Some i" "piece m (src + n) (maxlen - n) i \<noteq> 0" for i
    using scan_piece(2) [OF wf that(1) piece_le(2,3) that(2)] assms(1)
    by (cases "user_range_probe (Some m) (src + n) (piece m (src + n) (maxlen - n) i) False") auto
  then show ?thesis using assms(2)
    by (subst strncpy_loop.simps) (fastforce simp: Let_def piece_def split: option.splits)
qed

lemma strncpy_step:
  assumes ok: "user_ok m USER_FAULT_READ (src + n)" and n: "n < maxlen" and wf: "vma_wf (mm_vma m)"
  obtains k where "k \<noteq> 0" "k \<le> maxlen - n" "\<forall>j < unat k. user_ok m USER_FAULT_READ (src + n + of_nat j)"
    and "strncpy_loop (Some m) src maxlen n dst =
      (case scan_chunk (read_bytes (mm_bytes m) (src + n) (unat k)) of
         (bs, True) \<Rightarrow> (Inr (n + of_nat (length bs) - 1), dst @ bs)
       | (bs, False) \<Rightarrow> strncpy_loop (Some m) src maxlen (n + k) (dst @ bs))"
proof -
  obtain i where i: "find_vma (mm_vma m) (src + n) = Some i" "vm_flags (mm_vma m ! i) AND VM_READ \<noteq> 0"
    using ok by (auto simp: user_ok_def fault_in_user_page_locked_def split: option.splits if_splits)
  define k where "k = piece m (src + n) (maxlen - n) i"
  have iv: "in_vma (mm_vma m ! i) (src + n)" "vma_ok (mm_vma m ! i)"
    using find_vma_SomeD [OF i(1)] vma_wfD(1) [OF wf] by auto
  then have lt: "unat (src + n) < unat (vm_end (mm_vma m ! i))" and lim: "unat (vm_end (mm_vma m ! i)) \<le> 2147483648"
    by (auto simp: vma_ok_def in_vma_def word_nat_order TASK_SIZE_def)
  have "unat (src + n + 1) = unat (src + n) + 1" using lt lim by (subst unat_add_noov) simp_all
  then have acc: "access_ok (src + n) 1" using lt lim by (auto simp: access_ok_def word_nat_order TASK_SIZE_def)
  have "unat ((src + n) AND (PAGE_SIZE - 1)) < unat PAGE_SIZE"
    unfolding page_offset_unat by (simp add: PAGE_SIZE_def)
  then have k0: "k \<noteq> 0"
    using n lt by (auto simp: k_def piece_def min_def word_less_nat_alt split: if_splits)
  have le: "k \<le> maxlen - n" "k \<le> PAGE_SIZE - ((src + n) AND (PAGE_SIZE - 1))" "k \<le> vm_end (mm_vma m ! i) - (src + n)"
    unfolding k_def by (rule piece_le)+
  note sp = scan_piece [OF wf i(1) le(2,3) k0]
  have probe: "user_range_probe (Some m) (src + n) k False = Inr ()" using sp(2) ok by simp
  have "strncpy_loop (Some m) src maxlen n dst =
      (case scan_chunk (read_bytes (mm_bytes m) (src + n) (unat k)) of
         (bs, True) \<Rightarrow> (Inr (n + of_nat (length bs) - 1), dst @ bs)
       | (bs, False) \<Rightarrow> strncpy_loop (Some m) src maxlen (n + k) (dst @ bs))"
    using n i acc k0 probe unfolding k_def piece_def by (subst strncpy_loop.simps) (simp add: Let_def)
  then show ?thesis using that [of k] k0 le(1) sp(1) ok by blast
qed

lemma strncpy_result_chunk:
  assumes "\<forall>j<unat k. user_ok m USER_FAULT_READ (a + of_nat j)"
  shows "strncpy_result maxlen n dst (byte_scan m a (unat k + r)) =
    (case scan_chunk (read_bytes (mm_bytes m) a (unat k)) of
       (bs, True) \<Rightarrow> (Inr (n + of_nat (length bs) - 1), dst @ bs)
     | (bs, False) \<Rightarrow> strncpy_result maxlen (n + k) (dst @ bs) (byte_scan m (a + k) r))"
proof -
  obtain bs b where sc: "scan_chunk (read_bytes (mm_bytes m) a (unat k)) = (bs, b)" by fastforce
  show ?thesis
  proof (cases b)
    case True
    then have "bs \<noteq> []" using byte_scan_chunk [OF assms, of r] sc by simp
    then have "of_nat (length bs - 1) = (of_nat (length bs) - 1 :: u64)" by (cases bs) simp_all
    then show ?thesis using byte_scan_chunk [OF assms, of r] sc True
      by (simp add: strncpy_result_def add_diff_eq)
  next
    case False
    then show ?thesis using byte_scan_chunk [OF assms, of r] sc
      by (cases "byte_scan m (a + k) r"; cases "fst (byte_scan m (a + k) r)")
        (auto simp: strncpy_result_def add.assoc)
  qed
qed

lemma strncpy_loop_scan:
  assumes wf: "vma_wf (mm_vma m)" and "n \<le> maxlen"
  shows "strncpy_loop (Some m) src maxlen n dst =
    strncpy_result maxlen n dst (byte_scan m (src + n) (unat (maxlen - n)))"
  using assms(2)
proof (induction "unat maxlen - unat n" arbitrary: n dst rule: less_induct)
  case less
  show ?case
  proof (cases "n < maxlen")
    case False
    then have "n = maxlen" using less.prems by simp
    then show ?thesis by (subst strncpy_loop.simps) (simp add: strncpy_result_def)
  next
    case n: True
    then have "unat (maxlen - n) \<noteq> 0" using unat_sub [OF less_imp_le [OF n]] by (simp add: word_less_nat_alt)
    then obtain r where r: "unat (maxlen - n) = Suc r" using not0_implies_Suc by blast
    show ?thesis
    proof (cases "user_ok m USER_FAULT_READ (src + n)")
      case False
      then show ?thesis using strncpy_fault [OF False n wf] r by (simp add: strncpy_result_def)
    next
      case True
      obtain k where k: "k \<noteq> 0" "k \<le> maxlen - n" "\<forall>j < unat k. user_ok m USER_FAULT_READ (src + n + of_nat j)"
        and eq: "strncpy_loop (Some m) src maxlen n dst =
          (case scan_chunk (read_bytes (mm_bytes m) (src + n) (unat k)) of
             (bs, True) \<Rightarrow> (Inr (n + of_nat (length bs) - 1), dst @ bs)
           | (bs, False) \<Rightarrow> strncpy_loop (Some m) src maxlen (n + k) (dst @ bs))"
        by (rule strncpy_step [OF True n wf])
      have u: "unat k \<le> unat maxlen - unat n" "0 < unat k" "unat n < unat maxlen"
        using k(1,2) n by (auto simp: word_nat_order unat_sub unat_gt_0)
      have nk: "unat (n + k) = unat n + unat k" using u unat_u64 [of maxlen] by (intro unat_add_noov) simp
      then have le: "n + k \<le> maxlen" using u by (simp add: word_le_nat_alt)
      have split: "unat (maxlen - n) = unat k + unat (maxlen - (n + k))"
        using u le nk by (simp add: unat_sub word_le_nat_alt)
      have IH: "strncpy_loop (Some m) src maxlen (n + k) dst' =
          strncpy_result maxlen (n + k) dst' (byte_scan m (src + (n + k)) (unat (maxlen - (n + k))))" for dst'
        using less.hyps [of "n + k"] le nk u by simp
      show ?thesis unfolding eq split strncpy_result_chunk [OF k(3)]
        by (simp add: IH add.assoc split: prod.splits bool.splits)
    qed
  qed
qed

section \<open>Properties\<close>

lemma access_ok_unat:
  assumes "0 < n" and "n < 2 ^ 64"
  shows "access_ok a (of_nat n) \<longleftrightarrow> unat a + n \<le> unat TASK_SIZE"
proof (cases "unat a + n < 2 ^ 64")
  case True
  then have "unat (a + of_nat n) = unat a + n"
    using assms by (subst unat_add_noov) (simp_all add: unat_of_nat)
  then show ?thesis using assms by (auto simp: access_ok_def word_nat_order of_nat_eq_0_iff unat_of_nat word_unat_eq_iff)
next
  case False
  then have "unat (a + of_nat n) = unat a + n - 2 ^ 64"
    using assms unat_u64 [of a] by (simp add: unat_plus_if' unat_of_nat)
  moreover have "unat a + n - 2 ^ 64 < unat a" using assms False by simp
  ultimately have "a + of_nat n < a" by (simp add: word_less_nat_alt)
  moreover have "(of_nat n :: u64) \<noteq> 0" using assms by (simp add: word_unat_eq_iff unat_of_nat)
  ultimately show ?thesis using False by (simp add: access_ok_def TASK_SIZE_def)
qed

lemma probe_bytes:
  assumes wf: "vma_wf (mm_vma m)" and n: "n < 2 ^ 64"
  shows "user_range_probe (Some m) a (of_nat n) w = Inr () \<longleftrightarrow>
    n = 0 \<or> (unat a + n \<le> unat TASK_SIZE \<and>
      (\<forall>j<n. user_ok m (if w then USER_FAULT_WRITE else USER_FAULT_READ) (a + of_nat j)))"
proof (cases "0 < n \<and> unat a + n \<le> unat TASK_SIZE")
  case True
  have an: "unat (a + of_nat j) = unat a + j" if "j \<le> n" for j
    using True that n by (subst unat_add_noov) (simp_all add: unat_of_nat TASK_SIZE_def)
  have "(\<forall>x. a \<le> x \<and> x < a + of_nat n \<longrightarrow> P x) \<longleftrightarrow> (\<forall>j<n. P (a + of_nat j))" for P
  proof
    assume *: "\<forall>x. a \<le> x \<and> x < a + of_nat n \<longrightarrow> P x"
    show "\<forall>j<n. P (a + of_nat j)"
      using * by (auto simp: word_nat_order an)
  next
    assume *: "\<forall>j<n. P (a + of_nat j)"
    have "P x" if "a \<le> x" "x < a + of_nat n" for x
    proof -
      have "unat x - unat a < n" and "a + of_nat (unat x - unat a) = x"
        using that by (auto simp: word_nat_order an of_nat_diff)
      then show ?thesis using * by metis
    qed
    then show "\<forall>x. a \<le> x \<and> x < a + of_nat n \<longrightarrow> P x" by blast
  qed
  moreover have "(of_nat n :: u64) \<noteq> 0" using True n by (simp add: word_unat_eq_iff unat_of_nat)
  ultimately show ?thesis
    using True user_range_probe_iff [OF wf, of a "of_nat n" w] access_ok_unat [of n a] n by simp
next
  case False
  then show ?thesis
    using user_range_probe_iff [OF wf, of a "of_nat n" w] access_ok_unat [of n a] n
    by (auto simp: word_unat_eq_iff unat_of_nat)
qed

lemma write_bytes_range:
  assumes "bs = [] \<or> unat a + length bs \<le> 2 ^ 64"
  shows "write_bytes m a bs = (\<lambda>x. if unat a \<le> unat x \<and> unat x < unat a + length bs then bs ! (unat x - unat a) else m x)"
proof
  fix x
  show "write_bytes m a bs x = (if unat a \<le> unat x \<and> unat x < unat a + length bs then bs ! (unat x - unat a) else m x)"
  proof (cases "unat a \<le> unat x")
    case True
    then have "unat (x - a) = unat x - unat a" by (simp add: unat_sub word_le_nat_alt)
    then show ?thesis using True by (auto simp: write_bytes_def)
  next
    case False
    then have "unat (x - a) = 2 ^ 64 + unat x - unat a" using unat_u64 [of a] by (simp add: unat_sub_if' word_le_nat_alt)
    then show ?thesis using False assms by (auto simp: write_bytes_def)
  qed
qed

text \<open>
  C36: Copies to and from user memory. \<^verbatim>\<open>copy_to_user\<close> copies all of its bytes or none: it succeeds exactly when the
  whole range lies below \<^verbatim>\<open>TASK_SIZE\<close> and every byte of it is in an area with write permission and a page that can be
  made present (so it never writes kernel addresses and never through an address wrap-around). A failed copy leaves the
  memory as it was; a successful one changes exactly the bytes of the range, and reading the range back with
  \<^verbatim>\<open>copy_from_user\<close> gives the bytes that were written when the program may read them.
\<close>

theorem user_copy_spec:
  assumes wf: "vma_wf (mm_vma m)" and n: "length bs < 2 ^ 64"
  shows "case copy_to_user (Some m) to bs of (left, mm') \<Rightarrow>
    (left = 0 \<longleftrightarrow>
       bs = [] \<or> (unat to + length bs \<le> unat TASK_SIZE \<and> (\<forall>j<length bs. user_ok m USER_FAULT_WRITE (to + of_nat j)))) \<and>
    (left \<noteq> 0 \<longrightarrow> left = length bs \<and> mm' = Some m) \<and>
    (left = 0 \<longrightarrow>
       mm' = Some (m\<lparr>mm_bytes := \<lambda>x. if unat to \<le> unat x \<and> unat x < unat to + length bs
                                     then bs ! (unat x - unat to) else mm_bytes m x\<rparr>) \<and>
       copy_from_user mm' to (length bs) =
         (if \<forall>j<length bs. user_ok m USER_FAULT_READ (to + of_nat j) then (0, bs) else (length bs, [])))"
proof (cases "user_range_probe (Some m) to (of_nat (length bs)) True")
  case (Inl e)
  then have "bs \<noteq> []" using probe_bytes [OF wf n, of to True] by (cases bs) (auto simp: user_range_probe_def)
  then show ?thesis using Inl probe_bytes [OF wf n, of to True] by (simp add: copy_to_user_def)
next
  case (Inr u)
  define m' where "m' = m\<lparr>mm_bytes := write_bytes (mm_bytes m) to bs\<rparr>"
  have ok: "bs = [] \<or> (unat to + length bs \<le> unat TASK_SIZE \<and> (\<forall>j<length bs. user_ok m USER_FAULT_WRITE (to + of_nat j)))"
    using Inr probe_bytes [OF wf n, of to True] by simp
  then have w: "m' = m\<lparr>mm_bytes := \<lambda>x. if unat to \<le> unat x \<and> unat x < unat to + length bs
                                     then bs ! (unat x - unat to) else mm_bytes m x\<rparr>"
    unfolding m'_def using write_bytes_range [of bs to "mm_bytes m"] by (auto simp: TASK_SIZE_def)
  have same: "user_ok m' a x = user_ok m a x" "mm_vma m' = mm_vma m" for a x
    by (auto simp: m'_def user_ok_def fault_in_user_page_locked_def split: option.splits)
  have "copy_from_user (Some m') to (length bs) =
      (if \<forall>j<length bs. user_ok m USER_FAULT_READ (to + of_nat j) then (0, bs) else (length bs, []))"
    using probe_bytes [of m' "length bs" to False] wf n ok same
    by (cases "user_range_probe (Some m') to (of_nat (length bs)) False")
      (auto simp: copy_from_user_def m'_def read_write_bytes)
  moreover have "copy_to_user (Some m) to bs = (0, Some m')" using Inr by (simp add: copy_to_user_def m'_def)
  ultimately show ?thesis using ok w by simp
qed

definition ex_mm :: mm_struct where
  "ex_mm = \<lparr>mm_vma = [ex_vma 0x1000 0x3000 (VM_READ OR VM_WRITE) None 0], mm_bytes = \<lambda>x. if x < 0x2005 then 65 else 0,
     mm_page_in = \<lambda>_ _. None\<rparr>"

lemma ex_mm_wf: "vma_wf (mm_vma ex_mm)"
  by (simp add: ex_mm_def vma_wf_def vma_ok_def ex_vma_def TASK_SIZE_def)

lemma ex_mm_ok: "0x1000 \<le> x \<Longrightarrow> x < 0x3000 \<Longrightarrow> access \<noteq> USER_FAULT_EXEC \<Longrightarrow> user_ok ex_mm access x"
  by (cases access)
    (auto simp: user_ok_def fault_in_user_page_locked_def ex_mm_def find_vma_def ex_vma_def VM_READ_def VM_WRITE_def)

theorem user_copy_spec_witness:
  "vma_wf (mm_vma ex_mm) \<and> copy_from_user (snd (copy_to_user (Some ex_mm) 0x1fff [1, 2, 3])) 0x1fff 3 = (0, [1, 2, 3])"
proof -
  have "user_ok ex_mm access (0x1fff + of_nat j)" if "j < 3" "access \<noteq> USER_FAULT_EXEC" for j access
    using that by (intro ex_mm_ok) (auto simp: less_Suc_eq numeral_3_eq_3)
  then show ?thesis using user_copy_spec [OF ex_mm_wf, of "[1, 2, 3]" "0x1fff"] ex_mm_wf
    by (auto simp: TASK_SIZE_def numeral_3_eq_3 split: prod.splits)
qed

text \<open>
  C37: Reading strings from the user. \<^verbatim>\<open>strncpy_from_user\<close>, which probes memory in pieces that end at page and area
  boundaries, returns exactly what a scan of one byte after the other returns: the length of the string when its terminator
  comes within the first \<open>maxlen\<close> bytes and all bytes up to it are readable, \<^verbatim>\<open>-EFAULT\<close> when an unreadable byte comes
  first, and \<^verbatim>\<open>-ENAMETOOLONG\<close> with a terminated buffer otherwise. The buffer holds the bytes the scan has read.
\<close>

theorem strncpy_from_user_spec:
  assumes "vma_wf (mm_vma m)"
  shows "strncpy_from_user (Some m) src maxlen =
    (if src = 0 then (Inl EFAULT, [])
     else if maxlen = 0 then (Inl ENAMETOOLONG, [])
     else strncpy_result maxlen 0 [] (byte_scan m src (unat maxlen)))"
  using strncpy_loop_scan [OF assms, of 0 maxlen src "[]"] by (simp add: strncpy_from_user_def)

theorem strncpy_from_user_spec_witness:
  "vma_wf (mm_vma ex_mm) \<and> strncpy_from_user (Some ex_mm) 0x1fff 4 = (Inl ENAMETOOLONG, [65, 65, 65, 0]) \<and>
   strncpy_from_user (Some ex_mm) 0x1fff 9 = (Inr 6, [65, 65, 65, 65, 65, 65, 0])"
proof -
  have u: "user_ok ex_mm USER_FAULT_READ 0x1fff" "user_ok ex_mm USER_FAULT_READ 0x2000" "user_ok ex_mm USER_FAULT_READ 0x2001"
    "user_ok ex_mm USER_FAULT_READ 0x2002" "user_ok ex_mm USER_FAULT_READ 0x2003" "user_ok ex_mm USER_FAULT_READ 0x2004"
    "user_ok ex_mm USER_FAULT_READ 0x2005"
    by (rule ex_mm_ok; simp)+
  have b: "mm_bytes ex_mm x = (if x < 0x2005 then 65 else 0)" for x by (simp add: ex_mm_def)
  have n: "(4 :: nat) = Suc (Suc (Suc (Suc 0)))" "(9 :: nat) = Suc (Suc (Suc (Suc (Suc (Suc (Suc (Suc (Suc 0))))))))"
    by simp_all
  have "byte_scan ex_mm 0x1fff 4 = (Inl ENAMETOOLONG, [65, 65, 65, 65])"
    unfolding n by (simp add: u b)
  moreover have "byte_scan ex_mm 0x1fff 9 = (Inr 6, [65, 65, 65, 65, 65, 65, 0])"
    unfolding n by (simp add: u b)
  ultimately show ?thesis
    using strncpy_from_user_spec [OF ex_mm_wf, of "0x1fff" 4] strncpy_from_user_spec [OF ex_mm_wf, of "0x1fff" 9] ex_mm_wf
    by (simp add: strncpy_result_def)
qed

end
