(* ===== verification/Rseq.thy ===== *)
theory Rseq
  imports Trap Uaccess
begin

text \<open>
  Restartable sequences, \<^verbatim>\<open>kernel/rseq.c\<close>: the registration a thread makes with the kernel and the work done on
  the way back to user mode, which moves a thread that was interrupted inside its critical section to the section's abort
  handler. The user structures of \<^verbatim>\<open>uapi/rseq.h\<close> are bytes of user memory; an operation takes the address space and
  returns it with the writes it made.
\<close>

section \<open>Operations\<close>

record rseq_task_context =
  rseq_area :: u64
  rseq_len :: u32
  rseq_sig :: u32
  rseq_need_update :: u8

datatype rseq_restart_event = RSEQ_RESTART_ON_PREEMPT | RSEQ_RESTART_ON_SIGNAL

definition RSEQ_ORIG_SIZE :: u32 where "RSEQ_ORIG_SIZE = 32"

definition RSEQ_CS_SUPPORTED_FLAGS :: u32 where "RSEQ_CS_SUPPORTED_FLAGS = 1 OR 2 OR 4"

definition RSEQ_FLAG_UNREGISTER :: u32 where "RSEQ_FLAG_UNREGISTER = 1"

record rseq_cs =
  cs_version :: u32
  cs_flags :: u32
  cs_start_ip :: u64
  cs_post_commit_offset :: u64
  cs_abort_ip :: u64

definition rseq_task_set :: "u64 \<Rightarrow> u32 \<Rightarrow> u32 \<Rightarrow> rseq_task_context" where
  "rseq_task_set area len sig = \<lparr>rseq_area = area, rseq_len = len, rseq_sig = sig, rseq_need_update = 0\<rparr>"

definition rseq_task_clear :: rseq_task_context where
  "rseq_task_clear = rseq_task_set 0 0 0"

text \<open>A chain of \<^verbatim>\<open>copy_to_user\<close> calls, left at the first one that fails.\<close>

fun write_fields :: "mm_struct option \<Rightarrow> (u64 \<times> u8 list) list \<Rightarrow> (errno + unit) \<times> mm_struct option" where
  "write_fields mm [] = (Inr (), mm)"
| "write_fields mm ((a, bs) # fs) =
     (case copy_to_user mm a bs of (left, mm') \<Rightarrow> if left \<noteq> 0 then (Inl EFAULT, mm') else write_fields mm' fs)"

definition rseq_write_initial_area :: "u64 \<Rightarrow> mm_struct option \<Rightarrow> (errno + unit) \<times> mm_struct option" where
  "rseq_write_initial_area area mm =
     write_fields mm [(area, le_bytes 4 0), (area + 4, le_bytes 4 0), (area + 8, le_bytes 8 0), (area + 16, le_bytes 4 0),
       (area + 20, le_bytes 4 0), (area + 24, le_bytes 4 0)]"

definition rseq_write_current_ids :: "u64 \<Rightarrow> mm_struct option \<Rightarrow> (errno + unit) \<times> mm_struct option" where
  "rseq_write_current_ids area mm =
     write_fields mm [(area, le_bytes 4 0), (area + 4, le_bytes 4 0), (area + 20, le_bytes 4 0), (area + 24, le_bytes 4 0)]"

definition rseq_write_unregistered_area :: "u64 \<Rightarrow> mm_struct option \<Rightarrow> (errno + unit) \<times> mm_struct option" where
  "rseq_write_unregistered_area area mm = write_fields mm [(area + 4, le_bytes 4 0xffffffff)]"

definition cs_of_bytes :: "u8 list \<Rightarrow> rseq_cs" where
  "cs_of_bytes bs =
     \<lparr>cs_version = of_nat (le_nat (take 4 bs)), cs_flags = of_nat (le_nat (take 4 (drop 4 bs))),
      cs_start_ip = of_nat (le_nat (take 8 (drop 8 bs))), cs_post_commit_offset = of_nat (le_nat (take 8 (drop 16 bs))),
      cs_abort_ip = of_nat (le_nat (take 8 (drop 24 bs)))\<rparr>"

definition rseq_copy_cs :: "mm_struct option \<Rightarrow> u64 \<Rightarrow> errno + rseq_cs" where
  "rseq_copy_cs mm src =
     (if src \<ge> TASK_SIZE then Inl EFAULT
      else case copy_from_user mm src 32 of (left, bs) \<Rightarrow> if left \<noteq> 0 then Inl EFAULT else Inr (cs_of_bytes bs))"

definition rseq_read_signature :: "mm_struct option \<Rightarrow> u64 \<Rightarrow> errno + u32" where
  "rseq_read_signature mm abort_ip =
     (if abort_ip \<ge> TASK_SIZE \<or> abort_ip < 4 then Inl EFAULT
      else case copy_from_user mm (abort_ip - 4) 4 of (left, bs) \<Rightarrow>
        if left \<noteq> 0 then Inl EFAULT else Inr (of_nat (le_nat bs)))"

definition rseq_clear_user_cs :: "u64 \<Rightarrow> mm_struct option \<Rightarrow> (errno + unit) \<times> mm_struct option" where
  "rseq_clear_user_cs area mm = write_fields mm [(area + 8, le_bytes 8 0)]"

fun rseq_cs_suppresses_restart :: "rseq_cs \<Rightarrow> rseq_restart_event \<Rightarrow> bool" where
  "rseq_cs_suppresses_restart cs RSEQ_RESTART_ON_PREEMPT \<longleftrightarrow> cs_flags cs AND 1 \<noteq> 0"
| "rseq_cs_suppresses_restart cs RSEQ_RESTART_ON_SIGNAL \<longleftrightarrow> cs_flags cs AND 2 \<noteq> 0"

definition rseq_handle_cs :: "rseq_task_context \<Rightarrow> trap_frame \<Rightarrow> u64 \<Rightarrow> rseq_restart_event \<Rightarrow> mm_struct option \<Rightarrow>
    (errno + unit) \<times> trap_frame \<times> mm_struct option" where
  "rseq_handle_cs ctx tf csaddr event mm =
     (case rseq_copy_cs mm csaddr of
        Inl e \<Rightarrow> (Inl e, tf, mm)
      | Inr cs \<Rightarrow>
          if cs_version cs \<noteq> 0 \<or> cs_flags cs AND NOT RSEQ_CS_SUPPORTED_FLAGS \<noteq> 0 then (Inl EINVAL, tf, mm)
          else
            let ip = tf_sepc tf;
                end' = cs_start_ip cs + cs_post_commit_offset cs in
            if end' < cs_start_ip cs \<or> end' > TASK_SIZE then (Inl EFAULT, tf, mm)
            else if ip < cs_start_ip cs \<or> ip \<ge> end' then
              (case rseq_clear_user_cs (rseq_area ctx) mm of (r, mm') \<Rightarrow> (r, tf, mm'))
            else if rseq_cs_suppresses_restart cs event then (Inr (), tf, mm)
            else
              (case rseq_read_signature mm (cs_abort_ip cs) of
                 Inl e \<Rightarrow> (Inl e, tf, mm)
               | Inr sig \<Rightarrow>
                   if sig \<noteq> rseq_sig ctx then (Inl EFAULT, tf, mm)
                   else
                     (case rseq_clear_user_cs (rseq_area ctx) mm of
                        (Inl e, mm') \<Rightarrow> (Inl e, tf, mm')
                      | (Inr _, mm') \<Rightarrow> (Inr (), tf\<lparr>tf_sepc := cs_abort_ip cs\<rparr>, mm'))))"

text \<open>The result, the trap frame, the thread's registration and its address space.\<close>

type_synonym rseq_result = "(errno + unit) \<times> trap_frame \<times> rseq_task_context \<times> mm_struct option"

definition rseq_update_user ::
    "rseq_task_context \<Rightarrow> trap_frame \<Rightarrow> rseq_restart_event \<Rightarrow> bool \<Rightarrow> mm_struct option \<Rightarrow> rseq_result" where
  "rseq_update_user ctx tf event force mm =
     (if rseq_area ctx = 0 then (Inr (), tf, ctx, mm)
      else if \<not> force \<and> rseq_need_update ctx = 0 then (Inr (), tf, ctx, mm)
      else
        let ctx1 = ctx\<lparr>rseq_need_update := 0\<rparr> in
        (case rseq_write_current_ids (rseq_area ctx) mm of
           (Inl e, mm1) \<Rightarrow> (Inl e, tf, ctx1, mm1)
         | (Inr _, mm1) \<Rightarrow>
             (case copy_from_user mm1 (rseq_area ctx + 8) 8 of (left, bs) \<Rightarrow>
                if left \<noteq> 0 then (Inl EFAULT, tf, ctx1, mm1)
                else
                  let csaddr = of_nat (le_nat bs) in
                  if csaddr = 0 then (Inr (), tf, ctx1, mm1)
                  else case rseq_handle_cs ctx1 tf csaddr event mm1 of (r, tf2, mm2) \<Rightarrow> (r, tf2, ctx1, mm2))))"

definition rseq_reregister :: "rseq_task_context \<Rightarrow> u64 \<Rightarrow> u32 \<Rightarrow> u32 \<Rightarrow> errno" where
  "rseq_reregister ctx area len sig =
     (if rseq_area ctx \<noteq> area \<or> rseq_len ctx \<noteq> len then EINVAL
      else if rseq_sig ctx \<noteq> sig then EPERM
      else EBUSY)"

definition rseq_register :: "rseq_task_context \<Rightarrow> u64 \<Rightarrow> u32 \<Rightarrow> u32 \<Rightarrow> mm_struct option \<Rightarrow>
    (errno + unit) \<times> rseq_task_context \<times> mm_struct option" where
  "rseq_register ctx area len sig mm =
     (if area = 0 then (Inl EFAULT, ctx, mm)
      else if len \<noteq> RSEQ_ORIG_SIZE \<or> \<not> IS_ALIGNED area 32 then (Inl EINVAL, ctx, mm)
      else if \<not> access_ok area (ucast len) then (Inl EFAULT, ctx, mm)
      else if rseq_area ctx \<noteq> 0 then (Inl (rseq_reregister ctx area len sig), ctx, mm)
      else case rseq_write_initial_area area mm of
        (Inl e, mm1) \<Rightarrow> (Inl e, ctx, mm1)
      | (Inr _, mm1) \<Rightarrow> (Inr (), rseq_task_set area len sig, mm1))"

definition rseq_unregister :: "rseq_task_context \<Rightarrow> u64 \<Rightarrow> u32 \<Rightarrow> u32 \<Rightarrow> u32 \<Rightarrow> mm_struct option \<Rightarrow>
    (errno + unit) \<times> rseq_task_context \<times> mm_struct option" where
  "rseq_unregister ctx area len flags sig mm =
     (if flags AND NOT RSEQ_FLAG_UNREGISTER \<noteq> 0 then (Inl EINVAL, ctx, mm)
      else if rseq_area ctx \<noteq> area \<or> rseq_area ctx = 0 then (Inl EINVAL, ctx, mm)
      else if rseq_len ctx \<noteq> len then (Inl EINVAL, ctx, mm)
      else if rseq_sig ctx \<noteq> sig then (Inl EPERM, ctx, mm)
      else case rseq_write_unregistered_area area mm of
        (Inl e, mm1) \<Rightarrow> (Inl e, ctx, mm1)
      | (Inr _, mm1) \<Rightarrow> (Inr (), rseq_task_clear, mm1))"

definition kernel_rseq :: "rseq_task_context \<Rightarrow> u64 \<Rightarrow> u32 \<Rightarrow> u32 \<Rightarrow> u32 \<Rightarrow> mm_struct option \<Rightarrow>
    (errno + unit) \<times> rseq_task_context \<times> mm_struct option" where
  "kernel_rseq ctx area len flags sig mm =
     (if flags AND RSEQ_FLAG_UNREGISTER \<noteq> 0 then rseq_unregister ctx area len flags sig mm
      else if flags \<noteq> 0 then (Inl EINVAL, ctx, mm)
      else rseq_register ctx area len sig mm)"

definition CLONE_VM :: u64 where "CLONE_VM = 0x100"

definition rseq_clone :: "rseq_task_context \<Rightarrow> u64 \<Rightarrow> rseq_task_context" where
  "rseq_clone parent flags =
     (if flags AND CLONE_VM \<noteq> 0 then rseq_task_clear
      else (rseq_task_set (rseq_area parent) (rseq_len parent) (rseq_sig parent))\<lparr>rseq_need_update := rseq_need_update parent\<rparr>)"

definition rseq_sched_switch :: "rseq_task_context \<Rightarrow> bool \<Rightarrow> rseq_task_context" where
  "rseq_sched_switch ctx from_user =
     (if rseq_area ctx = 0 \<or> \<not> from_user then ctx else ctx\<lparr>rseq_need_update := 1\<rparr>)"

definition rseq_resume_user :: "rseq_task_context \<Rightarrow> trap_frame \<Rightarrow> mm_struct option \<Rightarrow> rseq_result" where
  "rseq_resume_user ctx tf mm = rseq_update_user ctx tf RSEQ_RESTART_ON_PREEMPT False mm"

definition rseq_signal_deliver :: "rseq_task_context \<Rightarrow> trap_frame \<Rightarrow> mm_struct option \<Rightarrow> rseq_result" where
  "rseq_signal_deliver ctx tf mm = rseq_update_user ctx tf RSEQ_RESTART_ON_SIGNAL True mm"

section \<open>Interrupted critical sections\<close>

text \<open>
  The critical section the thread is in, as its memory says: the descriptor it has published, when the program counter is
  inside the section. The bounds are those of the section as numbers, without wrap-around.
\<close>

definition active_cs :: "rseq_task_context \<Rightarrow> trap_frame \<Rightarrow> mm_struct option \<Rightarrow> rseq_cs option" where
  "active_cs ctx tf mm =
     (let csaddr = of_nat (le_nat (snd (copy_from_user mm (rseq_area ctx + 8) 8))) in
      if csaddr = 0 then None
      else case rseq_copy_cs mm csaddr of
        Inl _ \<Rightarrow> None
      | Inr cs \<Rightarrow>
          if unat (cs_start_ip cs) \<le> unat (tf_sepc tf) \<and>
             unat (tf_sepc tf) < unat (cs_start_ip cs) + unat (cs_post_commit_offset cs)
          then Some cs else None)"

definition user_cs_clear :: "u64 \<Rightarrow> mm_struct option \<Rightarrow> bool" where
  "user_cs_clear area mm \<longleftrightarrow> (case mm of None \<Rightarrow> False | Some m \<Rightarrow> read_bytes (mm_bytes m) (area + 8) 8 = replicate 8 0)"

lemma le_bytes_0: "le_bytes n 0 = replicate n 0"
  by (induction n) simp_all

lemma clear_user_cs:
  assumes "rseq_clear_user_cs area mm = (Inr r, mm')"
  shows "user_cs_clear area mm'"
proof -
  obtain left where c: "copy_to_user mm (area + 8) (replicate 8 0) = (left, mm')" "left = 0"
    using assms by (auto simp: rseq_clear_user_cs_def le_bytes_0 split: prod.splits if_splits)
  then obtain m where "mm = Some m" "mm' = Some (m\<lparr>mm_bytes := write_bytes (mm_bytes m) (area + 8) (replicate 8 0)\<rparr>)"
    by (cases mm) (auto simp: copy_to_user_def user_range_probe_def split: sum.splits if_splits)
  then show ?thesis
    using read_write_bytes [of "replicate 8 0" "mm_bytes m" "area + 8"] by (simp add: user_cs_clear_def)
qed

lemma section_bounds:
  assumes "\<not> (start + off < (start :: u64) \<or> start + off > TASK_SIZE)"
  shows "(ip < start \<or> ip \<ge> start + off) \<longleftrightarrow> \<not> (unat start \<le> unat ip \<and> unat ip < unat start + unat off)"
proof -
  have "unat (start + off) = unat start + unat off"
    using assms by (metis not_less unat_plus_simple)
  then show ?thesis by (auto simp: word_nat_order)
qed

lemma handle_cs_ok:
  assumes "rseq_handle_cs ctx tf csaddr event mm = (Inr r, tf', mm')" and "csaddr \<noteq> 0"
    and "of_nat (le_nat (snd (copy_from_user mm (rseq_area ctx + 8) 8))) = csaddr"
  shows "case active_cs ctx tf mm of
      None \<Rightarrow> tf' = tf \<and> user_cs_clear (rseq_area ctx) mm'
    | Some cs \<Rightarrow>
        if rseq_cs_suppresses_restart cs event then tf' = tf \<and> mm' = mm
        else tf' = tf\<lparr>tf_sepc := cs_abort_ip cs\<rparr> \<and> rseq_read_signature mm (cs_abort_ip cs) = Inr (rseq_sig ctx) \<and>
          user_cs_clear (rseq_area ctx) mm'"
proof -
  obtain cs where cs: "rseq_copy_cs mm csaddr = Inr cs"
    using assms(1) by (cases "rseq_copy_cs mm csaddr") (auto simp: rseq_handle_cs_def)
  have lim: "\<not> (cs_start_ip cs + cs_post_commit_offset cs < cs_start_ip cs \<or> cs_start_ip cs + cs_post_commit_offset cs > TASK_SIZE)"
    using assms(1) cs by (auto simp: rseq_handle_cs_def Let_def split: if_splits)
  define inside where "inside \<longleftrightarrow> unat (cs_start_ip cs) \<le> unat (tf_sepc tf) \<and>
     unat (tf_sepc tf) < unat (cs_start_ip cs) + unat (cs_post_commit_offset cs)"
  have act: "active_cs ctx tf mm = (if inside then Some cs else None)"
    using assms(2,3) cs by (simp add: active_cs_def inside_def)
  have res: "(Inr r, tf', mm') =
      (if \<not> inside then (case rseq_clear_user_cs (rseq_area ctx) mm of (r, mm') \<Rightarrow> (r, tf, mm'))
       else if rseq_cs_suppresses_restart cs event then (Inr (), tf, mm)
       else case rseq_read_signature mm (cs_abort_ip cs) of
           Inl e \<Rightarrow> (Inl e, tf, mm)
         | Inr sig \<Rightarrow>
             if sig \<noteq> rseq_sig ctx then (Inl EFAULT, tf, mm)
             else case rseq_clear_user_cs (rseq_area ctx) mm of
                 (Inl e, mm') \<Rightarrow> (Inl e, tf, mm')
               | (Inr _, mm') \<Rightarrow> (Inr (), tf\<lparr>tf_sepc := cs_abort_ip cs\<rparr>, mm'))"
    using assms(1) cs lim
    by (simp add: rseq_handle_cs_def Let_def section_bounds [OF lim, of "tf_sepc tf", folded inside_def] split: if_splits)
  show ?thesis
    unfolding act using res
    by (auto dest: clear_user_cs sym [of "(Inr r, _)"] split: if_splits sum.splits prod.splits)
qed

text \<open>
  C38: Restartable sequences. When the return to user mode succeeds for a thread with a registration, the program counter
  changes only if the thread was inside the critical section it had published and the section asks for a restart on this
  event; it then goes to the section's abort handler, the four bytes before the handler hold the signature the thread
  registered, and the published descriptor is cleared. A thread outside its section keeps its program counter, and so does
  one whose section suppresses the restart. In every case the request for an update is consumed.
\<close>

theorem rseq_update_spec:
  assumes "rseq_update_user ctx tf event force mm = (Inr r, tf', ctx', mm')"
    and "rseq_area ctx \<noteq> 0" and "force \<or> rseq_need_update ctx \<noteq> 0"
  shows "\<exists>mm1. rseq_write_current_ids (rseq_area ctx) mm = (Inr (), mm1) \<and> ctx' = ctx\<lparr>rseq_need_update := 0\<rparr> \<and>
    (case active_cs ctx tf mm1 of
       None \<Rightarrow> tf' = tf
     | Some cs \<Rightarrow>
         if rseq_cs_suppresses_restart cs event then tf' = tf \<and> mm' = mm1
         else tf' = tf\<lparr>tf_sepc := cs_abort_ip cs\<rparr> \<and> rseq_read_signature mm1 (cs_abort_ip cs) = Inr (rseq_sig ctx) \<and>
           user_cs_clear (rseq_area ctx) mm')"
proof -
  obtain mm1 where w: "rseq_write_current_ids (rseq_area ctx) mm = (Inr (), mm1)"
    using assms by (cases "rseq_write_current_ids (rseq_area ctx) mm"; cases "fst (rseq_write_current_ids (rseq_area ctx) mm)")
      (auto simp: rseq_update_user_def Let_def)
  define csaddr :: u64 where "csaddr = of_nat (le_nat (snd (copy_from_user mm1 (rseq_area ctx + 8) 8)))"
  define ctx1 where "ctx1 = ctx\<lparr>rseq_need_update := 0\<rparr>"
  have same: "active_cs ctx1 tf mm1 = active_cs ctx tf mm1" "rseq_area ctx1 = rseq_area ctx" "rseq_sig ctx1 = rseq_sig ctx"
    by (simp_all add: ctx1_def active_cs_def)
  have upd: "(Inr r, tf', ctx', mm') =
      (if csaddr = 0 then (Inr (), tf, ctx1, mm1)
       else case rseq_handle_cs ctx1 tf csaddr event mm1 of (r, tf2, mm2) \<Rightarrow> (r, tf2, ctx1, mm2))"
    using assms w by (auto simp: rseq_update_user_def Let_def csaddr_def ctx1_def split: prod.splits if_splits)
  show ?thesis
  proof (cases "csaddr = 0")
    case True
    then have "active_cs ctx tf mm1 = None" by (simp add: active_cs_def csaddr_def)
    then show ?thesis using w upd True by (simp add: ctx1_def)
  next
    case False
    then have h: "rseq_handle_cs ctx1 tf csaddr event mm1 = (Inr r, tf', mm')" and c: "ctx' = ctx1"
      using upd by (auto split: prod.splits)
    show ?thesis
      using w c handle_cs_ok [OF h False, unfolded same] same
      by (auto simp: ctx1_def csaddr_def split: option.splits)
  qed
qed

text \<open>
  An example: a thread with its area at \<open>0x1000\<close> is interrupted at \<open>0x2004\<close>, inside the section from \<open>0x2000\<close> to
  \<open>0x2010\<close> whose descriptor is at \<open>0x1040\<close> and whose abort handler at \<open>0x1080\<close> carries the signature \<open>0x53\<close>.
\<close>

definition ex_rseq_bytes :: "u64 \<Rightarrow> u8" where
  "ex_rseq_bytes x =
     (if x = 0x1008 then 0x40 else if x = 0x1009 then 0x10 else if x = 0x1049 then 0x20 else if x = 0x1050 then 0x10
      else if x = 0x1058 then 0x80 else if x = 0x1059 then 0x10 else if x = 0x107c then 0x53 else 0)"

definition ex_rseq_ctx :: rseq_task_context where
  "ex_rseq_ctx = rseq_task_set 0x1000 32 0x53"

definition ex_rseq_mm :: "(u64 \<Rightarrow> u8) \<Rightarrow> mm_struct option" where
  "ex_rseq_mm f = Some (ex_mm\<lparr>mm_bytes := f\<rparr>)"

lemma ex_rseq_probe:
  assumes "0x1000 \<le> unat a" and "unat a + n \<le> 0x3000"
  shows "user_range_probe (ex_rseq_mm f) a (of_nat n) w = Inr ()"
proof -
  have ok: "user_ok (ex_mm\<lparr>mm_bytes := f\<rparr>) access x = user_ok ex_mm access x" for access x
    by (auto simp: user_ok_def fault_in_user_page_locked_def split: option.splits)
  have "user_ok ex_mm (if w then USER_FAULT_WRITE else USER_FAULT_READ) (a + of_nat j)" if "j < n" for j
  proof -
    have "unat (a + of_nat j) = unat a + j" using that assms by (subst unat_add_noov) (simp_all add: unat_of_nat)
    then show ?thesis using that assms by (intro ex_mm_ok) (simp_all add: word_nat_order)
  qed
  then show ?thesis
    using probe_bytes [of "ex_mm\<lparr>mm_bytes := f\<rparr>" n a w] ex_mm_wf assms by (simp add: ex_rseq_mm_def ok TASK_SIZE_def)
qed

lemma ex_rseq_copy:
  assumes "0x1000 \<le> unat a"
  shows "unat a + length bs \<le> 0x3000 \<Longrightarrow> copy_to_user (ex_rseq_mm f) a bs = (0, ex_rseq_mm (write_bytes f a bs))"
    and "unat a + n \<le> 0x3000 \<Longrightarrow> copy_from_user (ex_rseq_mm f) a n = (0, read_bytes f a n)"
  using ex_rseq_probe [OF assms, of "length bs" f True] ex_rseq_probe [OF assms, of n f False]
  by (simp_all add: copy_to_user_def copy_from_user_def) (simp_all add: ex_rseq_mm_def)

definition ex_rseq_run :: rseq_result where
  "ex_rseq_run = rseq_update_user ex_rseq_ctx (zero_frame\<lparr>tf_sepc := 0x2004\<rparr>) RSEQ_RESTART_ON_SIGNAL True (ex_rseq_mm ex_rseq_bytes)"

lemma read_8: "read_bytes m a 8 = [m a, m (a + 1), m (a + 2), m (a + 3), m (a + 4), m (a + 5), m (a + 6), m (a + 7)]"
  by (simp add: read_bytes_def upt_conv_Cons)

lemma read_4: "read_bytes m a 4 = [m a, m (a + 1), m (a + 2), m (a + 3)]"
  by (simp add: read_bytes_def upt_conv_Cons)

lemma read_32: "read_bytes m a 32 = read_bytes m a 8 @ read_bytes m (a + 8) 8 @ read_bytes m (a + 16) 8 @ read_bytes m (a + 24) 8"
  by (simp add: read_bytes_def upt_conv_Cons add.assoc)

lemma ex_rseq_run_eq:
  "\<exists>ctx' mm'. ex_rseq_run = (Inr (), zero_frame\<lparr>tf_sepc := 0x1080\<rparr>, ctx', mm')"
  by (simp add: ex_rseq_run_def ex_rseq_ctx_def rseq_task_set_def rseq_update_user_def rseq_write_current_ids_def
      ex_rseq_copy le_bytes_0 Let_def read_8 read_4 read_32 write_bytes_def ex_rseq_bytes_def rseq_handle_cs_def rseq_copy_cs_def
      TASK_SIZE_def cs_of_bytes_def rseq_read_signature_def rseq_clear_user_cs_def)

theorem rseq_update_spec_witness:
  "\<exists>ctx' mm'. ex_rseq_run = (Inr (), zero_frame\<lparr>tf_sepc := 0x1080\<rparr>, ctx', mm') \<and> user_cs_clear 0x1000 mm' \<and> rseq_need_update ctx' = 0"
proof -
  obtain ctx' mm' where run: "ex_rseq_run = (Inr (), zero_frame\<lparr>tf_sepc := 0x1080\<rparr>, ctx', mm')" using ex_rseq_run_eq by blast
  have "tf_sepc (zero_frame\<lparr>tf_sepc := 0x1080\<rparr>) \<noteq> tf_sepc (zero_frame\<lparr>tf_sepc := 0x2004\<rparr>)" by simp
  then have ne: "zero_frame\<lparr>tf_sepc := 0x1080\<rparr> \<noteq> zero_frame\<lparr>tf_sepc := 0x2004\<rparr>" by metis
  have "user_cs_clear 0x1000 mm' \<and> rseq_need_update ctx' = 0"
    using rseq_update_spec [OF run [unfolded ex_rseq_run_def]] ne
    by (fastforce simp: ex_rseq_ctx_def rseq_task_set_def split: option.splits if_splits)
  then show ?thesis using run by blast
qed

end
