(* ===== verification/Signal.thy ===== *)
theory Signal
  imports Pid Trap Rseq
begin

text \<open>
  Signals, \<^verbatim>\<open>kernel/signal.c\<close>, first part: signal sets, dispositions, the sharing of signal state between the
  threads of a process, sending (to a thread, a process, a process group, everyone), waking the target, and the system calls
  on masks, actions and the alternate stack. Delivery to user mode is theory \<open>Sigframe\<close>.

  Tasks, handler tables and shared signal states are named by numbers and kept in the maps of one state record; a pointer
  that may be \<^verbatim>\<open>NULL\<close> is an option. A mutex-protected section is one step. The references a lookup by PID takes are
  released before each function returns, so a lookup is the result of \<open>pid_task_get\<close> on the registry of theory \<open>Pid\<close>.
\<close>

section \<open>Data\<close>

definition NSIG :: int where "NSIG = 32"
definition SIGKILL :: int where "SIGKILL = 9"
definition SIGSEGV :: int where "SIGSEGV = 11"
definition SIGCHLD :: int where "SIGCHLD = 17"
definition SIGCONT :: int where "SIGCONT = 18"
definition SIGSTOP :: int where "SIGSTOP = 19"
definition SIGTSTP :: int where "SIGTSTP = 20"
definition SIGTTIN :: int where "SIGTTIN = 21"
definition SIGTTOU :: int where "SIGTTOU = 22"

lemmas sig_defs = NSIG_def SIGKILL_def SIGSEGV_def SIGCHLD_def SIGCONT_def SIGSTOP_def SIGTSTP_def SIGTTIN_def SIGTTOU_def

definition SIG_DFL :: u64 where "SIG_DFL = 0"
definition SIG_IGN :: u64 where "SIG_IGN = 1"
definition SIG_ERR :: u64 where "SIG_ERR = - 1"

definition SA_SIGINFO :: u64 where "SA_SIGINFO = 0x4"
definition SA_ONSTACK :: u64 where "SA_ONSTACK = 0x08000000"
definition SA_RESTART :: u64 where "SA_RESTART = 0x10000000"
definition SA_NODEFER :: u64 where "SA_NODEFER = 0x40000000"
definition SA_RESETHAND :: u64 where "SA_RESETHAND = 0x80000000"

definition SS_ONSTACK :: u32 where "SS_ONSTACK = 1"
definition SS_DISABLE :: u32 where "SS_DISABLE = 2"
definition MINSIGSTKSZ :: u64 where "MINSIGSTKSZ = 2048"

definition TASK_RUNNING :: u32 where "TASK_RUNNING = 0"
definition TASK_UNINTERRUPTIBLE :: u32 where "TASK_UNINTERRUPTIBLE = 0x01"
definition TASK_INTERRUPTIBLE :: u32 where "TASK_INTERRUPTIBLE = 0x02"
definition TASK_ZOMBIE :: u32 where "TASK_ZOMBIE = 0x04"
definition TASK_DEAD :: u32 where "TASK_DEAD = 0x08"
definition TASK_STOPPED :: u32 where "TASK_STOPPED = 0x10"
definition TASK_KILLABLE :: u32 where "TASK_KILLABLE = 0x20"

lemmas task_states = TASK_RUNNING_def TASK_UNINTERRUPTIBLE_def TASK_INTERRUPTIBLE_def TASK_ZOMBIE_def TASK_DEAD_def
  TASK_STOPPED_def TASK_KILLABLE_def

record stack_t =
  ss_sp :: u64
  ss_flags :: u32
  ss_size :: u64

record sigaction =
  sa_handler :: u64
  sa_flags :: u64
  sa_restorer :: u64
  sa_mask :: u64

definition sigaction0 :: sigaction where
  "sigaction0 = \<lparr>sa_handler = 0, sa_flags = 0, sa_restorer = 0, sa_mask = 0\<rparr>"

text \<open>
  The fields of \<^verbatim>\<open>task_struct\<close> the signal code reads and writes: \<^verbatim>\<open>sigctx\<close>, the run state, the identity,
  the references to the shared tables, the restart record and the \<^verbatim>\<open>rseq\<close> registration. A frame record of the chain
  \<^verbatim>\<open>signal_frames\<close> is the pair of its stack address and signal, the innermost first.
\<close>

record thread =
  tk_blocked :: u64
  tk_pending :: u64
  tk_forced :: u64
  tk_info :: "siginfo list"
  tk_frames :: "(u64 \<times> int) list"
  tk_restore_mask :: u64
  tk_restore_pending :: bool
  tk_sas :: stack_t
  tk_state :: u32
  tk_pid :: int
  tk_tgid :: int
  tk_pgid :: int
  tk_sid :: int
  tk_uid :: u32
  tk_leader :: nat
  tk_group :: "nat list"
  tk_user :: bool
  tk_sighand :: "nat option"
  tk_signal :: "nat option"
  tk_restart :: restart_context
  tk_rseq :: rseq_task_context

record sighand_struct =
  sh_refs :: int
  sh_actions :: "sigaction list"

record signal_struct =
  sg_refs :: int
  sg_pending :: u64
  sg_info :: "siginfo list"

text \<open>
  The kernel state: the tasks and tables, the running task, the init task, the PID registry, the address space of the running
  task and, in order, the stop and continue events published to parents (\<^verbatim>\<open>task_child_publish_stop\<close> and
  \<^verbatim>\<open>task_child_publish_continue\<close>).
\<close>

datatype child_event = PublishStop nat int | PublishContinue nat

record sys =
  threads :: "nat \<Rightarrow> thread"
  sighands :: "nat \<Rightarrow> sighand_struct"
  signals :: "nat \<Rightarrow> signal_struct"
  current :: nat
  init_task :: "nat option"
  registry :: pid_state
  cur_mm :: "mm_struct option"
  child_events :: "child_event list"

definition upd_thread :: "nat \<Rightarrow> (thread \<Rightarrow> thread) \<Rightarrow> sys \<Rightarrow> sys" where
  "upd_thread t f st = st\<lparr>threads := (threads st)(t := f (threads st t))\<rparr>"

definition upd_sighand :: "nat \<Rightarrow> (sighand_struct \<Rightarrow> sighand_struct) \<Rightarrow> sys \<Rightarrow> sys" where
  "upd_sighand h f st = st\<lparr>sighands := (sighands st)(h := f (sighands st h))\<rparr>"

definition upd_signal :: "nat \<Rightarrow> (signal_struct \<Rightarrow> signal_struct) \<Rightarrow> sys \<Rightarrow> sys" where
  "upd_signal g f st = st\<lparr>signals := (signals st)(g := f (signals st g))\<rparr>"

section \<open>Signal sets and dispositions\<close>

definition signal_is_valid :: "int \<Rightarrow> bool" where
  "signal_is_valid sig \<longleftrightarrow> sig > 0 \<and> sig < NSIG"

definition signal_mask :: "int \<Rightarrow> u64" where
  "signal_mask sig = push_bit (nat (sig - 1)) 1"

definition signal_is_stop_signal :: "int \<Rightarrow> bool" where
  "signal_is_stop_signal sig \<longleftrightarrow> sig = SIGSTOP \<or> sig = SIGTSTP \<or> sig = SIGTTIN \<or> sig = SIGTTOU"

definition signal_stop_mask :: u64 where
  "signal_stop_mask = signal_mask SIGSTOP OR signal_mask SIGTSTP OR signal_mask SIGTTIN OR signal_mask SIGTTOU"

definition signal_is_fatal_default :: "int \<Rightarrow> bool" where
  "signal_is_fatal_default sig \<longleftrightarrow> sig \<notin> {SIGCHLD, SIGCONT, SIGTSTP, SIGTTIN, SIGTTOU}"

definition signal_stops_default :: "int \<Rightarrow> u64 \<Rightarrow> bool" where
  "signal_stops_default sig handler \<longleftrightarrow>
     (if sig = SIGSTOP then True else if handler \<noteq> SIG_DFL then False else signal_is_stop_signal sig)"

definition signal_is_catchable :: "int \<Rightarrow> bool" where
  "signal_is_catchable sig \<longleftrightarrow> sig \<noteq> SIGKILL \<and> sig \<noteq> SIGSTOP"

definition unblockable_mask :: u64 where
  "unblockable_mask = signal_mask SIGKILL OR signal_mask SIGSTOP"

definition task_signal_target_dead :: "nat option \<Rightarrow> sys \<Rightarrow> bool" where
  "task_signal_target_dead task st =
     (case task of None \<Rightarrow> True
      | Some t \<Rightarrow> tk_state (threads st t) = TASK_DEAD \<or> tk_state (threads st t) = TASK_ZOMBIE)"

definition signal_handler_for_task :: "nat \<Rightarrow> int \<Rightarrow> sys \<Rightarrow> u64" where
  "signal_handler_for_task t sig st =
     (case tk_sighand (threads st t) of
        None \<Rightarrow> SIG_DFL
      | Some h \<Rightarrow> sa_handler (sh_actions (sighands st h) ! nat sig))"

definition init_process_is_task :: "nat \<Rightarrow> sys \<Rightarrow> bool" where
  "init_process_is_task t st =
     (case init_task st of None \<Rightarrow> False | Some i \<Rightarrow> tk_tgid (threads st t) = tk_tgid (threads st i))"

definition signal_init_default_ignored :: "nat \<Rightarrow> int \<Rightarrow> sys \<Rightarrow> bool" where
  "signal_init_default_ignored t sig st =
     (if \<not> init_process_is_task t st \<or> sig = SIGSTOP then False
      else (signal_is_fatal_default sig \<or> sig = SIGTSTP) \<and> signal_handler_for_task t sig st = SIG_DFL)"

section \<open>Pending and blocked signals\<close>

definition task_shared_pending :: "nat \<Rightarrow> sys \<Rightarrow> u64" where
  "task_shared_pending t st = (case tk_signal (threads st t) of None \<Rightarrow> 0 | Some g \<Rightarrow> sg_pending (signals st g))"

definition signal_pending_mask :: "nat \<Rightarrow> sys \<Rightarrow> u64" where
  "signal_pending_mask t st = tk_pending (threads st t) OR task_shared_pending t st"

definition signal_pending :: "nat \<Rightarrow> sys \<Rightarrow> bool" where
  "signal_pending t st \<longleftrightarrow>
     signal_pending_mask t st AND NOT (tk_blocked (threads st t) AND NOT unblockable_mask) \<noteq> 0"

definition signal_fatal_pending :: "nat \<Rightarrow> sys \<Rightarrow> bool" where
  "signal_fatal_pending t st \<longleftrightarrow>
     signal_pending_mask t st AND signal_mask SIGKILL \<noteq> 0 \<and>
     (tk_forced (threads st t) AND signal_mask SIGKILL \<noteq> 0 \<or> \<not> signal_init_default_ignored t SIGKILL st)"

definition signal_block_mask :: "nat \<Rightarrow> u64 \<Rightarrow> sys \<Rightarrow> sys" where
  "signal_block_mask t mask' =
     upd_thread t (\<lambda>k. k\<lparr>tk_blocked := (tk_blocked k OR mask') AND NOT unblockable_mask\<rparr>)"

definition signal_unblock_mask :: "nat \<Rightarrow> u64 \<Rightarrow> sys \<Rightarrow> sys" where
  "signal_unblock_mask t mask' =
     upd_thread t (\<lambda>k. k\<lparr>tk_blocked := (tk_blocked k AND NOT mask') AND NOT unblockable_mask\<rparr>)"

definition signal_set_blocked_mask :: "nat \<Rightarrow> u64 \<Rightarrow> sys \<Rightarrow> sys" where
  "signal_set_blocked_mask t mask' = upd_thread t (\<lambda>k. k\<lparr>tk_blocked := mask' AND NOT unblockable_mask\<rparr>)"

definition signal_mark_pending :: "nat \<Rightarrow> u64 \<Rightarrow> sys \<Rightarrow> sys" where
  "signal_mark_pending t mask' = upd_thread t (\<lambda>k. k\<lparr>tk_pending := tk_pending k OR mask'\<rparr>)"

definition clear_info :: "u64 \<Rightarrow> siginfo list \<Rightarrow> siginfo list" where
  "clear_info mask' info =
     fold (\<lambda>sig xs. if mask' AND signal_mask (int sig) \<noteq> 0 then xs[sig := siginfo0] else xs) [1..<nat NSIG] info"

definition signal_clear_pending :: "nat \<Rightarrow> u64 \<Rightarrow> sys \<Rightarrow> sys" where
  "signal_clear_pending t mask' =
     upd_thread t (\<lambda>k. k\<lparr>tk_info := clear_info mask' (tk_info k), tk_pending := tk_pending k AND NOT mask',
       tk_forced := tk_forced k AND NOT mask'\<rparr>)"

definition signal_clear_opposite_pending :: "nat \<Rightarrow> int \<Rightarrow> sys \<Rightarrow> sys" where
  "signal_clear_opposite_pending t sig st =
     (if sig = SIGCONT then signal_clear_pending t signal_stop_mask st
      else if signal_is_stop_signal sig then signal_clear_pending t (signal_mask SIGCONT) st
      else st)"

definition signal_clear_shared_opposite_pending :: "int \<Rightarrow> signal_struct \<Rightarrow> signal_struct" where
  "signal_clear_shared_opposite_pending sig s =
     (let mask' = (if sig = SIGCONT then signal_stop_mask
                   else if signal_is_stop_signal sig then signal_mask SIGCONT else 0)
      in s\<lparr>sg_pending := sg_pending s AND NOT mask'\<rparr>)"

definition signal_clear_task_shared_opposite_pending :: "nat \<Rightarrow> int \<Rightarrow> sys \<Rightarrow> sys" where
  "signal_clear_task_shared_opposite_pending t sig st =
     (case tk_signal (threads st t) of
        None \<Rightarrow> st
      | Some g \<Rightarrow> upd_signal g (signal_clear_shared_opposite_pending sig) st)"

definition signal_defer_mask_restore :: "nat \<Rightarrow> u64 \<Rightarrow> sys \<Rightarrow> sys" where
  "signal_defer_mask_restore t mask' =
     upd_thread t (\<lambda>k. k\<lparr>tk_restore_mask := mask' AND NOT unblockable_mask, tk_restore_pending := True\<rparr>)"

definition signal_take_restore_mask :: "nat \<Rightarrow> sys \<Rightarrow> u64 \<times> sys" where
  "signal_take_restore_mask t st =
     (tk_restore_mask (threads st t),
      upd_thread t (\<lambda>k. k\<lparr>tk_restore_mask := 0, tk_restore_pending := False\<rparr>) st)"

definition signal_restore_deferred_mask :: "nat \<Rightarrow> sys \<Rightarrow> sys" where
  "signal_restore_deferred_mask t st =
     (if tk_restore_pending (threads st t) then
        case signal_take_restore_mask t st of (mask', st1) \<Rightarrow> signal_set_blocked_mask t mask' st1
      else st)"

section \<open>Signal state of a task\<close>

definition reset_task_altstack :: "nat \<Rightarrow> sys \<Rightarrow> sys" where
  "reset_task_altstack t = upd_thread t (\<lambda>k. k\<lparr>tk_sas := \<lparr>ss_sp = 0, ss_flags = SS_DISABLE, ss_size = 0\<rparr>\<rparr>)"

definition signal_clear_frames :: "nat \<Rightarrow> sys \<Rightarrow> sys" where
  "signal_clear_frames t = upd_thread t (\<lambda>k. k\<lparr>tk_frames := []\<rparr>)"

text \<open>
  The allocations are arguments: \<open>Some h\<close> is the object \<^verbatim>\<open>kmalloc\<close> returns, \<open>None\<close> a failure. \<open>None\<close> as a result of
  the model is a failed check of a reference count.
\<close>

definition sighand_alloc :: "nat \<Rightarrow> sys \<Rightarrow> sys" where
  "sighand_alloc h = upd_sighand h (\<lambda>_. \<lparr>sh_refs = 1, sh_actions = replicate (nat NSIG) sigaction0\<rparr>)"

definition sighand_dup :: "nat option \<Rightarrow> nat \<Rightarrow> sys \<Rightarrow> sys" where
  "sighand_dup old h st =
     (let st1 = sighand_alloc h st in
      case old of None \<Rightarrow> st1 | Some o' \<Rightarrow> upd_sighand h (\<lambda>s. s\<lparr>sh_actions := sh_actions (sighands st o')\<rparr>) st1)"

definition sighand_get :: "nat \<Rightarrow> sys \<Rightarrow> sys option" where
  "sighand_get h st =
     map_option (\<lambda>r. upd_sighand h (\<lambda>s. s\<lparr>sh_refs := r\<rparr>) st) (refcount_inc (sh_refs (sighands st h)))"

definition sighand_put :: "nat option \<Rightarrow> sys \<Rightarrow> sys option" where
  "sighand_put ho st =
     (case ho of
        None \<Rightarrow> Some st
      | Some h \<Rightarrow>
          map_option (\<lambda>(_, r). upd_sighand h (\<lambda>s. s\<lparr>sh_refs := r\<rparr>) st) (refcount_dec_and_test (sh_refs (sighands st h))))"

definition signal_state_alloc :: "nat \<Rightarrow> sys \<Rightarrow> sys" where
  "signal_state_alloc g = upd_signal g (\<lambda>_. \<lparr>sg_refs = 1, sg_pending = 0, sg_info = replicate (nat NSIG) siginfo0\<rparr>)"

definition signal_state_get :: "nat \<Rightarrow> sys \<Rightarrow> sys option" where
  "signal_state_get g st =
     map_option (\<lambda>r. upd_signal g (\<lambda>s. s\<lparr>sg_refs := r\<rparr>) st) (refcount_inc (sg_refs (signals st g)))"

definition signal_state_put :: "nat option \<Rightarrow> sys \<Rightarrow> sys option" where
  "signal_state_put go st =
     (case go of
        None \<Rightarrow> Some st
      | Some g \<Rightarrow>
          map_option (\<lambda>(_, r). upd_signal g (\<lambda>s. s\<lparr>sg_refs := r\<rparr>) st) (refcount_dec_and_test (sg_refs (signals st g))))"

definition clear_task_signals :: "nat \<Rightarrow> sys \<Rightarrow> sys" where
  "clear_task_signals t st =
     (let st1 = signal_set_blocked_mask t 0 st;
          st2 = signal_clear_pending t (- 1) st1;
          st3 = upd_thread t (\<lambda>k. k\<lparr>tk_forced := 0\<rparr>) st2;
          st4 = signal_clear_frames t st3
      in upd_thread t (\<lambda>k. k\<lparr>tk_restore_mask := 0, tk_restore_pending := False\<rparr>) st4)"

definition signals_init :: "nat option \<Rightarrow> nat option \<Rightarrow> nat \<Rightarrow> sys \<Rightarrow> ((errno + unit) \<times> sys) option" where
  "signals_init mem_h mem_g t st =
     (case mem_h of
        None \<Rightarrow> Some (Inl ENOMEM, st)
      | Some h \<Rightarrow>
          let st1 = upd_thread t (\<lambda>k. k\<lparr>tk_sighand := Some h\<rparr>) (sighand_alloc h st) in
          case mem_g of
            None \<Rightarrow>
              map_option (\<lambda>st2. (Inl ENOMEM, upd_thread t (\<lambda>k. k\<lparr>tk_sighand := None\<rparr>) st2)) (sighand_put (Some h) st1)
          | Some g \<Rightarrow>
              let st2 = upd_thread t (\<lambda>k. k\<lparr>tk_signal := Some g\<rparr>) (signal_state_alloc g st1) in
              Some (Inr (), reset_task_altstack t (clear_task_signals t st2)))"

definition signals_release :: "nat \<Rightarrow> sys \<Rightarrow> sys option" where
  "signals_release t st =
     (case sighand_put (tk_sighand (threads st t)) st of
        None \<Rightarrow> None
      | Some st1 \<Rightarrow>
          (case signal_state_put (tk_signal (threads st1 t)) st1 of
             None \<Rightarrow> None
           | Some st2 \<Rightarrow>
               Some (reset_task_altstack t (clear_task_signals t
                 (upd_thread t (\<lambda>k. k\<lparr>tk_sighand := None, tk_signal := None\<rparr>) st2)))))"

text \<open>The chain of frames is copied record by record; \<open>mem\<close> says for each allocation whether it succeeds.\<close>

fun signal_frame_clone :: "bool list \<Rightarrow> (u64 \<times> int) list \<Rightarrow> (u64 \<times> int) list option" where
  "signal_frame_clone mem [] = Some []"
| "signal_frame_clone [] (f # fs) = None"
| "signal_frame_clone (ok # mem) (f # fs) =
     (if \<not> ok then None else map_option ((#) f) (signal_frame_clone mem fs))"

definition clone_sighand :: "nat option \<Rightarrow> bool \<Rightarrow> sys \<Rightarrow> (errno + nat \<times> sys) option" where
  "clone_sighand mem_h share_sighand st =
     (let old = tk_sighand (threads st (current st)) in
      if share_sighand then
        (case old of None \<Rightarrow> Some (Inl EINVAL) | Some h \<Rightarrow> map_option (\<lambda>s. Inr (h, s)) (sighand_get h st))
      else case mem_h of None \<Rightarrow> Some (Inl ENOMEM) | Some h \<Rightarrow> Some (Inr (h, sighand_dup old h st)))"

definition clone_signal :: "nat option \<Rightarrow> bool \<Rightarrow> nat \<Rightarrow> sys \<Rightarrow> (errno \<times> sys + nat \<times> sys) option" where
  "clone_signal mem_g share_signal h st =
     (if share_signal then
        (case tk_signal (threads st (current st)) of
           None \<Rightarrow> map_option (\<lambda>s. Inl (EINVAL, s)) (sighand_put (Some h) st)
         | Some g \<Rightarrow> map_option (\<lambda>s. Inr (g, s)) (signal_state_get g st))
      else case mem_g of
          None \<Rightarrow> map_option (\<lambda>s. Inl (ENOMEM, s)) (sighand_put (Some h) st)
        | Some g \<Rightarrow> Some (Inr (g, signal_state_alloc g st)))"

definition clone_task :: "bool list \<Rightarrow> nat \<Rightarrow> nat \<Rightarrow> nat \<Rightarrow> bool \<Rightarrow> bool \<Rightarrow> sys \<Rightarrow> (errno + unit) \<times> sys" where
  "clone_task mem_f child h g share_signal disable_altstack st =
     (let cur = threads st (current st);
          st1 = upd_thread child (\<lambda>k. k\<lparr>tk_sighand := Some h, tk_signal := Some g\<rparr>) st;
          st2 = signal_set_blocked_mask child (tk_blocked cur) (clear_task_signals child st1)
      in case (if share_signal then Some [] else signal_frame_clone mem_f (tk_frames cur)) of
           None \<Rightarrow> (Inl ENOMEM, st2)
         | Some fs \<Rightarrow>
             let st3 = upd_thread child (\<lambda>k. k\<lparr>tk_frames := fs\<rparr>) st2 in
             (Inr (),
              if \<not> disable_altstack then
                upd_thread child (\<lambda>k. k\<lparr>tk_sas := (tk_sas cur)\<lparr>ss_flags := ss_flags (tk_sas cur) AND NOT SS_ONSTACK\<rparr>\<rparr>) st3
              else reset_task_altstack child st3))"

definition signals_clone :: "nat option \<Rightarrow> nat option \<Rightarrow> bool list \<Rightarrow> nat \<Rightarrow> bool \<Rightarrow> bool \<Rightarrow> bool \<Rightarrow> sys \<Rightarrow>
    ((errno + unit) \<times> sys) option" where
  "signals_clone mem_h mem_g mem_f child share_sighand share_signal disable_altstack st =
     (case clone_sighand mem_h share_sighand st of
        None \<Rightarrow> None
      | Some (Inl e) \<Rightarrow> Some (Inl e, st)
      | Some (Inr (h, st1)) \<Rightarrow>
          (case clone_signal mem_g share_signal h st1 of
             None \<Rightarrow> None
           | Some (Inl (e, st2)) \<Rightarrow> Some (Inl e, st2)
           | Some (Inr (g, st2)) \<Rightarrow>
               (case signals_release child st2 of
                  None \<Rightarrow> None
                | Some st3 \<Rightarrow> Some (clone_task mem_f child h g share_signal disable_altstack st3))))"

definition signals_execve :: "nat \<Rightarrow> sys \<Rightarrow> sys" where
  "signals_execve t st =
     (case tk_sighand (threads st t) of
        None \<Rightarrow> st
      | Some h \<Rightarrow>
          upd_sighand h (\<lambda>s. s\<lparr>sh_actions :=
            fold (\<lambda>sig xs. if sa_handler (xs ! sig) \<noteq> SIG_IGN then xs[sig := sigaction0] else xs) [1..<nat NSIG] (sh_actions s)\<rparr>) st)"

section \<open>Sending\<close>

text \<open>Waking: the change of the run state; putting the task on a run queue is theory \<open>Mlfq\<close>.\<close>

definition sched_wake_task :: "nat \<Rightarrow> sys \<Rightarrow> sys" where
  "sched_wake_task t = upd_thread t (\<lambda>k. k\<lparr>tk_state := TASK_RUNNING\<rparr>)"

definition task_is_group_leader :: "nat \<Rightarrow> sys \<Rightarrow> bool" where
  "task_is_group_leader t st \<longleftrightarrow> tk_leader (threads st t) = t"

definition task_child_publish_continue :: "nat \<Rightarrow> sys \<Rightarrow> sys" where
  "task_child_publish_continue t st =
     (if \<not> task_is_group_leader t st then st else st\<lparr>child_events := child_events st @ [PublishContinue t]\<rparr>)"

definition wake_signal_target :: "nat \<Rightarrow> int \<Rightarrow> sys \<Rightarrow> sys" where
  "wake_signal_target t sig st =
     (let state = tk_state (threads st t) in
      if state = TASK_INTERRUPTIBLE \<and>
         (signal_mask sig AND NOT (tk_blocked (threads st t)) \<noteq> 0 \<or> \<not> signal_is_catchable sig)
      then sched_wake_task t st
      else if state = TASK_KILLABLE \<and> signal_fatal_pending t st then sched_wake_task t st
      else if sig = SIGCONT \<and> state = TASK_STOPPED then sched_wake_task t (task_child_publish_continue t st)
      else if sig = SIGKILL \<and> (state = TASK_STOPPED \<or> state = TASK_UNINTERRUPTIBLE) then sched_wake_task t st
      else st)"

definition queue_signal :: "nat \<Rightarrow> int \<Rightarrow> siginfo \<Rightarrow> sys \<Rightarrow> sys" where
  "queue_signal t sig info st =
     (if tk_pending (threads st t) AND signal_mask sig = 0 then
        signal_mark_pending t (signal_mask sig)
          (upd_thread t (\<lambda>k. k\<lparr>tk_info := (tk_info k)[nat sig := info\<lparr>si_signo := sig\<rparr>]\<rparr>) st)
      else st)"

definition send_signal_info_internal ::
    "int \<Rightarrow> siginfo option \<Rightarrow> nat option \<Rightarrow> bool \<Rightarrow> sys \<Rightarrow> (errno + unit) \<times> sys" where
  "send_signal_info_internal sig info task force st =
     (if \<not> signal_is_valid sig then (Inl EINVAL, st)
      else case info of
        None \<Rightarrow> (Inl EINVAL, st)
      | Some i \<Rightarrow>
          if task_signal_target_dead task st then (Inl ESRCH, st)
          else
            let t = the task;
                st1 = signal_clear_opposite_pending t sig st;
                st2 = signal_clear_task_shared_opposite_pending t sig st1;
                st3 = queue_signal t sig i st2;
                st4 = (if force then upd_thread t (\<lambda>k. k\<lparr>tk_forced := tk_forced k OR signal_mask sig\<rparr>) st3 else st3)
            in (Inr (), wake_signal_target t sig st4))"

definition send_signal_info :: "int \<Rightarrow> siginfo option \<Rightarrow> nat option \<Rightarrow> sys \<Rightarrow> (errno + unit) \<times> sys" where
  "send_signal_info sig info task = send_signal_info_internal sig info task False"

definition kernel_info :: "int \<Rightarrow> siginfo" where
  "kernel_info sig = siginfo0\<lparr>si_signo := sig, si_code := SI_KERNEL\<rparr>"

definition send_signal :: "int \<Rightarrow> nat option \<Rightarrow> sys \<Rightarrow> (errno + unit) \<times> sys" where
  "send_signal sig task = send_signal_info sig (Some (kernel_info sig)) task"

definition send_current_signal :: "int \<Rightarrow> sys \<Rightarrow> (errno + unit) \<times> sys" where
  "send_current_signal sig st = send_signal sig (Some (current st)) st"

definition queue_shared :: "int \<Rightarrow> siginfo \<Rightarrow> signal_struct \<Rightarrow> signal_struct" where
  "queue_shared sig info s =
     (let s1 = signal_clear_shared_opposite_pending sig s in
      if sg_pending s1 AND signal_mask sig = 0 then
        s1\<lparr>sg_info := (sg_info s1)[nat sig := info\<lparr>si_signo := sig\<rparr>], sg_pending := sg_pending s1 OR signal_mask sig\<rparr>
      else s1)"

definition notify_thread :: "int \<Rightarrow> nat \<Rightarrow> sys \<Rightarrow> sys" where
  "notify_thread sig t st = wake_signal_target t sig (signal_clear_opposite_pending t sig st)"

definition send_group_signal_info :: "int \<Rightarrow> siginfo option \<Rightarrow> nat option \<Rightarrow> sys \<Rightarrow> (errno + unit) \<times> sys" where
  "send_group_signal_info sig info leader st =
     (if \<not> signal_is_valid sig then (Inl EINVAL, st)
      else case info of
        None \<Rightarrow> (Inl EINVAL, st)
      | Some i \<Rightarrow>
          if task_signal_target_dead leader st then (Inl ESRCH, st)
          else
            let l = the leader in
            case tk_signal (threads st l) of
              None \<Rightarrow> send_signal_info sig info leader st
            | Some g \<Rightarrow>
                let st1 = upd_signal g (queue_shared sig i) st;
                    st2 = notify_thread sig l st1
                in (Inr (),
                    if task_is_group_leader l st2 then fold (notify_thread sig) (tk_group (threads st2 l)) st2 else st2))"

definition send_group_signal :: "int \<Rightarrow> nat option \<Rightarrow> sys \<Rightarrow> (errno + unit) \<times> sys" where
  "send_group_signal sig leader = send_group_signal_info sig (Some (kernel_info sig)) leader"

definition signal_pending_info :: "nat \<Rightarrow> int \<Rightarrow> sys \<Rightarrow> errno + siginfo" where
  "signal_pending_info t sig st =
     (if \<not> signal_is_valid sig then Inl EINVAL
      else if tk_pending (threads st t) AND signal_mask sig = 0 then Inl ENOENT
      else Inr (tk_info (threads st t) ! nat sig))"

definition task_find_thread :: "int \<Rightarrow> sys \<Rightarrow> nat option" where
  "task_find_thread tid st = (case pid_task_get tid (registry st) of None \<Rightarrow> None | Some (t, _) \<Rightarrow> t)"

definition task_find_group_leader :: "int \<Rightarrow> sys \<Rightarrow> nat option" where
  "task_find_group_leader tgid st =
     (case task_find_thread tgid st of
        None \<Rightarrow> None
      | Some t \<Rightarrow> if \<not> task_is_group_leader t st \<or> tk_tgid (threads st t) \<noteq> tgid then None else Some t)"

definition task_in_thread_group :: "nat \<Rightarrow> int \<Rightarrow> sys \<Rightarrow> bool" where
  "task_in_thread_group t tgid st \<longleftrightarrow> tk_tgid (threads st t) = tgid"

definition task_is_user_process :: "nat \<Rightarrow> sys \<Rightarrow> bool" where
  "task_is_user_process t st \<longleftrightarrow> task_is_group_leader t st \<and> tk_user (threads st t)"

text \<open>The loop over all PIDs; \<open>probe_found\<close>, \<open>delivered\<close> and \<open>first_error\<close> are the variables of the source.\<close>

fun pgrp_loop :: "int \<Rightarrow> siginfo option \<Rightarrow> int \<Rightarrow> int \<Rightarrow> int list \<Rightarrow> bool \<times> bool \<times> errno option \<times> sys \<Rightarrow>
    bool \<times> bool \<times> errno option \<times> sys" where
  "pgrp_loop sig info pgid sid [] a = a"
| "pgrp_loop sig info pgid sid (pid # pids) (probe_found, delivered, first_error, st) =
     (case task_find_thread pid st of
        None \<Rightarrow> pgrp_loop sig info pgid sid pids (probe_found, delivered, first_error, st)
      | Some t \<Rightarrow>
          if \<not> task_is_group_leader t st \<or> tk_pgid (threads st t) \<noteq> pgid \<or> (sid \<noteq> 0 \<and> tk_sid (threads st t) \<noteq> sid)
          then pgrp_loop sig info pgid sid pids (probe_found, delivered, first_error, st)
          else if sig = 0 then pgrp_loop sig info pgid sid pids (True, delivered, first_error, st)
          else case send_group_signal_info sig info (Some t) st of
            (Inr _, st') \<Rightarrow> pgrp_loop sig info pgid sid pids (probe_found, True, first_error, st')
          | (Inl e, st') \<Rightarrow>
              pgrp_loop sig info pgid sid pids
                (probe_found, delivered, if e \<noteq> ESRCH \<and> first_error = None then Some e else first_error, st'))"

definition send_pgrp_signal_info :: "int \<Rightarrow> siginfo option \<Rightarrow> int \<Rightarrow> int \<Rightarrow> sys \<Rightarrow> (errno + unit) \<times> sys" where
  "send_pgrp_signal_info sig info pgid sid st =
     (if sig \<noteq> 0 \<and> (\<not> signal_is_valid sig \<or> info = None) then (Inl EINVAL, st)
      else if pgid \<le> 0 \<or> sid < 0 then (Inl ESRCH, st)
      else case pgrp_loop sig info pgid sid [1..PID_MAX] (False, False, None, st) of
        (probe_found, delivered, first_error, st') \<Rightarrow>
          (if sig = 0 then (if probe_found then Inr () else Inl ESRCH)
           else if delivered then Inr ()
           else case first_error of Some e \<Rightarrow> Inl e | None \<Rightarrow> Inl ESRCH,
           st'))"

definition send_pgrp_signal :: "int \<Rightarrow> int \<Rightarrow> sys \<Rightarrow> (errno + unit) \<times> sys" where
  "send_pgrp_signal sig pgid st =
     (if \<not> signal_is_valid sig then (Inl EINVAL, st)
      else send_pgrp_signal_info sig (Some (kernel_info sig)) pgid 0 st)"

definition send_session_pgrp_signal :: "int \<Rightarrow> int \<Rightarrow> int \<Rightarrow> sys \<Rightarrow> (errno + unit) \<times> sys" where
  "send_session_pgrp_signal sig pgid sid st =
     (if \<not> signal_is_valid sig then (Inl EINVAL, st)
      else if sid \<le> 0 then (Inl ESRCH, st)
      else send_pgrp_signal_info sig (Some (kernel_info sig)) pgid sid st)"

definition signal_frame_contains :: "nat \<Rightarrow> int \<Rightarrow> sys \<Rightarrow> bool" where
  "signal_frame_contains t sig st \<longleftrightarrow> list_ex (\<lambda>f. snd f = sig) (tk_frames (threads st t))"

text \<open>A call that may end the running task: \<open>Exits sig\<close> is \<^verbatim>\<open>do_exit_signal(sig)\<close>, which does not return.\<close>

datatype 'a or_exit = Exits int | Returns 'a

definition force_signal_info :: "int \<Rightarrow> siginfo option \<Rightarrow> nat option \<Rightarrow> sys \<Rightarrow> (errno + unit) or_exit \<times> sys" where
  "force_signal_info sig info task st =
     (if \<not> signal_is_valid sig then (Returns (Inl EINVAL), st)
      else case task of
        None \<Rightarrow> (Returns (Inl ESRCH), st)
      | Some t \<Rightarrow>
          if signal_frame_contains t sig st then (if t = current st then Exits sig else Returns (Inr ()), st)
          else
            let st1 = signal_unblock_mask t (signal_mask sig) st;
                st2 = (case tk_sighand (threads st1 t) of
                         None \<Rightarrow> st1
                       | Some h \<Rightarrow>
                           upd_sighand h (\<lambda>s.
                             if sa_handler (sh_actions s ! nat sig) = SIG_IGN then
                               s\<lparr>sh_actions := (sh_actions s)[nat sig := (sh_actions s ! nat sig)\<lparr>sa_handler := SIG_DFL\<rparr>]\<rparr>
                             else s) st1)
            in case send_signal_info_internal sig info task True st2 of (r, st3) \<Rightarrow> (Returns r, st3))"

definition force_signal :: "int \<Rightarrow> nat option \<Rightarrow> sys \<Rightarrow> (errno + unit) or_exit \<times> sys" where
  "force_signal sig task = force_signal_info sig (Some (kernel_info sig)) task"

section \<open>System calls\<close>

fun kill_all_loop :: "int \<Rightarrow> siginfo option \<Rightarrow> int \<Rightarrow> int list \<Rightarrow> bool \<times> errno option \<times> sys \<Rightarrow> bool \<times> errno option \<times> sys" where
  "kill_all_loop sig info caller_tgid [] a = a"
| "kill_all_loop sig info caller_tgid (nr # nrs) (found, first_error, st) =
     (case task_find_thread nr st of
        None \<Rightarrow> kill_all_loop sig info caller_tgid nrs (found, first_error, st)
      | Some t \<Rightarrow>
          if \<not> task_is_user_process t st \<or> tk_state (threads st t) = TASK_ZOMBIE \<or> tk_state (threads st t) = TASK_DEAD
          then kill_all_loop sig info caller_tgid nrs (found, first_error, st)
          else if init_process_is_task t st \<or> tk_tgid (threads st t) = caller_tgid
          then kill_all_loop sig info caller_tgid nrs (found, first_error, st)
          else if sig = 0 then kill_all_loop sig info caller_tgid nrs (True, first_error, st)
          else case send_group_signal_info sig info (Some t) st of
            (Inr _, st') \<Rightarrow> kill_all_loop sig info caller_tgid nrs (True, first_error, st')
          | (Inl e, st') \<Rightarrow>
              kill_all_loop sig info caller_tgid nrs (True, if first_error = None then Some e else first_error, st'))"

definition kill_all_processes :: "int \<Rightarrow> siginfo option \<Rightarrow> sys \<Rightarrow> (errno + unit) \<times> sys" where
  "kill_all_processes sig info st =
     (case kill_all_loop sig info (tk_tgid (threads st (current st))) [1..PID_MAX] (False, None, st) of
        (found, first_error, st') \<Rightarrow>
          (if \<not> found then Inl ESRCH else case first_error of Some e \<Rightarrow> Inl e | None \<Rightarrow> Inr (), st'))"

definition user_info :: "int \<Rightarrow> sys \<Rightarrow> siginfo" where
  "user_info sig st =
     siginfo0\<lparr>si_signo := sig, si_code := 0,
       si_fields := SiKill (tk_pid (threads st (current st))) (tk_uid (threads st (current st)))\<rparr>"

definition do_kill :: "int \<Rightarrow> int \<Rightarrow> sys \<Rightarrow> (errno + unit) \<times> sys" where
  "do_kill pid sig st =
     (if sig \<noteq> 0 \<and> \<not> signal_is_valid sig then (Inl EINVAL, st)
      else
        let info = Some (user_info sig st) in
        if pid = - 1 then kill_all_processes sig info st
        else if pid = 0 then send_pgrp_signal_info sig info (tk_pgid (threads st (current st))) 0 st
        else if pid < - 1 then
          (if - pid > PID_MAX then (Inl ESRCH, st) else send_pgrp_signal_info sig info (- pid) 0 st)
        else case task_find_group_leader pid st of
          None \<Rightarrow> (Inl ESRCH, st)
        | Some t \<Rightarrow> if sig = 0 then (Inr (), st) else send_group_signal_info sig info (Some t) st)"

definition do_tkill :: "int \<Rightarrow> int \<Rightarrow> sys \<Rightarrow> (errno + unit) \<times> sys" where
  "do_tkill tid sig st =
     (if sig \<noteq> 0 \<and> \<not> signal_is_valid sig then (Inl EINVAL, st)
      else if tid \<le> 0 then (Inl EINVAL, st)
      else case task_find_thread tid st of
        None \<Rightarrow> (Inl ESRCH, st)
      | Some t \<Rightarrow> if sig = 0 then (Inr (), st) else send_signal_info sig (Some (user_info sig st)) (Some t) st)"

definition do_tgkill :: "int \<Rightarrow> int \<Rightarrow> int \<Rightarrow> sys \<Rightarrow> (errno + unit) \<times> sys" where
  "do_tgkill tgid tid sig st =
     (if sig \<noteq> 0 \<and> \<not> signal_is_valid sig then (Inl EINVAL, st)
      else if tgid \<le> 0 \<or> tid \<le> 0 then (Inl EINVAL, st)
      else case task_find_thread tid st of
        None \<Rightarrow> (Inl ESRCH, st)
      | Some t \<Rightarrow>
          if \<not> task_in_thread_group t tgid st then (Inl ESRCH, st)
          else if sig = 0 then (Inr (), st)
          else send_signal_info sig (Some (user_info sig st)) (Some t) st)"

text \<open>The value for the second pointer of the next three calls is returned beside the result.\<close>

definition do_sigaltstack :: "stack_t option \<Rightarrow> sys \<Rightarrow> (errno + unit) \<times> stack_t \<times> sys" where
  "do_sigaltstack ss st =
     (let old = tk_sas (threads st (current st)) in
      case ss of
        None \<Rightarrow> (Inr (), old, st)
      | Some s \<Rightarrow>
          if ss_flags old AND SS_ONSTACK \<noteq> 0 then (Inl EPERM, old, st)
          else if ss_flags s \<noteq> 0 \<and> ss_flags s \<noteq> SS_DISABLE then (Inl EINVAL, old, st)
          else if ss_flags s AND SS_DISABLE \<noteq> 0 then (Inr (), old, reset_task_altstack (current st) st)
          else if ss_size s < MINSIGSTKSZ then (Inl ENOMEM, old, st)
          else (Inr (), old, upd_thread (current st) (\<lambda>k. k\<lparr>tk_sas := s\<lparr>ss_flags := ss_flags s AND NOT SS_ONSTACK\<rparr>\<rparr>) st))"

definition supported_flags :: u64 where
  "supported_flags = SA_SIGINFO OR SA_ONSTACK OR SA_RESTART OR SA_NODEFER OR SA_RESETHAND"

definition do_sigaction :: "int \<Rightarrow> sigaction option \<Rightarrow> bool \<Rightarrow> sys \<Rightarrow> (errno + unit) \<times> sigaction option \<times> sys" where
  "do_sigaction sig act want_old st =
     (let sighand = tk_sighand (threads st (current st)) in
      if \<not> signal_is_valid sig then (Inl EINVAL, None, st)
      else if \<not> signal_is_catchable sig \<and> act \<noteq> None then (Inl EINVAL, None, st)
      else if want_old \<and> sighand = None then (Inl EINVAL, None, st)
      else
        let old = (if want_old then map_option (\<lambda>h. sh_actions (sighands st h) ! nat sig) sighand else None) in
        case act of
          None \<Rightarrow> (Inr (), old, st)
        | Some kact \<Rightarrow>
            if sa_handler kact = SIG_ERR then (Inl EINVAL, old, st)
            else if sa_flags kact AND NOT supported_flags \<noteq> 0 then (Inl EINVAL, old, st)
            else case sighand of
              None \<Rightarrow> (Inl EINVAL, old, st)
            | Some h \<Rightarrow>
                (Inr (), old,
                 upd_sighand h (\<lambda>s. s\<lparr>sh_actions := (sh_actions s)[nat sig :=
                   kact\<lparr>sa_mask := sa_mask kact AND NOT unblockable_mask\<rparr>]\<rparr>) st))"

definition do_sigprocmask :: "int \<Rightarrow> u64 option \<Rightarrow> sys \<Rightarrow> (errno + unit) \<times> u64 \<times> sys" where
  "do_sigprocmask how set' st =
     (let old = tk_blocked (threads st (current st)) in
      case set' of
        None \<Rightarrow> (Inr (), old, st)
      | Some s \<Rightarrow>
          let newset = s AND NOT unblockable_mask in
          if how = 0 then (Inr (), old, signal_block_mask (current st) newset st)
          else if how = 1 then (Inr (), old, signal_unblock_mask (current st) newset st)
          else if how = 2 then (Inr (), old, signal_set_blocked_mask (current st) newset st)
          else (Inl EINVAL, old, st))"

end
