(* ===== verification/Sigframe.thy ===== *)
theory Sigframe
  imports Signal
begin

text \<open>
  Signals, \<^verbatim>\<open>kernel/signal.c\<close>, second part: the frame a handler runs on, its return, the choice of the next signal
  and the delivery loop \<^verbatim>\<open>do_signal\<close> that runs before every return to user mode, and the calls that wait for signals.
  A frame is written to user memory as the bytes of \<^verbatim>\<open>struct rt_sigframe\<close>.
\<close>

section \<open>Frames\<close>

definition SIGFRAME_SIZE :: nat where "SIGFRAME_SIZE = 1088"

definition SIGNAL_TRAMPOLINE_ADDR :: u64 where
  "SIGNAL_TRAMPOLINE_ADDR = USER_STACK_BASE - PAGE_SIZE - PAGE_SIZE"

definition signal_frame_sp :: "u64 \<Rightarrow> u64 \<Rightarrow> errno + u64" where
  "signal_frame_sp top' floor' =
     (if top' < of_nat SIGFRAME_SIZE then Inl EFAULT
      else
        let frame_sp = (top' - of_nat SIGFRAME_SIZE) AND NOT 0xf in
        if frame_sp < floor' then Inl EFAULT else Inr frame_sp)"

text \<open>\<^verbatim>\<open>struct user_regs_struct\<close>: 32 registers, as the list of its fields in order.\<close>

definition signal_save_user_regs :: "trap_frame \<Rightarrow> u64 list" where
  "signal_save_user_regs tf =
     [tf_sepc tf, tf_ra tf, tf_sp tf, tf_gp tf, tf_tp tf, tf_t0 tf, tf_t1 tf, tf_t2 tf, tf_s0 tf, tf_s1 tf, tf_a0 tf, tf_a1 tf,
      tf_a2 tf, tf_a3 tf, tf_a4 tf, tf_a5 tf, tf_a6 tf, tf_a7 tf, tf_s2 tf, tf_s3 tf, tf_s4 tf, tf_s5 tf, tf_s6 tf, tf_s7 tf,
      tf_s8 tf, tf_s9 tf, tf_s10 tf, tf_s11 tf, tf_t3 tf, tf_t4 tf, tf_t5 tf, tf_t6 tf]"

definition signal_restore_user_regs :: "trap_frame \<Rightarrow> u64 list \<Rightarrow> trap_frame" where
  "signal_restore_user_regs tf r =
     tf\<lparr>tf_sepc := r ! 0, tf_ra := r ! 1, tf_sp := r ! 2, tf_gp := r ! 3, tf_tp := r ! 4, tf_t0 := r ! 5, tf_t1 := r ! 6,
        tf_t2 := r ! 7, tf_s0 := r ! 8, tf_s1 := r ! 9, tf_a0 := r ! 10, tf_a1 := r ! 11, tf_a2 := r ! 12, tf_a3 := r ! 13,
        tf_a4 := r ! 14, tf_a5 := r ! 15, tf_a6 := r ! 16, tf_a7 := r ! 17, tf_s2 := r ! 18, tf_s3 := r ! 19,
        tf_s4 := r ! 20, tf_s5 := r ! 21, tf_s6 := r ! 22, tf_s7 := r ! 23, tf_s8 := r ! 24, tf_s9 := r ! 25,
        tf_s10 := r ! 26, tf_s11 := r ! 27, tf_t3 := r ! 28, tf_t4 := r ! 29, tf_t5 := r ! 30, tf_t6 := r ! 31\<rparr>"

record rt_sigframe =
  fr_info :: siginfo
  uc_flags :: u64
  uc_link :: u64
  uc_stack :: stack_t
  uc_sigmask :: u64
  uc_regs :: "u64 list"
  uc_fpregs :: "u8 list"

text \<open>
  The layout of \<^verbatim>\<open>uapi/siginfo.h\<close> and \<^verbatim>\<open>uapi/ucontext.h\<close>: 128 bytes of \<^verbatim>\<open>siginfo_t\<close>, then the context with its
  signal mask at 40, its registers at 176 and 528 bytes of extension state. Padding is zero.
\<close>

definition c_int :: "int \<Rightarrow> u8 list" where
  "c_int x = le_bytes 4 (unat (word_of_int x :: u32))"

fun fields_bytes :: "siginfo_fields \<Rightarrow> u8 list" where
  "fields_bytes (SiKill pid uid) = c_int pid @ le_bytes 4 (unat uid)"
| "fields_bytes (SiTimer tid overrun val priv) = c_int tid @ c_int overrun @ le_bytes 8 (unat val) @ c_int priv"
| "fields_bytes (SiChld pid uid status utime stime) =
     c_int pid @ le_bytes 4 (unat uid) @ c_int status @ c_int 0 @
     le_bytes 8 (unat (word_of_int utime :: u64)) @ le_bytes 8 (unat (word_of_int stime :: u64))"
| "fields_bytes (SiFault addr trapno) = le_bytes 8 (unat addr) @ c_int trapno"

definition pad_to :: "nat \<Rightarrow> u8 list \<Rightarrow> u8 list" where
  "pad_to n bs = bs @ replicate (n - length bs) 0"

definition frame_bytes :: "rt_sigframe \<Rightarrow> u8 list" where
  "frame_bytes f =
     pad_to 128 (c_int (si_signo (fr_info f)) @ c_int (si_errno (fr_info f)) @ c_int (si_code (fr_info f)) @ c_int 0 @
       fields_bytes (si_fields (fr_info f))) @
     pad_to 176 (le_bytes 8 (unat (uc_flags f)) @ le_bytes 8 (unat (uc_link f)) @
       le_bytes 8 (unat (ss_sp (uc_stack f))) @ le_bytes 4 (unat (ss_flags (uc_stack f))) @ replicate 4 0 @
       le_bytes 8 (unat (ss_size (uc_stack f))) @ le_bytes 8 (unat (uc_sigmask f))) @
     concat (map (\<lambda>r. le_bytes 8 (unat r)) (uc_regs f)) @ uc_fpregs f"

text \<open>What \<^verbatim>\<open>do_sigreturn\<close> reads of a frame; of the signal information it reads the number only.\<close>

definition u64_at :: "u8 list \<Rightarrow> nat \<Rightarrow> u64" where
  "u64_at bs i = of_nat (le_nat (take 8 (drop i bs)))"

definition u32_at :: "u8 list \<Rightarrow> nat \<Rightarrow> u32" where
  "u32_at bs i = of_nat (le_nat (take 4 (drop i bs)))"

definition frame_signo :: "u8 list \<Rightarrow> int" where
  "frame_signo bs = sint (u32_at bs 0)"

definition frame_stack :: "u8 list \<Rightarrow> stack_t" where
  "frame_stack bs = \<lparr>ss_sp = u64_at bs 144, ss_flags = u32_at bs 152, ss_size = u64_at bs 160\<rparr>"

definition frame_regs :: "u8 list \<Rightarrow> u64 list" where
  "frame_regs bs = map (\<lambda>i. u64_at bs (304 + 8 * i)) [0..<32]"

text \<open>
  \<^verbatim>\<open>setup_signal_frame\<close>: \<open>mem\<close> tells whether the allocation of the frame record succeeds. The frame is laid out on the
  alternate stack when the action asks for it and the thread has one and is not on it.
\<close>

definition setup_signal_frame ::
    "bool \<Rightarrow> trap_frame \<Rightarrow> int \<Rightarrow> siginfo \<Rightarrow> sigaction \<Rightarrow> sys \<Rightarrow> (errno + trap_frame) \<times> sys" where
  "setup_signal_frame mem tf sig info action st =
     (let t = current st;
          sas = tk_sas (threads st t);
          on_altstack = (sa_flags action AND SA_ONSTACK \<noteq> 0 \<and> ss_flags sas AND (SS_DISABLE OR SS_ONSTACK) = 0) in
      case (if on_altstack then
              (if ss_sp sas + ss_size sas < ss_sp sas then Inl EFAULT
               else signal_frame_sp (ss_sp sas + ss_size sas) (ss_sp sas))
            else signal_frame_sp (tf_sp tf) 0) of
        Inl e \<Rightarrow> (Inl EFAULT, st)
      | Inr sp \<Rightarrow>
          if \<not> access_ok sp (of_nat SIGFRAME_SIZE) then (Inl EFAULT, st)
          else
            case (if tk_restore_pending (threads st t) then signal_take_restore_mask t st
                  else (tk_blocked (threads st t), st)) of
              (sigmask, st1) \<Rightarrow>
                let frame = \<lparr>fr_info = info\<lparr>si_signo := sig\<rparr>, uc_flags = 0, uc_link = 0, uc_stack = sas,
                      uc_sigmask = sigmask, uc_regs = signal_save_user_regs tf, uc_fpregs = replicate 528 0\<rparr> in
                if \<not> mem then (Inl ENOMEM, st1)
                else
                  case copy_to_user (cur_mm st1) sp (frame_bytes frame) of
                    (left, mm') \<Rightarrow>
                      if left \<noteq> 0 then (Inl EFAULT, st1\<lparr>cur_mm := mm'\<rparr>)
                      else
                        let st2 = st1\<lparr>cur_mm := mm'\<rparr>;
                            st3 = (if sa_flags action AND SA_NODEFER = 0 then signal_block_mask t (signal_mask sig) st2 else st2);
                            st4 = signal_block_mask t (sa_mask action) st3;
                            st5 = upd_thread t (\<lambda>k. k\<lparr>tk_frames := (sp, sig) # tk_frames k\<rparr>) st4;
                            st6 = (if on_altstack then
                                     upd_thread t (\<lambda>k. k\<lparr>tk_sas := (tk_sas k)\<lparr>ss_flags := ss_flags (tk_sas k) OR SS_ONSTACK\<rparr>\<rparr>) st5
                                   else st5)
                        in (Inr (trap_setup_signal_handler tf (sa_handler action) SIGNAL_TRAMPOLINE_ADDR sp
                                   (word_of_int sig) sp (sp + 128)),
                            st6))"

text \<open>
  \<^verbatim>\<open>do_sigreturn\<close>: every rejected frame ends the process with \<^verbatim>\<open>SIGSEGV\<close>; otherwise the value of \<^verbatim>\<open>a0\<close>.
\<close>

definition do_sigreturn :: "trap_frame \<Rightarrow> u64 \<Rightarrow> sys \<Rightarrow> u64 or_exit \<times> trap_frame \<times> sys" where
  "do_sigreturn tf sp st =
     (let t = current st in
      case tk_frames (threads st t) of
        [] \<Rightarrow> (Exits SIGSEGV, tf, st)
      | (fsp, fsig) # frames \<Rightarrow>
          if fsp \<noteq> sp then (Exits SIGSEGV, tf, st)
          else case copy_from_user (cur_mm st) sp SIGFRAME_SIZE of
            (left, bs) \<Rightarrow>
              if left \<noteq> 0 then (Exits SIGSEGV, tf, st)
              else if frame_signo bs \<noteq> fsig then (Exits SIGSEGV, tf, st)
              else if u64_at bs 128 \<noteq> 0 \<or> u64_at bs 136 \<noteq> 0 then (Exits SIGSEGV, tf, st)
              else
                let regs = frame_regs bs;
                    pc = regs ! 0;
                    usp = regs ! 2;
                    stack = frame_stack bs in
                if pc AND 1 \<noteq> 0 \<or> \<not> access_ok pc 1 then (Exits SIGSEGV, tf, st)
                else if usp AND 0xf \<noteq> 0 \<or> usp = 0 \<or> \<not> access_ok (usp - 1) 1 then (Exits SIGSEGV, tf, st)
                else if ss_flags stack \<noteq> 0 \<and> ss_flags stack \<noteq> SS_DISABLE then (Exits SIGSEGV, tf, st)
                else if ss_flags stack AND SS_DISABLE = 0 \<and>
                        (ss_size stack < MINSIGSTKSZ \<or> \<not> access_ok (ss_sp stack) (ss_size stack)) then (Exits SIGSEGV, tf, st)
                else if list_ex (\<lambda>b. b \<noteq> 0) (drop 560 bs) then (Exits SIGSEGV, tf, st)
                else
                  let tf' = signal_restore_user_regs tf regs;
                      st1 = signal_set_blocked_mask t (u64_at bs 168) st;
                      st2 = upd_thread t (\<lambda>k. k\<lparr>tk_frames := frames\<rparr>) st1;
                      st3 = upd_thread t (\<lambda>k. k\<lparr>tk_sas := stack\<rparr>) st2
                  in (Returns (tf_a0 tf'), tf', st3))"

section \<open>Choosing a signal\<close>

definition lowest_signal :: "u64 \<Rightarrow> int" where
  "lowest_signal set' =
     (case List.find (\<lambda>sig. set' AND signal_mask sig \<noteq> 0) [1..NSIG - 1] of None \<Rightarrow> 0 | Some sig \<Rightarrow> sig)"

definition next_signal :: "sys \<Rightarrow> int \<times> bool" where
  "next_signal st =
     (let t = current st;
          shared_pending = task_shared_pending t st;
          pending = (tk_pending (threads st t) OR shared_pending) AND (push_bit (nat (NSIG - 1)) 1 - 1);
          deliverable = pending AND NOT (tk_blocked (threads st t) AND NOT unblockable_mask) in
      if deliverable = 0 then (0, False)
      else
        let sig = lowest_signal deliverable in
        if sig = 0 then (0, False)
        else (sig, tk_pending (threads st t) AND signal_mask sig = 0 \<and> shared_pending AND signal_mask sig \<noteq> 0))"

definition take_shared_pending_from_set :: "u64 \<Rightarrow> sys \<Rightarrow> (int \<times> siginfo) option \<times> sys" where
  "take_shared_pending_from_set set' st =
     (case tk_signal (threads st (current st)) of
        None \<Rightarrow> (None, st)
      | Some g \<Rightarrow>
          let sig = lowest_signal (sg_pending (signals st g) AND set') in
          if sig = 0 then (None, st)
          else (Some (sig, sg_info (signals st g) ! nat sig),
                upd_signal g (\<lambda>s. s\<lparr>sg_pending := sg_pending s AND NOT (signal_mask sig),
                  sg_info := (sg_info s)[nat sig := siginfo0]\<rparr>) st))"

definition take_shared_pending :: "int \<Rightarrow> sys \<Rightarrow> (errno + siginfo) \<times> sys" where
  "take_shared_pending sig st =
     (case take_shared_pending_from_set (signal_mask sig) st of
        (None, st') \<Rightarrow> (Inl ENOENT, st')
      | (Some (s, info), st') \<Rightarrow> (if s = sig then Inr info else Inl ENOENT, st'))"

definition take_pending_from_set :: "u64 \<Rightarrow> sys \<Rightarrow> (int \<times> siginfo) option \<times> sys" where
  "take_pending_from_set set' st =
     (let t = current st;
          sig = lowest_signal (tk_pending (threads st t) AND set') in
      if sig = 0 then take_shared_pending_from_set set' st
      else case signal_pending_info t sig st of
        Inl _ \<Rightarrow> take_shared_pending_from_set set' st
      | Inr info \<Rightarrow> (Some (sig, info), signal_clear_pending t (signal_mask sig) st))"

definition get_signal_action :: "int \<Rightarrow> sys \<Rightarrow> sigaction" where
  "get_signal_action sig st =
     (case tk_sighand (threads st (current st)) of
        None \<Rightarrow> sigaction0
      | Some h \<Rightarrow> sh_actions (sighands st h) ! nat sig)"

definition reset_signal_action :: "int \<Rightarrow> sys \<Rightarrow> sys" where
  "reset_signal_action sig st =
     (case tk_sighand (threads st (current st)) of
        None \<Rightarrow> st
      | Some h \<Rightarrow> upd_sighand h (\<lambda>s. s\<lparr>sh_actions := (sh_actions s)[nat sig := sigaction0]\<rparr>) st)"

section \<open>Delivery\<close>

definition task_restart :: "bool \<Rightarrow> trap_frame \<Rightarrow> sys \<Rightarrow> trap_frame \<times> sys" where
  "task_restart sa_restart tf st =
     (case restart_for_signal (tk_restart (threads st (current st))) tf sa_restart of
        (_, ctx, tf') \<Rightarrow> (tf', upd_thread (current st) (\<lambda>k. k\<lparr>tk_restart := ctx\<rparr>) st))"

definition stop_current :: "int \<Rightarrow> sys \<Rightarrow> sys" where
  "stop_current sig st =
     (let t = current st;
          st1 = upd_thread t (\<lambda>k. k\<lparr>tk_state := TASK_STOPPED\<rparr>) st in
      if \<not> task_is_group_leader t st1 then st1
      else st1\<lparr>child_events := child_events st1 @ [PublishStop t sig]\<rparr>)"

text \<open>
  One round of the loop of \<^verbatim>\<open>do_signal\<close>. It ends the loop with no signal left, with a handler to run, or with the end
  of the process; \<open>SigStopped\<close> is the call of \<^verbatim>\<open>schedule\<close> in \<^verbatim>\<open>stop_current\<close>: the task leaves the processor there and,
  once continued, goes round the loop again, which is a new run of \<open>do_signal\<close> on the state of that moment.
\<close>

datatype sig_outcome = SigNone | SigHandler int | SigExit int | SigStopped int

datatype sig_round = Again trap_frame sys | Ends sig_outcome trap_frame sys

definition take_signal :: "int \<Rightarrow> bool \<Rightarrow> sys \<Rightarrow> (errno + siginfo) \<times> sys" where
  "take_signal sig shared st =
     (if shared then take_shared_pending sig st
      else case signal_pending_info (current st) sig st of
        Inl e \<Rightarrow> (Inl e, st)
      | Inr info \<Rightarrow> (Inr info, signal_clear_pending (current st) (signal_mask sig) st))"

definition enter_handler :: "bool \<Rightarrow> int \<Rightarrow> siginfo \<Rightarrow> sigaction \<Rightarrow> trap_frame \<Rightarrow> sys \<Rightarrow> sig_round" where
  "enter_handler mem sig info action tf st =
     (let st1 = (if sa_flags action AND SA_RESETHAND \<noteq> 0 then reset_signal_action sig st else st) in
      case rseq_signal_deliver (tk_rseq (threads st1 (current st1))) tf (cur_mm st1) of
        (r, tf2, ctx, mm') \<Rightarrow>
          let st2 = (upd_thread (current st1) (\<lambda>k. k\<lparr>tk_rseq := ctx\<rparr>) st1)\<lparr>cur_mm := mm'\<rparr> in
          case r of
            Inl _ \<Rightarrow> Ends (SigExit SIGSEGV) tf2 st2
          | Inr _ \<Rightarrow>
              (case task_restart (sa_flags action AND SA_RESTART \<noteq> 0) tf2 st2 of
                 (tf3, st3) \<Rightarrow>
                   (case setup_signal_frame mem tf3 sig info action st3 of
                      (Inl _, st4) \<Rightarrow> Ends (SigExit SIGSEGV) tf3 st4
                    | (Inr tf4, st4) \<Rightarrow> Ends (SigHandler sig) tf4 st4)))"

definition signal_round :: "bool \<Rightarrow> trap_frame \<Rightarrow> sys \<Rightarrow> sig_round" where
  "signal_round mem tf st =
     (case next_signal st of (sig, shared) \<Rightarrow>
        if sig = 0 then Ends SigNone tf (signal_restore_deferred_mask (current st) st)
        else
          let action = get_signal_action sig st;
              handler = sa_handler action;
              forced = (\<not> shared \<and> tk_forced (threads st (current st)) AND signal_mask sig \<noteq> 0) in
          case take_signal sig shared st of
            (Inl _, st1) \<Rightarrow> Again tf st1
          | (Inr info, st1) \<Rightarrow>
              (case (if handler = SIG_IGN \<or> handler = SIG_DFL then task_restart False tf st1 else (tf, st1)) of
                 (tf2, st2) \<Rightarrow>
                   if \<not> forced \<and> handler = SIG_DFL \<and> signal_init_default_ignored (current st2) sig st2 then Again tf2 st2
                   else if sig = SIGCONT \<and> (handler = SIG_DFL \<or> handler = SIG_IGN) then Again tf2 st2
                   else if signal_stops_default sig handler then Ends (SigStopped sig) tf2 (stop_current sig st2)
                   else if sig = SIGKILL then Ends (SigExit sig) tf2 st2
                   else if handler = SIG_IGN then Again tf2 st2
                   else if handler = SIG_DFL then
                     (if signal_is_fatal_default sig then Ends (SigExit sig) tf2 st2 else Again tf2 st2)
                   else enter_handler mem sig info action tf2 st2))"

partial_function (option) do_signal :: "bool \<Rightarrow> trap_frame \<Rightarrow> sys \<Rightarrow> (sig_outcome \<times> trap_frame \<times> sys) option" where
  "do_signal mem tf st =
     (case signal_round mem tf st of
        Ends r tf' st' \<Rightarrow> Some (r, tf', st')
      | Again tf' st' \<Rightarrow> do_signal mem tf' st')"

section \<open>Waiting for signals\<close>

datatype wait_outcome = WAIT_OUTCOME_EVENT | WAIT_OUTCOME_TIMEOUT | WAIT_OUTCOME_SIGNAL

text \<open>
  The sleep \<^verbatim>\<open>wait_for\<close> is an argument: what it returns and the state when the task runs again. A failed \<^verbatim>\<open>BUG_ON\<close> is
  \<open>None\<close>.
\<close>

definition signal_sigsuspend :: "(sys \<Rightarrow> (errno + wait_outcome) \<times> sys) \<Rightarrow> u64 \<Rightarrow> sys \<Rightarrow> (errno \<times> sys) option" where
  "signal_sigsuspend wait_for mask' st =
     (let t = current st;
          blocked = tk_blocked (threads st t) in
      case wait_for (signal_set_blocked_mask t mask' st) of
        (Inl e, st1) \<Rightarrow> Some (e, signal_set_blocked_mask t blocked st1)
      | (Inr outcome, st1) \<Rightarrow>
          if outcome \<noteq> WAIT_OUTCOME_SIGNAL then None
          else Some (EINTR, signal_defer_mask_restore t blocked st1))"

definition signal_wait_pending ::
    "(sys \<Rightarrow> (errno + wait_outcome) \<times> sys) \<Rightarrow> u64 \<Rightarrow> errno option \<Rightarrow> bool \<Rightarrow> sys \<Rightarrow> ((errno + int \<times> siginfo) \<times> sys) option" where
  "signal_wait_pending wait_for set0 deadline_error zero_timeout st =
     (case deadline_error of
        Some e \<Rightarrow> Some (Inl e, st)
      | None \<Rightarrow>
          let set' = set0 AND NOT unblockable_mask;
              t = current st in
          case take_pending_from_set set' st of
            (Some si, st1) \<Rightarrow> Some (Inr si, st1)
          | (None, st1) \<Rightarrow>
              if zero_timeout then Some (Inl EAGAIN, st1)
              else
                let blocked = tk_blocked (threads st1 t) in
                case wait_for (signal_set_blocked_mask t (blocked AND NOT set') st1) of
                  (r, st2) \<Rightarrow>
                    let st3 = signal_set_blocked_mask t blocked st2 in
                    case r of
                      Inl e \<Rightarrow> Some (Inl e, st3)
                    | Inr outcome \<Rightarrow>
                        (case take_pending_from_set set' st3 of
                           (Some si, st4) \<Rightarrow> Some (Inr si, st4)
                         | (None, st4) \<Rightarrow>
                             if outcome = WAIT_OUTCOME_TIMEOUT then Some (Inl EAGAIN, st4)
                             else if outcome \<noteq> WAIT_OUTCOME_SIGNAL then None
                             else Some (Inl EINTR, st4)))"

end
