(* ===== verification/Siginv.thy ===== *)
theory Siginv
  imports Sigframe
begin

text \<open>
  The invariant of the signal state: every operation of theories \<open>Signal\<close> and \<open>Sigframe\<close> keeps it. In particular
  \<^verbatim>\<open>SIGKILL\<close> and \<^verbatim>\<open>SIGSTOP\<close> can never be blocked, caught or ignored.
\<close>

section \<open>Signal sets as sets of bits\<close>

lemma u64_zero_iff: "(w :: u64) = 0 \<longleftrightarrow> (\<forall>n. \<not> bit w n)"
  by (auto intro: bit_word_eqI)

lemma bit_lt_u64: "bit (w :: u64) n \<Longrightarrow> n < 64"
  using bit_imp_le_length [of w n] by simp

lemma bit_andnot: "bit (a AND NOT b) n \<longleftrightarrow> bit a n \<and> \<not> bit (b :: u64) n"
  by (auto simp: bit_simps dest: bit_lt_u64)

lemma bit_signal_mask: "signal_is_valid sig \<Longrightarrow> bit (signal_mask sig) n \<longleftrightarrow> n = nat (sig - 1)"
  by (auto simp: signal_mask_def signal_is_valid_def NSIG_def bit_simps bit_1_iff)

lemma has_signal: "signal_is_valid sig \<Longrightarrow> m AND signal_mask sig \<noteq> 0 \<longleftrightarrow> bit m (nat (sig - 1))"
  by (simp add: u64_zero_iff bit_and_iff bit_signal_mask)

lemma has_signal_0: "signal_is_valid sig \<Longrightarrow> m AND signal_mask sig = 0 \<longleftrightarrow> \<not> bit m (nat (sig - 1))"
  using has_signal by blast

lemma bit_unblockable: "bit unblockable_mask n \<longleftrightarrow> n = 8 \<or> n = 18"
  by (simp add: unblockable_mask_def bit_simps bit_signal_mask signal_is_valid_def sig_defs)

lemma bit_stop_mask: "bit signal_stop_mask n \<longleftrightarrow> n = 18 \<or> n = 19 \<or> n = 20 \<or> n = 21"
  by (simp add: signal_stop_mask_def bit_simps bit_signal_mask signal_is_valid_def sig_defs)

lemma blockable_iff: "m AND unblockable_mask = 0 \<longleftrightarrow> \<not> bit m 8 \<and> \<not> bit (m :: u64) 18"
  by (auto simp: u64_zero_iff bit_and_iff bit_unblockable)

definition all_signals :: u64 where "all_signals = push_bit 31 1 - 1"

lemma bit_all_signals: "bit all_signals n \<longleftrightarrow> n < 31"
proof -
  have "all_signals = mask 31" by (simp add: all_signals_def mask_eq_exp_minus_1 push_bit_eq_mult)
  then have "bit all_signals n \<longleftrightarrow> bit (mask 31 :: u64) n" by simp
  then show ?thesis by (auto simp: bit_mask_iff)
qed

definition within :: "u64 \<Rightarrow> u64 \<Rightarrow> bool" where "within a b \<longleftrightarrow> a AND NOT b = 0"

lemma within_iff: "within a b \<longleftrightarrow> (\<forall>n. bit a n \<longrightarrow> bit b n)"
  by (auto simp: within_def u64_zero_iff bit_andnot)

lemma within_signals: "within m all_signals \<longleftrightarrow> (\<forall>n. bit m n \<longrightarrow> n < 31)"
  by (simp add: within_iff bit_all_signals)

section \<open>Well-formed signal state\<close>

text \<open>
  The recorded information of each pending signal carries that signal's number; \<^verbatim>\<open>SIGKILL\<close> and \<^verbatim>\<open>SIGSTOP\<close> are never
  blocked, neither now nor by a mask that is to be restored or that an action adds, and never have a disposition of their own.
\<close>

definition infos_ok :: "u64 \<Rightarrow> siginfo list \<Rightarrow> bool" where
  "infos_ok p xs \<longleftrightarrow> within p all_signals \<and> length xs = 32 \<and>
     list_all (\<lambda>i. bit p (i - 1) \<longrightarrow> si_signo (xs ! i) = int i) [1..<32]"

definition sas_ok :: "stack_t \<Rightarrow> bool" where
  "sas_ok s \<longleftrightarrow> ss_flags s \<in> {0, SS_ONSTACK, SS_DISABLE} \<and> (ss_flags s \<noteq> SS_DISABLE \<longrightarrow> ss_size s \<ge> MINSIGSTKSZ)"

definition thread_ok :: "thread \<Rightarrow> bool" where
  "thread_ok k \<longleftrightarrow>
     tk_blocked k AND unblockable_mask = 0 \<and> tk_restore_mask k AND unblockable_mask = 0 \<and>
     infos_ok (tk_pending k) (tk_info k) \<and> within (tk_forced k) (tk_pending k) \<and>
     list_all (\<lambda>f. signal_is_valid (snd f) \<and> fst f AND 0xf = 0) (tk_frames k) \<and> sas_ok (tk_sas k)"

definition action_ok :: "sigaction \<Rightarrow> bool" where
  "action_ok a \<longleftrightarrow> sa_mask a AND unblockable_mask = 0"

definition sighand_ok :: "sighand_struct \<Rightarrow> bool" where
  "sighand_ok s \<longleftrightarrow> length (sh_actions s) = 32 \<and> list_all action_ok (sh_actions s) \<and>
     sa_handler (sh_actions s ! nat SIGKILL) = SIG_DFL \<and> sa_handler (sh_actions s ! nat SIGSTOP) = SIG_DFL"

definition signal_ok :: "signal_struct \<Rightarrow> bool" where
  "signal_ok s \<longleftrightarrow> infos_ok (sg_pending s) (sg_info s)"

definition sig_inv :: "sys \<Rightarrow> bool" where
  "sig_inv st \<longleftrightarrow>
     (\<forall>t. thread_ok (threads st t)) \<and> (\<forall>h. sighand_ok (sighands st h)) \<and> (\<forall>g. signal_ok (signals st g))"

lemma sig_invD:
  assumes "sig_inv st"
  shows "thread_ok (threads st t)" and "sighand_ok (sighands st h)" and "signal_ok (signals st g)"
  using assms by (auto simp: sig_inv_def)

named_theorems sig_keeps \<open>operations that keep the invariant of the signal state\<close>

lemma upd_thread_inv: "sig_inv st \<Longrightarrow> (\<And>k. thread_ok k \<Longrightarrow> thread_ok (f k)) \<Longrightarrow> sig_inv (upd_thread t f st)"
  by (simp add: sig_inv_def upd_thread_def)

lemma upd_sighand_inv: "sig_inv st \<Longrightarrow> (\<And>s. sighand_ok s \<Longrightarrow> sighand_ok (f s)) \<Longrightarrow> sig_inv (upd_sighand h f st)"
  by (simp add: sig_inv_def upd_sighand_def)

lemma upd_signal_inv: "sig_inv st \<Longrightarrow> (\<And>s. signal_ok s \<Longrightarrow> signal_ok (f s)) \<Longrightarrow> sig_inv (upd_signal g f st)"
  by (simp add: sig_inv_def upd_signal_def)

lemma sig_inv_other [simp]:
  "sig_inv (st\<lparr>cur_mm := m\<rparr>) = sig_inv st" "sig_inv (st\<lparr>child_events := c\<rparr>) = sig_inv st"
  by (simp_all add: sig_inv_def)

lemma upd_other [simp]:
  "current (upd_thread t f st) = current st" "current (upd_sighand h fh st) = current st" "current (upd_signal g fg st) = current st"
  "threads (upd_sighand h fh st) = threads st" "threads (upd_signal g fg st) = threads st"
  "sighands (upd_thread t f st) = sighands st" "signals (upd_thread t f st) = signals st"
  "sighands (upd_signal g fg st) = sighands st" "signals (upd_sighand h fh st) = signals st"
  "init_task (upd_thread t f st) = init_task st" "cur_mm (upd_thread t f st) = cur_mm st"
  "cur_mm (upd_sighand h fh st) = cur_mm st" "cur_mm (upd_signal g fg st) = cur_mm st"
  "init_task (upd_signal g fg st) = init_task st" "init_task (upd_sighand h fh st) = init_task st"
  by (simp_all add: upd_thread_def upd_sighand_def upd_signal_def)

lemma threads_upd: "threads (upd_thread t f st) u = (if u = t then f (threads st t) else threads st u)"
  by (simp add: upd_thread_def)

lemma signals_upd: "signals (upd_signal g f st) u = (if u = g then f (signals st g) else signals st u)"
  by (simp add: upd_signal_def)

lemma sighands_upd: "sighands (upd_sighand g f st) u = (if u = g then f (sighands st g) else sighands st u)"
  by (simp add: upd_sighand_def)

text \<open>Recorded information.\<close>

lemma fold_clear:
  fixes ns :: "nat list"
  shows "length (fold (\<lambda>i xs. if P i then xs[i := z] else xs) ns xs) = length xs"
    and "i < length xs \<Longrightarrow>
      fold (\<lambda>i xs. if P i then xs[i := z] else xs) ns xs ! i = (if i \<in> set ns \<and> P i then z else xs ! i)"
  by (induction ns arbitrary: xs) (auto simp: nth_list_update split: if_splits, metis nth_list_update_neq)

lemma clear_info_nth:
  "length (clear_info m xs) = length xs"
  "i < length xs \<Longrightarrow> clear_info m xs ! i = (if 1 \<le> i \<and> i < 32 \<and> bit m (i - 1) then siginfo0 else xs ! i)"
  unfolding clear_info_def
  by (auto simp: fold_clear NSIG_def has_signal signal_is_valid_def nat_diff_distrib')

lemma infos_okI:
  assumes "length xs = 32" and "\<And>n. bit p n \<Longrightarrow> n < 31 \<and> si_signo (xs ! Suc n) = int (Suc n)"
  shows "infos_ok p xs"
proof -
  have "si_signo (xs ! i) = int i" if "1 \<le> i" "bit p (i - 1)" for i
    using assms(2) [OF that(2)] that(1) by simp
  then show ?thesis using assms by (auto simp: infos_ok_def within_signals list_all_iff)
qed

lemma infos_okD:
  "infos_ok p xs \<Longrightarrow> length xs = 32" "infos_ok p xs \<Longrightarrow> bit p n \<Longrightarrow> n < 31"
  "infos_ok p xs \<Longrightarrow> bit p n \<Longrightarrow> si_signo (xs ! Suc n) = int (Suc n)"
proof -
  assume ok: "infos_ok p xs"
  show "length xs = 32" using ok by (simp add: infos_ok_def)
  assume b: "bit p n"
  then show "n < 31" using ok by (simp add: infos_ok_def within_signals)
  then show "si_signo (xs ! Suc n) = int (Suc n)"
    using ok b by (auto simp: infos_ok_def list_all_iff dest!: bspec [of _ _ "Suc n"])
qed

lemma infos_ok_clear: "infos_ok p xs \<Longrightarrow> infos_ok (p AND NOT m) (clear_info m xs)"
proof (rule infos_okI)
  fix n
  assume ok: "infos_ok p xs" and "bit (p AND NOT m) n"
  then have b: "bit p n" "\<not> bit m n" unfolding bit_andnot by blast+
  then show "n < 31 \<and> si_signo (clear_info m xs ! Suc n) = int (Suc n)"
    using infos_okD(1) [OF ok] infos_okD(2,3) [OF ok b(1)] by (simp add: clear_info_nth)
qed (simp add: clear_info_nth infos_okD(1))

lemma infos_ok_sub: "infos_ok p xs \<Longrightarrow> infos_ok (p AND q) xs"
  by (rule infos_okI) (auto simp: bit_and_iff dest: infos_okD)

lemma infos_ok_zero: "length xs = 32 \<Longrightarrow> infos_ok 0 xs"
  by (rule infos_okI) auto

lemma valid_cases:
  assumes "signal_is_valid sig"
  obtains n where "n < 31" "nat sig = Suc n" "nat (sig - 1) = n" "sig = int (Suc n)"
  using assms by (intro that [of "nat (sig - 1)"]) (auto simp: signal_is_valid_def NSIG_def)

lemma infos_ok_put:
  assumes "infos_ok p xs" and "signal_is_valid sig"
  shows "infos_ok (p OR signal_mask sig) (xs[nat sig := info\<lparr>si_signo := sig\<rparr>])"
proof -
  obtain n where n: "n < 31" "nat sig = Suc n" "nat (sig - 1) = n" "sig = int (Suc n)" using assms(2) by (rule valid_cases)
  show ?thesis
  proof (rule infos_okI)
    fix m
    assume "bit (p OR signal_mask sig) m"
    then have m: "m = n \<or> bit p m" unfolding bit_or_iff bit_signal_mask [OF assms(2)] n(3) by blast
    show "m < 31 \<and> si_signo (xs[nat sig := info\<lparr>si_signo := sig\<rparr>] ! Suc m) = int (Suc m)"
    proof (cases "m = n")
      case True
      then show ?thesis using n(1) infos_okD(1) [OF assms(1)] unfolding n(2) by (simp add: n(4))
    next
      case False
      then show ?thesis using m infos_okD(2,3) [OF assms(1), of m] unfolding n(2) by simp
    qed
  qed (simp add: infos_okD(1) [OF assms(1)])
qed

lemma infos_ok_take:
  assumes "infos_ok p xs" and "signal_is_valid sig"
  shows "infos_ok (p AND NOT (signal_mask sig)) (xs[nat sig := siginfo0])"
proof -
  obtain n where n: "n < 31" "nat sig = Suc n" "nat (sig - 1) = n" "sig = int (Suc n)" using assms(2) by (rule valid_cases)
  show ?thesis
  proof (rule infos_okI)
    fix m
    assume "bit (p AND NOT (signal_mask sig)) m"
    then have "m \<noteq> n" "bit p m" unfolding bit_andnot bit_signal_mask [OF assms(2)] n(3) by blast+
    then show "m < 31 \<and> si_signo (xs[nat sig := siginfo0] ! Suc m) = int (Suc m)"
      using infos_okD(2,3) [OF assms(1), of m] unfolding n(2) by simp
  qed (simp add: infos_okD(1) [OF assms(1)])
qed

section \<open>Masks and pending sets\<close>

lemma blockable_andnot [simp]: "(m AND NOT unblockable_mask) AND unblockable_mask = 0"
  by (simp add: blockable_iff bit_andnot bit_unblockable)

lemma blocked_inv [sig_keeps]:
  assumes "sig_inv st"
  shows "sig_inv (signal_block_mask t m st)" and "sig_inv (signal_unblock_mask t m st)" and "sig_inv (signal_set_blocked_mask t m st)"
    and "sig_inv (signal_defer_mask_restore t m st)"
  unfolding signal_block_mask_def signal_unblock_mask_def signal_set_blocked_mask_def signal_defer_mask_restore_def
  by (rule upd_thread_inv [OF assms], simp add: thread_ok_def)+

lemma signal_clear_pending_inv [sig_keeps]: "sig_inv st \<Longrightarrow> sig_inv (signal_clear_pending t m st)"
  unfolding signal_clear_pending_def
  by (rule upd_thread_inv) (simp_all add: thread_ok_def infos_ok_clear within_iff bit_andnot)

lemma signal_clear_opposite_inv [sig_keeps]:
  "sig_inv st \<Longrightarrow> sig_inv (signal_clear_opposite_pending t sig st)"
  "sig_inv st \<Longrightarrow> sig_inv (signal_clear_task_shared_opposite_pending t sig st)"
  unfolding signal_clear_opposite_pending_def signal_clear_task_shared_opposite_pending_def
  by (auto intro!: sig_keeps upd_signal_inv simp: signal_ok_def signal_clear_shared_opposite_pending_def Let_def infos_ok_sub
      split: option.splits)

lemma take_restore_inv [sig_keeps]: "sig_inv st \<Longrightarrow> sig_inv (snd (signal_take_restore_mask t st))"
  unfolding signal_take_restore_mask_def snd_conv by (rule upd_thread_inv) (simp_all add: thread_ok_def)

lemma restore_deferred_inv [sig_keeps]: "sig_inv st \<Longrightarrow> sig_inv (signal_restore_deferred_mask t st)"
  unfolding signal_restore_deferred_mask_def using take_restore_inv [of st t]
  by (auto intro!: sig_keeps split: prod.splits)

lemma queue_signal_inv:
  assumes "sig_inv st" and "signal_is_valid sig"
  shows "sig_inv (queue_signal t sig info st)" and "bit (tk_pending (threads (queue_signal t sig info st) t)) (nat (sig - 1))"
proof -
  have "sig_inv (upd_thread t (\<lambda>k. k\<lparr>tk_info := (tk_info k)[nat sig := info\<lparr>si_signo := sig\<rparr>],
      tk_pending := tk_pending k OR signal_mask sig\<rparr>) st)"
    by (rule upd_thread_inv [OF assms(1)])
      (simp add: thread_ok_def infos_ok_put [OF _ assms(2)] within_iff bit_or_iff)
  moreover have "signal_mark_pending t (signal_mask sig)
      (upd_thread t (\<lambda>k. k\<lparr>tk_info := (tk_info k)[nat sig := info\<lparr>si_signo := sig\<rparr>]\<rparr>) st) =
    upd_thread t (\<lambda>k. k\<lparr>tk_info := (tk_info k)[nat sig := info\<lparr>si_signo := sig\<rparr>],
      tk_pending := tk_pending k OR signal_mask sig\<rparr>) st"
    by (simp add: signal_mark_pending_def upd_thread_def)
  ultimately show "sig_inv (queue_signal t sig info st)" using assms(1) by (simp add: queue_signal_def)
  show "bit (tk_pending (threads (queue_signal t sig info st) t)) (nat (sig - 1))"
    using assms(2) by (auto simp: queue_signal_def signal_mark_pending_def threads_upd has_signal_0 bit_or_iff bit_signal_mask)
qed

lemma force_inv:
  assumes "sig_inv st" and "bit (tk_pending (threads st t)) (nat (sig - 1))" and "signal_is_valid sig"
  shows "sig_inv (upd_thread t (\<lambda>k. k\<lparr>tk_forced := tk_forced k OR signal_mask sig\<rparr>) st)"
  using assms by (auto simp: sig_inv_def thread_ok_def threads_upd within_iff bit_or_iff bit_signal_mask)

section \<open>Sending\<close>

lemma run_state_inv: "sig_inv st \<Longrightarrow> sig_inv (upd_thread t (\<lambda>k. k\<lparr>tk_state := s\<rparr>) st)"
  by (rule upd_thread_inv) (simp_all add: thread_ok_def)

lemma wake_inv [sig_keeps]: "sig_inv st \<Longrightarrow> sig_inv (wake_signal_target t sig st)"
  by (simp add: wake_signal_target_def Let_def sched_wake_task_def run_state_inv task_child_publish_continue_def)

lemma send_internal_inv [sig_keeps]:
  assumes "sig_inv st"
  shows "sig_inv (snd (send_signal_info_internal sig info task force st))"
proof (cases "signal_is_valid sig \<and> (\<exists>i. info = Some i) \<and> \<not> task_signal_target_dead task st")
  case True
  then obtain i where i: "info = Some i" by blast
  define st2 where "st2 = signal_clear_task_shared_opposite_pending (the task) sig (signal_clear_opposite_pending (the task) sig st)"
  define st3 where "st3 = queue_signal (the task) sig i st2"
  have "sig_inv st2" unfolding st2_def by (intro sig_keeps assms)
  then have "sig_inv st3" "bit (tk_pending (threads st3 (the task))) (nat (sig - 1))"
    unfolding st3_def using True queue_signal_inv [of st2 sig "the task" i] by auto
  then have "sig_inv (if force then upd_thread (the task) (\<lambda>k. k\<lparr>tk_forced := tk_forced k OR signal_mask sig\<rparr>) st3 else st3)"
    using True force_inv by simp
  then show ?thesis using True i
    by (cases force) (simp_all add: send_signal_info_internal_def Let_def wake_inv st2_def [symmetric] st3_def [symmetric])
next
  case False
  then show ?thesis using assms by (auto simp: send_signal_info_internal_def split: option.splits)
qed

lemma send_inv [sig_keeps]:
  "sig_inv st \<Longrightarrow> sig_inv (snd (send_signal_info sig info task st))"
  "sig_inv st \<Longrightarrow> sig_inv (snd (send_signal sig task st))"
  "sig_inv st \<Longrightarrow> sig_inv (snd (send_current_signal sig st))"
  by (simp_all add: send_signal_info_def send_signal_def send_current_signal_def send_internal_inv)

lemma notify_inv [sig_keeps]: "sig_inv st \<Longrightarrow> sig_inv (notify_thread sig t st)"
  unfolding notify_thread_def by (intro sig_keeps)

lemma notify_all_inv [sig_keeps]: "sig_inv st \<Longrightarrow> sig_inv (fold (notify_thread sig) ts st)"
  by (induction ts arbitrary: st) (simp_all add: notify_inv)

lemma queue_shared_ok: "signal_ok s \<Longrightarrow> signal_is_valid sig \<Longrightarrow> signal_ok (queue_shared sig info s)"
  by (simp add: signal_ok_def queue_shared_def signal_clear_shared_opposite_pending_def Let_def infos_ok_sub infos_ok_put)

lemma send_group_inv [sig_keeps]:
  assumes "sig_inv st"
  shows "sig_inv (snd (send_group_signal_info sig info leader st))"
    and "sig_inv (snd (send_group_signal sig leader st))"
proof -
  show *: "sig_inv (snd (send_group_signal_info sig info leader st))" for info
    using assms
    by (auto simp: send_group_signal_info_def Let_def queue_shared_ok intro!: sig_keeps upd_signal_inv split: option.splits)
  show "sig_inv (snd (send_group_signal sig leader st))" unfolding send_group_signal_def by (rule *)
qed

lemma pgrp_loop_inv:
  "sig_inv (snd (snd (snd a))) \<Longrightarrow> sig_inv (snd (snd (snd (pgrp_loop sig info pgid sid pids a))))"
proof (induction sig info pgid sid pids a rule: pgrp_loop.induct)
  case (2 sig info pgid sid pid pids pf dl fe st)
  have "sig_inv st'" if "send_group_signal_info sig info (Some t) st = (r, st')" for t r st'
    using send_group_inv(1) [of st sig info "Some t"] that 2(6) by simp
  with 2 show ?case by (auto split: option.splits prod.splits sum.splits)
qed simp

lemma send_pgrp_inv [sig_keeps]:
  assumes "sig_inv st"
  shows "sig_inv (snd (send_pgrp_signal_info sig info pgid sid st))"
    and "sig_inv (snd (send_pgrp_signal sig pgid st))" and "sig_inv (snd (send_session_pgrp_signal sig pgid sid st))"
proof -
  show *: "sig_inv (snd (send_pgrp_signal_info sig info pgid sid st))" for info sid
    using assms pgrp_loop_inv [of "(False, False, None, st)" sig info pgid sid "[1..PID_MAX]"]
    by (auto simp: send_pgrp_signal_info_def split: prod.splits)
  show "sig_inv (snd (send_pgrp_signal sig pgid st))" "sig_inv (snd (send_session_pgrp_signal sig pgid sid st))"
    using * assms by (simp_all add: send_pgrp_signal_def send_session_pgrp_signal_def)
qed

lemma kill_all_loop_inv:
  "sig_inv (snd (snd a)) \<Longrightarrow> sig_inv (snd (snd (kill_all_loop sig info tgid nrs a)))"
proof (induction sig info tgid nrs a rule: kill_all_loop.induct)
  case (2 sig info tgid nr nrs fd fe st)
  have "sig_inv st'" if "send_group_signal_info sig info (Some t) st = (r, st')" for t r st'
    using send_group_inv(1) [of st sig info "Some t"] that 2(7) by simp
  with 2 show ?case by (auto split: option.splits prod.splits sum.splits)
qed simp

lemma kill_inv [sig_keeps]:
  assumes "sig_inv st"
  shows "sig_inv (snd (kill_all_processes sig info st))" and "sig_inv (snd (do_kill pid sig st))"
    and "sig_inv (snd (do_tkill pid sig st))" and "sig_inv (snd (do_tgkill tgid pid sig st))"
proof -
  show *: "sig_inv (snd (kill_all_processes sig info st))" for info
    using assms kill_all_loop_inv [of "(False, None, st)" sig info "tk_tgid (threads st (current st))" "[1..PID_MAX]"]
    by (auto simp: kill_all_processes_def split: prod.splits)
  show "sig_inv (snd (do_kill pid sig st))"
    using * assms by (auto simp: do_kill_def Let_def intro!: sig_keeps split: option.splits)
  show "sig_inv (snd (do_tkill pid sig st))" "sig_inv (snd (do_tgkill tgid pid sig st))"
    using assms by (auto simp: do_tkill_def do_tgkill_def intro!: sig_keeps split: option.splits)
qed

section \<open>Dispositions\<close>

lemma action0_ok [simp]: "action_ok sigaction0" "sa_handler sigaction0 = SIG_DFL"
  by (simp_all add: action_ok_def sigaction0_def SIG_DFL_def)

lemma sighand_update:
  assumes "sighand_ok s" and "action_ok a" and "sa_handler a = SIG_DFL \<or> (i \<noteq> nat SIGKILL \<and> i \<noteq> nat SIGSTOP)"
  shows "sighand_ok (s\<lparr>sh_actions := (sh_actions s)[i := a]\<rparr>)"
proof -
  have "list_all action_ok ((sh_actions s)[i := a])"
    using assms(1,2) set_update_subset_insert [of "sh_actions s" i a] unfolding sighand_ok_def list_all_iff by blast
  then show ?thesis using assms unfolding sighand_ok_def
    by (cases "i < 32") (auto simp: nth_list_update sig_defs list_update_beyond)
qed

lemma sighand_ok_refs [simp]: "sighand_ok (s\<lparr>sh_refs := r\<rparr>) = sighand_ok s" "signal_ok (g\<lparr>sg_refs := r\<rparr>) = signal_ok g"
  by (simp_all add: sighand_ok_def signal_ok_def)

lemma sighand_ok_nth: "sighand_ok s \<Longrightarrow> i < 32 \<Longrightarrow> action_ok (sh_actions s ! i)"
  by (simp add: sighand_ok_def list_all_length)

lemma force_action_ok:
  assumes "sighand_ok s" and "signal_is_valid sig"
  shows "sighand_ok (s\<lparr>sh_actions := (sh_actions s)[nat sig := (sh_actions s ! nat sig)\<lparr>sa_handler := SIG_DFL\<rparr>]\<rparr>)"
proof (rule sighand_update [OF assms(1)])
  show "action_ok ((sh_actions s ! nat sig)\<lparr>sa_handler := SIG_DFL\<rparr>)"
    using sighand_ok_nth [OF assms(1), of "nat sig"] assms(2)
    by (simp add: action_ok_def signal_is_valid_def NSIG_def nat_less_iff)
qed simp

lemma force_signal_inv [sig_keeps]: "sig_inv st \<Longrightarrow> sig_inv (snd (force_signal_info sig info task st))"
proof -
  assume inv: "sig_inv st"
  have "sig_inv (signal_unblock_mask t m st)" for t m by (intro sig_keeps inv)
  then have "sig_inv (case tk_sighand (threads (signal_unblock_mask t m st) t) of
                         None \<Rightarrow> signal_unblock_mask t m st
                       | Some h \<Rightarrow>
                           upd_sighand h (\<lambda>s.
                             if sa_handler (sh_actions s ! nat sig) = SIG_IGN then
                               s\<lparr>sh_actions := (sh_actions s)[nat sig := (sh_actions s ! nat sig)\<lparr>sa_handler := SIG_DFL\<rparr>]\<rparr>
                             else s) (signal_unblock_mask t m st))" if "signal_is_valid sig" for t m
    using force_action_ok [OF _ that] by (auto intro!: upd_sighand_inv split: option.splits)
  then have "sig_inv (snd (force_signal_info sig info (Some t) st))" for t
    using inv send_internal_inv unfolding force_signal_info_def Let_def by (simp add: case_prod_beta)
  then show ?thesis using inv by (cases task) (simp_all add: force_signal_info_def)
qed

lemma do_sigaction_inv [sig_keeps]: "sig_inv st \<Longrightarrow> sig_inv (snd (snd (do_sigaction sig act want st)))"
proof -
  assume inv: "sig_inv st"
  have "sig_inv (upd_sighand h (\<lambda>s. s\<lparr>sh_actions := (sh_actions s)[nat sig := k\<lparr>sa_mask := sa_mask k AND NOT unblockable_mask\<rparr>]\<rparr>) st)"
    if "signal_is_valid sig" "signal_is_catchable sig" for h k
  proof (rule upd_sighand_inv [OF inv], rule sighand_update)
    show "sa_handler (k\<lparr>sa_mask := sa_mask k AND NOT unblockable_mask\<rparr>) = SIG_DFL \<or> nat sig \<noteq> nat SIGKILL \<and> nat sig \<noteq> nat SIGSTOP"
      using that by (auto simp: signal_is_valid_def signal_is_catchable_def sig_defs)
  qed (simp_all add: action_ok_def)
  then show ?thesis using inv by (auto simp: do_sigaction_def Let_def split: option.splits)
qed

lemma do_sigprocmask_inv [sig_keeps]: "sig_inv st \<Longrightarrow> sig_inv (snd (snd (do_sigprocmask how m st)))"
  by (auto simp: do_sigprocmask_def Let_def intro!: sig_keeps split: option.splits)

lemma sas_inv: "sig_inv st \<Longrightarrow> sas_ok s \<Longrightarrow> sig_inv (upd_thread t (\<lambda>k. k\<lparr>tk_sas := s\<rparr>) st)"
  by (rule upd_thread_inv) (simp_all add: thread_ok_def)

lemma reset_altstack_inv [sig_keeps]: "sig_inv st \<Longrightarrow> sig_inv (reset_task_altstack t st)"
  unfolding reset_task_altstack_def by (rule sas_inv) (simp_all add: sas_ok_def)

lemma do_sigaltstack_inv [sig_keeps]: "sig_inv st \<Longrightarrow> sig_inv (snd (snd (do_sigaltstack ss st)))"
  by (auto simp: do_sigaltstack_def Let_def sas_ok_def not_less intro!: sig_keeps sas_inv split: option.splits)

lemma fold_keeps: "P a \<Longrightarrow> (\<And>x a. x \<in> set xs \<Longrightarrow> P a \<Longrightarrow> P (f x a)) \<Longrightarrow> P (fold f xs a)"
  by (induction xs arbitrary: a) auto

lemma signals_execve_inv [sig_keeps]:
  assumes "sig_inv st"
  shows "sig_inv (signals_execve t st)"
proof -
  have "sighand_ok (s\<lparr>sh_actions := fold (\<lambda>sig xs. if sa_handler (xs ! sig) \<noteq> SIG_IGN then xs[sig := sigaction0] else xs) ns (sh_actions s)\<rparr>)"
    if "sighand_ok s" for s ns
    using that
  proof (induction ns arbitrary: s)
    case (Cons n ns)
    have "sighand_ok (s\<lparr>sh_actions := if sa_handler (sh_actions s ! n) \<noteq> SIG_IGN then (sh_actions s)[n := sigaction0] else sh_actions s\<rparr>)"
      using Cons.prems sighand_update [of s sigaction0 n] by simp
    from Cons.IH [OF this] show ?case by simp
  qed simp
  then show ?thesis using assms by (auto simp: signals_execve_def intro!: upd_sighand_inv split: option.splits)
qed

section \<open>Sharing signal state\<close>

lemma sighand_alloc_inv [sig_keeps]:
  "sig_inv st \<Longrightarrow> sig_inv (sighand_alloc h st)" "sig_inv st \<Longrightarrow> sig_inv (signal_state_alloc g st)"
  unfolding sighand_alloc_def signal_state_alloc_def
  by (auto intro!: upd_sighand_inv upd_signal_inv simp: sighand_ok_def signal_ok_def infos_ok_zero sig_defs list_all_iff)

lemma sighand_dup_inv [sig_keeps]: "sig_inv st \<Longrightarrow> sig_inv (sighand_dup old h st)"
  using sighand_alloc_inv(1) [of st h]
  by (auto simp: sighand_dup_def Let_def sig_inv_def upd_sighand_def sighand_ok_def split: option.splits)

lemma refs_inv:
  "sig_inv st \<Longrightarrow> sighand_get h st = Some st' \<Longrightarrow> sig_inv st'"
  "sig_inv st \<Longrightarrow> signal_state_get g st = Some st' \<Longrightarrow> sig_inv st'"
  "sig_inv st \<Longrightarrow> sighand_put ho st = Some st' \<Longrightarrow> sig_inv st'"
  "sig_inv st \<Longrightarrow> signal_state_put go st = Some st' \<Longrightarrow> sig_inv st'"
  by (auto simp: sighand_get_def signal_state_get_def sighand_put_def signal_state_put_def
      intro!: upd_sighand_inv upd_signal_inv split: option.splits)

lemma thread_refs_inv:
  "sig_inv st \<Longrightarrow> sig_inv (upd_thread t (\<lambda>k. k\<lparr>tk_sighand := h\<rparr>) st)"
  "sig_inv st \<Longrightarrow> sig_inv (upd_thread t (\<lambda>k. k\<lparr>tk_signal := g\<rparr>) st)"
  "sig_inv st \<Longrightarrow> sig_inv (upd_thread t (\<lambda>k. k\<lparr>tk_sighand := h, tk_signal := g\<rparr>) st)"
  by (rule upd_thread_inv; simp add: thread_ok_def)+

lemma clear_task_signals_inv [sig_keeps]: "sig_inv st \<Longrightarrow> sig_inv (clear_task_signals t st)"
proof -
  assume "sig_inv st"
  then have "sig_inv (signal_clear_pending t (- 1) (signal_set_blocked_mask t 0 st))" by (intro sig_keeps)
  then have "sig_inv (upd_thread t (\<lambda>k. k\<lparr>tk_forced := 0\<rparr>) (signal_clear_pending t (- 1) (signal_set_blocked_mask t 0 st)))"
    by (rule upd_thread_inv) (simp add: thread_ok_def within_iff)
  then have "sig_inv (signal_clear_frames t
      (upd_thread t (\<lambda>k. k\<lparr>tk_forced := 0\<rparr>) (signal_clear_pending t (- 1) (signal_set_blocked_mask t 0 st))))"
    unfolding signal_clear_frames_def by (rule upd_thread_inv) (simp add: thread_ok_def)
  then show ?thesis unfolding clear_task_signals_def Let_def by (rule upd_thread_inv) (simp add: thread_ok_def)
qed

lemma frames_inv:
  "sig_inv st \<Longrightarrow> list_all (\<lambda>f. signal_is_valid (snd f) \<and> fst f AND 0xf = 0) fs \<Longrightarrow>
   sig_inv (upd_thread t (\<lambda>k. k\<lparr>tk_frames := fs\<rparr>) st)"
  by (rule upd_thread_inv) (simp_all add: thread_ok_def)

lemma signals_init_inv:
  assumes "sig_inv st" and "signals_init mem_h mem_g t st = Some (r, st')"
  shows "sig_inv st'"
proof (cases mem_h)
  case None
  then show ?thesis using assms by (simp add: signals_init_def)
next
  case (Some h)
  define st1 where "st1 = upd_thread t (\<lambda>k. k\<lparr>tk_sighand := Some h\<rparr>) (sighand_alloc h st)"
  have st1: "sig_inv st1" unfolding st1_def by (intro thread_refs_inv sig_keeps assms(1))
  show ?thesis
  proof (cases mem_g)
    case None
    then obtain st2 where "sighand_put (Some h) st1 = Some st2" "st' = upd_thread t (\<lambda>k. k\<lparr>tk_sighand := None\<rparr>) st2"
      using assms(2) Some by (auto simp: signals_init_def Let_def st1_def)
    then show ?thesis using refs_inv(3) [OF st1] thread_refs_inv(1) by blast
  next
    case g: (Some g)
    then have "st' = reset_task_altstack t (clear_task_signals t
        (upd_thread t (\<lambda>k. k\<lparr>tk_signal := Some g\<rparr>) (signal_state_alloc g st1)))"
      using assms(2) Some by (simp add: signals_init_def Let_def st1_def)
    then show ?thesis
      by (simp add: reset_altstack_inv clear_task_signals_inv thread_refs_inv(2) sighand_alloc_inv(2) st1)
  qed
qed

lemma signals_release_inv: "sig_inv st \<Longrightarrow> signals_release t st = Some st' \<Longrightarrow> sig_inv st'"
  unfolding signals_release_def
  by (auto intro!: reset_altstack_inv clear_task_signals_inv thread_refs_inv(3) dest: refs_inv(3,4) split: option.splits)

lemma frame_clone_eq: "signal_frame_clone mem fs = Some gs \<Longrightarrow> gs = fs"
  by (induction mem fs arbitrary: gs rule: signal_frame_clone.induct) (auto split: if_splits)

lemma clone_task_inv:
  assumes "sig_inv st"
  shows "sig_inv (snd (clone_task mem_f child h g share_signal dis st))"
proof -
  define st2 where "st2 = signal_set_blocked_mask child (tk_blocked (threads st (current st)))
    (clear_task_signals child (upd_thread child (\<lambda>k. k\<lparr>tk_sighand := Some h, tk_signal := Some g\<rparr>) st))"
  have st2: "sig_inv st2" unfolding st2_def by (intro sig_keeps thread_refs_inv assms)
  have cur: "thread_ok (threads st (current st))" by (rule sig_invD(1) [OF assms])
  then have sas: "sas_ok ((tk_sas (threads st (current st)))\<lparr>ss_flags := ss_flags (tk_sas (threads st (current st))) AND NOT SS_ONSTACK\<rparr>)"
    by (auto simp: thread_ok_def sas_ok_def SS_ONSTACK_def SS_DISABLE_def)
  have fr: "sig_inv (upd_thread child (\<lambda>k. k\<lparr>tk_frames := fs\<rparr>) st2)"
    if "(if share_signal then Some [] else signal_frame_clone mem_f (tk_frames (threads st (current st)))) = Some fs" for fs
    by (rule frames_inv [OF st2])
      (use that cur in \<open>auto simp: thread_ok_def dest!: frame_clone_eq split: if_splits\<close>)
  show ?thesis
    using st2 sas_inv [OF fr sas] reset_altstack_inv [OF fr] unfolding clone_task_def Let_def st2_def [symmetric]
    by (auto split: option.splits)
qed

lemma signals_clone_inv:
  assumes inv: "sig_inv st" and cl: "signals_clone mem_h mem_g mem_f child sh sg dis st = Some (r, st')"
  shows "sig_inv st'"
proof -
  have h: "sig_inv st1" if "clone_sighand mem_h sh st = Some (Inr (h, st1))" for h st1
    using that inv refs_inv(1) [OF inv]
    by (auto simp: clone_sighand_def Let_def intro: sighand_dup_inv split: if_splits option.splits)
  have g: "sig_inv st2"
    if "sig_inv st1" "clone_signal mem_g sg h st1 = Some (Inl (e, st2)) \<or> clone_signal mem_g sg h st1 = Some (Inr (g, st2))" for h st1 e g st2
    using that refs_inv(2,3) [OF that(1)]
    by (auto simp: clone_signal_def intro: sighand_alloc_inv split: if_splits option.splits)
  show ?thesis
    using cl inv unfolding signals_clone_def
    by (auto split: option.splits sum.splits prod.splits) (metis clone_task_inv g h signals_release_inv snd_conv)+
qed

section \<open>Delivery\<close>

lemma access_inv: "sig_inv st \<Longrightarrow> thread_ok (threads st t)"
  by (rule sig_invD)

lemma find_signal_valid:
  assumes "lowest_signal m = sig" and "sig \<noteq> 0"
  shows "signal_is_valid sig" and "bit m (nat (sig - 1))"
proof -
  have f: "List.find (\<lambda>sig. m AND signal_mask sig \<noteq> 0) [1..NSIG - 1] = Some sig"
    using assms by (auto simp: lowest_signal_def split: option.splits)
  then show v: "signal_is_valid sig" using find_SomeD [OF f] by (auto simp: signal_is_valid_def)
  show "bit m (nat (sig - 1))" using find_SomeD [OF f] has_signal [OF v] by simp
qed

lemma take_shared_set_inv: "sig_inv st \<Longrightarrow> sig_inv (snd (take_shared_pending_from_set m st))"
  by (auto simp: take_shared_pending_from_set_def Let_def signal_ok_def
      intro!: upd_signal_inv infos_ok_take find_signal_valid(1) [OF refl] split: option.splits)

lemma take_shared_inv: "sig_inv st \<Longrightarrow> sig_inv (snd (take_shared_pending sig st))"
  using take_shared_set_inv [of st "signal_mask sig"]
  by (auto simp: take_shared_pending_def split: option.splits prod.splits)

lemma take_pending_inv: "sig_inv st \<Longrightarrow> sig_inv (snd (take_pending_from_set m st))"
  by (auto simp: take_pending_from_set_def Let_def intro!: take_shared_set_inv signal_clear_pending_inv split: sum.splits)

lemma take_signal_inv: "sig_inv st \<Longrightarrow> sig_inv (snd (take_signal sig shared st))"
  by (auto simp: take_signal_def intro!: take_shared_inv signal_clear_pending_inv split: sum.splits)

lemma reset_signal_action_inv: "sig_inv st \<Longrightarrow> sig_inv (reset_signal_action sig st)"
  by (auto simp: reset_signal_action_def intro!: upd_sighand_inv sighand_update split: option.splits)

lemma task_restart_inv: "sig_inv st \<Longrightarrow> sig_inv (snd (task_restart sa tf st))"
  by (auto simp: task_restart_def thread_ok_def intro!: upd_thread_inv split: prod.splits)

lemma stop_current_inv: "sig_inv st \<Longrightarrow> sig_inv (stop_current sig st)"
  by (simp add: stop_current_def Let_def run_state_inv)

lemma altstack_enter_inv:
  assumes "sig_inv st" and "ss_flags (tk_sas (threads st t)) AND (SS_DISABLE OR SS_ONSTACK) = 0"
  shows "sig_inv (upd_thread t (\<lambda>k. k\<lparr>tk_sas := (tk_sas k)\<lparr>ss_flags := ss_flags (tk_sas k) OR SS_ONSTACK\<rparr>\<rparr>) st)"
proof -
  have ok: "sas_ok (tk_sas (threads st t))" using sig_invD(1) [OF assms(1)] by (simp add: thread_ok_def)
  then have "ss_flags (tk_sas (threads st t)) = 0"
    using assms(2) by (auto simp: sas_ok_def SS_DISABLE_def SS_ONSTACK_def)
  then show ?thesis
    using assms(1) ok by (auto simp: sig_inv_def threads_upd thread_ok_def sas_ok_def SS_DISABLE_def SS_ONSTACK_def)
qed

lemma push_frame_inv:
  assumes "sig_inv st" and "signal_is_valid sig" and "sp AND 0xf = 0"
  shows "sig_inv (upd_thread t (\<lambda>k. k\<lparr>tk_frames := (sp, sig) # tk_frames k\<rparr>) st)"
  by (rule upd_thread_inv [OF assms(1)]) (use assms in \<open>simp add: thread_ok_def\<close>)

lemma signal_frame_sp_aligned: "signal_frame_sp top' floor' = Inr sp \<Longrightarrow> sp AND 0xf = 0"
  by (auto simp: signal_frame_sp_def Let_def and.assoc split: if_splits)

lemma block_same [simp]:
  "tk_sas (threads (signal_block_mask t m st) u) = tk_sas (threads st u)"
  "tk_frames (threads (signal_block_mask t m st) u) = tk_frames (threads st u)"
  "current (signal_block_mask t m st) = current st" "cur_mm (signal_block_mask t m st) = cur_mm st"
  "tk_restart (threads (signal_block_mask t m st) u) = tk_restart (threads st u)"
  by (simp_all add: signal_block_mask_def threads_upd)

text \<open>The part of \<^verbatim>\<open>setup_signal_frame\<close> after the frame has been written.\<close>

definition frame_entered :: "nat \<Rightarrow> u64 \<Rightarrow> int \<Rightarrow> sigaction \<Rightarrow> bool \<Rightarrow> sys \<Rightarrow> sys" where
  "frame_entered t sp sig action on_altstack st =
     (let st3 = (if sa_flags action AND SA_NODEFER = 0 then signal_block_mask t (signal_mask sig) st else st);
          st4 = signal_block_mask t (sa_mask action) st3;
          st5 = upd_thread t (\<lambda>k. k\<lparr>tk_frames := (sp, sig) # tk_frames k\<rparr>) st4
      in if on_altstack then
           upd_thread t (\<lambda>k. k\<lparr>tk_sas := (tk_sas k)\<lparr>ss_flags := ss_flags (tk_sas k) OR SS_ONSTACK\<rparr>\<rparr>) st5
         else st5)"

lemma frame_entered_inv:
  assumes "sig_inv st" and "signal_is_valid sig" and "sp AND 0xf = 0"
    and "on_altstack \<longrightarrow> ss_flags (tk_sas (threads st t)) AND (SS_DISABLE OR SS_ONSTACK) = 0"
  shows "sig_inv (frame_entered t sp sig action on_altstack st)"
proof -
  define st4 where "st4 = signal_block_mask t (sa_mask action)
    (if sa_flags action AND SA_NODEFER = 0 then signal_block_mask t (signal_mask sig) st else st)"
  have st4: "sig_inv st4" unfolding st4_def using assms(1) by (simp add: blocked_inv)
  note st5 = push_frame_inv [OF st4 assms(2,3), of t]
  have "tk_sas (threads (upd_thread t (\<lambda>k. k\<lparr>tk_frames := (sp, sig) # tk_frames k\<rparr>) st4) t) = tk_sas (threads st t)"
    by (simp add: threads_upd st4_def)
  then show ?thesis
    using altstack_enter_inv [OF st5, of t] st5 assms(4) unfolding frame_entered_def Let_def st4_def [symmetric] by simp
qed

definition frame_place :: "trap_frame \<Rightarrow> sigaction \<Rightarrow> stack_t \<Rightarrow> bool \<times> (errno + u64)" where
  "frame_place tf action sas =
     (let on_altstack = (sa_flags action AND SA_ONSTACK \<noteq> 0 \<and> ss_flags sas AND (SS_DISABLE OR SS_ONSTACK) = 0) in
      (on_altstack,
       if on_altstack then
         (if ss_sp sas + ss_size sas < ss_sp sas then Inl EFAULT
          else signal_frame_sp (ss_sp sas + ss_size sas) (ss_sp sas))
       else signal_frame_sp (tf_sp tf) 0))"

definition taken_mask :: "nat \<Rightarrow> sys \<Rightarrow> u64 \<times> sys" where
  "taken_mask t st = (if tk_restore_pending (threads st t) then signal_take_restore_mask t st else (tk_blocked (threads st t), st))"

definition the_frame :: "trap_frame \<Rightarrow> int \<Rightarrow> siginfo \<Rightarrow> stack_t \<Rightarrow> u64 \<Rightarrow> rt_sigframe" where
  "the_frame tf sig info sas sigmask =
     \<lparr>fr_info = info\<lparr>si_signo := sig\<rparr>, uc_flags = 0, uc_link = 0, uc_stack = sas,
      uc_sigmask = sigmask, uc_regs = signal_save_user_regs tf, uc_fpregs = replicate 528 0\<rparr>"

lemma setup_signal_frame_eq:
  "setup_signal_frame mem tf sig info action st =
     (case frame_place tf action (tk_sas (threads st (current st))) of
        (on_altstack, Inl e) \<Rightarrow> (Inl EFAULT, st)
      | (on_altstack, Inr sp) \<Rightarrow>
          if \<not> access_ok sp (of_nat SIGFRAME_SIZE) then (Inl EFAULT, st)
          else case taken_mask (current st) st of
            (sigmask, st1) \<Rightarrow>
              if \<not> mem then (Inl ENOMEM, st1)
              else case copy_to_user (cur_mm st1) sp
                     (frame_bytes (the_frame tf sig info (tk_sas (threads st (current st))) sigmask)) of
                (left, mm') \<Rightarrow>
                  if left \<noteq> 0 then (Inl EFAULT, st1\<lparr>cur_mm := mm'\<rparr>)
                  else (Inr (trap_setup_signal_handler tf (sa_handler action) SIGNAL_TRAMPOLINE_ADDR sp
                               (word_of_int sig) sp (sp + 128)),
                        frame_entered (current st) sp sig action on_altstack (st1\<lparr>cur_mm := mm'\<rparr>)))"
  unfolding setup_signal_frame_def frame_place_def taken_mask_def the_frame_def frame_entered_def Let_def
  by (simp only: prod.case)

lemma taken_mask_inv:
  assumes "sig_inv st"
  shows "sig_inv (snd (taken_mask t st))" and "tk_sas (threads (snd (taken_mask t st)) u) = tk_sas (threads st u)"
    and "tk_frames (threads (snd (taken_mask t st)) u) = tk_frames (threads st u)"
    and "fst (taken_mask t st) AND unblockable_mask = 0"
  using assms take_restore_inv [OF assms, of t] sig_invD(1) [OF assms, of t]
  by (auto simp: taken_mask_def signal_take_restore_mask_def threads_upd thread_ok_def)

lemma setup_signal_frame_inv:
  assumes inv: "sig_inv st" and v: "signal_is_valid sig"
  shows "sig_inv (snd (setup_signal_frame mem tf sig info action st))"
proof -
  obtain on sp where place: "frame_place tf action (tk_sas (threads st (current st))) = (on, sp)" by fastforce
  obtain m st1 where taken: "taken_mask (current st) st = (m, st1)" by fastforce
  have st1: "sig_inv st1" "tk_sas (threads st1 u) = tk_sas (threads st u)" for u
    using taken_mask_inv [OF inv, of "current st"] taken by auto
  have on: "on \<longrightarrow> ss_flags (tk_sas (threads st (current st))) AND (SS_DISABLE OR SS_ONSTACK) = 0"
    using place by (auto simp: frame_place_def Let_def)
  have al: "a AND 0xf = 0" if "sp = Inr a" for a
    using place that by (auto simp: frame_place_def Let_def dest: signal_frame_sp_aligned split: if_splits)
  have "sig_inv (frame_entered (current st) a sig action on (st1\<lparr>cur_mm := mm'\<rparr>))" if "sp = Inr a" for a mm'
    by (rule frame_entered_inv) (use st1 v al [OF that] on in simp_all)
  then show ?thesis
    unfolding setup_signal_frame_eq place taken using inv st1(1)
    by (auto split: sum.splits prod.splits)
qed

lemma rseq_inv: "sig_inv st \<Longrightarrow> sig_inv (upd_thread t (\<lambda>k. k\<lparr>tk_rseq := c\<rparr>) st)"
  by (rule upd_thread_inv) (simp_all add: thread_ok_def)

primrec round_state :: "sig_round \<Rightarrow> sys" where
  "round_state (Again tf st) = st"
| "round_state (Ends r tf st) = st"

lemma enter_handler_inv:
  assumes "sig_inv st" and "signal_is_valid sig"
  shows "sig_inv (round_state (enter_handler mem sig info action tf st))"
proof -
  define st1 where "st1 = (if sa_flags action AND SA_RESETHAND \<noteq> 0 then reset_signal_action sig st else st)"
  have st1: "sig_inv st1" unfolding st1_def using assms(1) reset_signal_action_inv by simp
  obtain r tf2 ctx mm' where rs: "rseq_signal_deliver (tk_rseq (threads st1 (current st1))) tf (cur_mm st1) = (r, tf2, ctx, mm')"
    by (metis prod_cases4)
  define st2 where "st2 = (upd_thread (current st1) (\<lambda>k. k\<lparr>tk_rseq := ctx\<rparr>) st1)\<lparr>cur_mm := mm'\<rparr>"
  have st2: "sig_inv st2" unfolding st2_def using rseq_inv [OF st1] by simp
  obtain tf3 st3 where rt: "task_restart (sa_flags action AND SA_RESTART \<noteq> 0) tf2 st2 = (tf3, st3)" by fastforce
  then have st3: "sig_inv st3" using task_restart_inv [OF st2] by (metis snd_conv)
  have "sig_inv (snd (setup_signal_frame mem tf3 sig info action st3))" by (rule setup_signal_frame_inv [OF st3 assms(2)])
  then show ?thesis
    using st2 unfolding enter_handler_def Let_def st1_def [symmetric] rs prod.case st2_def [symmetric] rt
    by (auto split: sum.splits prod.splits)
qed

lemma next_signal_valid: "next_signal st = (sig, shared) \<Longrightarrow> sig \<noteq> 0 \<Longrightarrow> signal_is_valid sig"
  by (auto simp: next_signal_def Let_def intro: find_signal_valid(1) [OF refl] split: if_splits)

lemma signal_round_inv:
  assumes "sig_inv st"
  shows "sig_inv (round_state (signal_round mem tf st))"
proof -
  obtain sig shared where n: "next_signal st = (sig, shared)" by fastforce
  show ?thesis
  proof (cases "sig = 0")
    case True
    then show ?thesis using n assms restore_deferred_inv by (simp add: signal_round_def)
  next
    case False
    obtain r st1 where t: "take_signal sig shared st = (r, st1)" by fastforce
    have st1: "sig_inv st1" using take_signal_inv [OF assms, of sig shared] t by simp
    define p where "p = (if sa_handler (get_signal_action sig st) = SIG_IGN \<or> sa_handler (get_signal_action sig st) = SIG_DFL
      then task_restart False tf st1 else (tf, st1))"
    have p: "sig_inv (snd p)" unfolding p_def using st1 task_restart_inv by simp
    show ?thesis
      unfolding signal_round_def n prod.case Let_def t p_def [symmetric]
      using False st1 p stop_current_inv [OF p] enter_handler_inv [OF p next_signal_valid [OF n False]]
      by (cases p) (auto split: sum.splits)
  qed
qed

section \<open>The delivery loop ends\<close>

lemma find_upto:
  assumes "List.find P [i..j] = Some x"
  shows "P x" and "i \<le> x" and "x \<le> j" and "\<forall>y. i \<le> y \<and> y < x \<longrightarrow> \<not> P y"
proof -
  show "P x" "i \<le> x" "x \<le> j" using find_SomeD [OF assms] by auto
  show "\<forall>y. i \<le> y \<and> y < x \<longrightarrow> \<not> P y"
    using assms
  proof (induction i j rule: upto.induct)
    case (1 i j)
    show ?case
    proof (cases "i \<le> j \<and> \<not> P i")
      case True
      then have "List.find P [i + 1..j] = Some x" using 1(2) by (simp add: upto_rec1)
      then have "\<forall>y. i + 1 \<le> y \<and> y < x \<longrightarrow> \<not> P y" using 1(1) True by blast
      then show ?thesis using True by (metis order_le_less zless_imp_add1_zle)
    next
      case False
      then show ?thesis using 1(2) by (cases "i \<le> j") (auto simp: upto_rec1)
    qed
  qed
qed

lemma find_upto_None: "List.find P [i..j] = None \<longleftrightarrow> (\<forall>y. i \<le> y \<and> y \<le> j \<longrightarrow> \<not> P y)"
  by (auto simp: find_None_iff)

lemma lowest_signal_spec:
  shows "lowest_signal m = 0 \<longleftrightarrow> (\<forall>s. signal_is_valid s \<longrightarrow> \<not> bit m (nat (s - 1)))"
    and "lowest_signal m \<noteq> 0 \<Longrightarrow> signal_is_valid s \<Longrightarrow> bit m (nat (s - 1)) \<Longrightarrow> lowest_signal m \<le> s"
proof -
  have v: "signal_is_valid s \<longleftrightarrow> 1 \<le> s \<and> s \<le> NSIG - 1" for s by (auto simp: signal_is_valid_def)
  show "lowest_signal m = 0 \<longleftrightarrow> (\<forall>s. signal_is_valid s \<longrightarrow> \<not> bit m (nat (s - 1)))"
  proof (cases "List.find (\<lambda>sig. m AND signal_mask sig \<noteq> 0) [1..NSIG - 1]")
    case None
    then show ?thesis unfolding find_upto_None v [symmetric] by (auto simp: lowest_signal_def has_signal_0 None)
  next
    case (Some x)
    then have "signal_is_valid x" "m AND signal_mask x \<noteq> 0" using find_upto [OF Some] v by auto
    then show ?thesis using Some has_signal by (auto simp: lowest_signal_def signal_is_valid_def)
  qed
  assume "lowest_signal m \<noteq> 0" and s: "signal_is_valid s" "bit m (nat (s - 1))"
  then obtain x where x: "List.find (\<lambda>sig. m AND signal_mask sig \<noteq> 0) [1..NSIG - 1] = Some x" "lowest_signal m = x"
    by (auto simp: lowest_signal_def split: option.splits)
  then show "lowest_signal m \<le> s"
    using find_upto(4) [OF x(1)] s has_signal [OF s(1)] v [of s] by (metis not_le_imp_less)
qed

lemma lowest_signal_single:
  assumes "signal_is_valid sig" and "bit p (nat (sig - 1))"
  shows "lowest_signal (p AND signal_mask sig) = sig"
proof -
  have b: "bit (p AND signal_mask sig) n \<longleftrightarrow> n = nat (sig - 1)" for n
    using assms by (auto simp: bit_and_iff bit_signal_mask)
  then have "lowest_signal (p AND signal_mask sig) \<noteq> 0" using lowest_signal_spec(1) assms(1) by blast
  then have "nat (lowest_signal (p AND signal_mask sig) - 1) = nat (sig - 1)" "signal_is_valid (lowest_signal (p AND signal_mask sig))"
    using find_signal_valid [OF refl] b by blast+
  then show ?thesis using assms(1) by (auto simp: signal_is_valid_def)
qed

text \<open>The signals the running task could still be given.\<close>

definition own_pending :: "sys \<Rightarrow> u64" where "own_pending st = tk_pending (threads st (current st))"

definition shared_pending :: "sys \<Rightarrow> u64" where "shared_pending st = task_shared_pending (current st) st"

definition sig_load :: "sys \<Rightarrow> nat" where
  "sig_load st = card {n. bit (own_pending st) n} + card {n. bit (shared_pending st) n}"

lemma finite_bits: "finite {n. bit (w :: u64) n}"
  by (rule finite_subset [of _ "{..<64}"]) (auto dest: bit_lt_u64)

lemma card_remove_bit:
  assumes "bit w n" and "\<And>k. bit v k \<longleftrightarrow> bit w k \<and> k \<noteq> n"
  shows "card {k. bit (v :: u64) k} < card {k. bit (w :: u64) k}"
  by (rule psubset_card_mono [OF finite_bits]) (use assms in auto)

lemma next_signal_spec:
  assumes "next_signal st = (sig, shared)" and "sig \<noteq> 0"
  shows "signal_is_valid sig" and "shared \<Longrightarrow> bit (shared_pending st) (nat (sig - 1))"
    and "\<not> shared \<Longrightarrow> bit (own_pending st) (nat (sig - 1))"
proof -
  define pend where "pend = (own_pending st OR shared_pending st) AND (push_bit (nat (NSIG - 1)) 1 - 1)"
  define d where "d = pend AND NOT (tk_blocked (threads st (current st)) AND NOT unblockable_mask)"
  have n: "sig = lowest_signal d"
    "shared \<longleftrightarrow> own_pending st AND signal_mask sig = 0 \<and> shared_pending st AND signal_mask sig \<noteq> 0"
    using assms by (auto simp: next_signal_def Let_def own_pending_def shared_pending_def pend_def d_def split: if_splits)
  have v: "signal_is_valid sig" and b: "bit d (nat (sig - 1))" using find_signal_valid [OF n(1) [symmetric] assms(2)] by auto
  have "bit (own_pending st) (nat (sig - 1)) \<or> bit (shared_pending st) (nat (sig - 1))"
    using b by (auto simp: d_def pend_def bit_andnot bit_and_iff bit_or_iff)
  then show "signal_is_valid sig" "shared \<Longrightarrow> bit (shared_pending st) (nat (sig - 1))"
    "\<not> shared \<Longrightarrow> bit (own_pending st) (nat (sig - 1))"
    using v n(2) has_signal [OF v] by auto
qed

lemma shared_upd_thread:
  "(\<And>k. tk_signal (f k) = tk_signal k) \<Longrightarrow> task_shared_pending u (upd_thread t f st) = task_shared_pending u st"
  by (simp add: task_shared_pending_def threads_upd split: option.splits)

definition same_tasks :: "sys \<Rightarrow> sys \<Rightarrow> bool" where
  "same_tasks st st1 \<longleftrightarrow> current st1 = current st \<and> init_task st1 = init_task st \<and>
     (\<forall>t. tk_tgid (threads st1 t) = tk_tgid (threads st t) \<and> tk_restore_pending (threads st1 t) = tk_restore_pending (threads st t))"

text \<open>Taking the chosen signal succeeds and removes that signal and no other.\<close>

lemma take_signal_load:
  assumes "next_signal st = (sig, shared)" and "sig \<noteq> 0"
  shows "\<exists>info st1. take_signal sig shared st = (Inr info, st1) \<and> same_tasks st st1 \<and> sig_load st1 < sig_load st \<and>
    (\<forall>n. n \<noteq> nat (sig - 1) \<longrightarrow>
       bit (own_pending st1) n = bit (own_pending st) n \<and> bit (shared_pending st1) n = bit (shared_pending st) n)"
proof (cases shared)
  case False
  note n = next_signal_spec [OF assms]
  have b: "bit (own_pending st) (nat (sig - 1))" by (rule n(3) [OF False])
  define st1 where "st1 = signal_clear_pending (current st) (signal_mask sig) st"
  have "take_signal sig shared st = (Inr (tk_info (threads st (current st)) ! nat sig), st1)"
    using False b n(1) has_signal_0 [OF n(1)] by (simp add: take_signal_def signal_pending_info_def own_pending_def st1_def)
  moreover have "own_pending st1 = own_pending st AND NOT (signal_mask sig)" "shared_pending st1 = shared_pending st"
    by (simp_all add: own_pending_def shared_pending_def shared_upd_thread st1_def signal_clear_pending_def threads_upd)
  moreover have "card {k. bit (own_pending st AND NOT (signal_mask sig)) k} < card {k. bit (own_pending st) k}"
    by (rule card_remove_bit [OF b]) (simp add: bit_andnot bit_signal_mask [OF n(1)])
  moreover have "same_tasks st st1" by (simp add: same_tasks_def st1_def signal_clear_pending_def threads_upd)
  moreover have "n \<noteq> nat (sig - 1) \<Longrightarrow> bit (x AND NOT (signal_mask sig)) n = bit x n" for x n
    by (simp add: bit_andnot bit_signal_mask [OF n(1)])
  ultimately show ?thesis by (simp add: sig_load_def)
next
  case True
  note n = next_signal_spec [OF assms]
  have b: "bit (shared_pending st) (nat (sig - 1))" by (rule n(2) [OF True])
  then obtain g where g: "tk_signal (threads st (current st)) = Some g" "shared_pending st = sg_pending (signals st g)"
    by (auto simp: shared_pending_def task_shared_pending_def split: option.splits)
  have low: "lowest_signal (sg_pending (signals st g) AND signal_mask sig) = sig"
    by (rule lowest_signal_single [OF n(1)]) (use b g in simp)
  define st1 where "st1 = upd_signal g (\<lambda>s. s\<lparr>sg_pending := sg_pending s AND NOT (signal_mask sig),
                  sg_info := (sg_info s)[nat sig := siginfo0]\<rparr>) st"
  have "take_signal sig shared st = (Inr (sg_info (signals st g) ! nat sig), st1)"
    using True g(1) low assms(2) by (simp add: take_signal_def take_shared_pending_def take_shared_pending_from_set_def Let_def st1_def)
  moreover have "own_pending st1 = own_pending st" "shared_pending st1 = shared_pending st AND NOT (signal_mask sig)"
    using g by (simp_all add: own_pending_def shared_pending_def task_shared_pending_def st1_def signals_upd)
  moreover have "card {k. bit (shared_pending st AND NOT (signal_mask sig)) k} < card {k. bit (shared_pending st) k}"
    by (rule card_remove_bit [OF b]) (simp add: bit_andnot bit_signal_mask [OF n(1)])
  moreover have "same_tasks st st1" by (simp add: same_tasks_def st1_def)
  moreover have "n \<noteq> nat (sig - 1) \<Longrightarrow> bit (x AND NOT (signal_mask sig)) n = bit x n" for x n
    by (simp add: bit_andnot bit_signal_mask [OF n(1)])
  ultimately show ?thesis by (simp add: sig_load_def)
qed

lemma task_restart_load:
  shows "sig_load (snd (task_restart sa tf st)) = sig_load st" "same_tasks st (snd (task_restart sa tf st))"
    "own_pending (snd (task_restart sa tf st)) = own_pending st" "shared_pending (snd (task_restart sa tf st)) = shared_pending st"
  by (cases "restart_for_signal (tk_restart (threads st (current st))) tf sa";
      simp add: task_restart_def sig_load_def own_pending_def shared_pending_def shared_upd_thread threads_upd same_tasks_def)+

lemma signal_round_load:
  assumes "signal_round mem tf st = Again tf' st'"
  shows "sig_load st' < sig_load st"
proof -
  obtain sig shared where n: "next_signal st = (sig, shared)" by fastforce
  have s0: "sig \<noteq> 0" using assms n by (auto simp: signal_round_def)
  obtain info st1 where t: "take_signal sig shared st = (Inr info, st1)" "sig_load st1 < sig_load st"
    using take_signal_load [OF n s0] by blast
  define p where "p = (if sa_handler (get_signal_action sig st) = SIG_IGN \<or> sa_handler (get_signal_action sig st) = SIG_DFL
      then task_restart False tf st1 else (tf, st1))"
  have "sig_load (snd p) = sig_load st1" unfolding p_def by (simp add: task_restart_load)
  moreover have "snd p = st'"
    using assms s0 unfolding signal_round_def n prod.case Let_def t p_def [symmetric]
    by (cases p) (auto simp: enter_handler_def Let_def split: if_splits sum.splits prod.splits)
  ultimately show ?thesis using t(2) by simp
qed

lemma do_signal_ends: "\<exists>r tf' st'. do_signal mem tf st = Some (r, tf', st') \<and> (sig_inv st \<longrightarrow> sig_inv st')"
proof (induction "sig_load st" arbitrary: tf st rule: less_induct)
  case less
  show ?case
  proof (cases "signal_round mem tf st")
    case (Again tf1 st1)
    have "sig_inv st \<longrightarrow> sig_inv st1" using signal_round_inv [of st mem tf] Again by simp
    then show ?thesis
      using less [OF signal_round_load [OF Again], of tf1] Again by (subst do_signal.simps) auto
  next
    case (Ends r tf1 st1)
    then show ?thesis using signal_round_inv [of st mem tf] by (subst do_signal.simps) auto
  qed
qed

lemma do_signal_inv: "do_signal mem tf st = Some (r, tf', st') \<Longrightarrow> sig_inv st \<Longrightarrow> sig_inv st'"
  using do_signal_ends [of mem tf st] by auto

section \<open>Return, waiting and reachable states\<close>

lemma do_sigreturn_inv: "sig_inv st \<Longrightarrow> sig_inv (snd (snd (do_sigreturn tf sp st)))"
proof -
  assume inv: "sig_inv st"
  define t where "t = current st"
  have keep: "sig_inv (upd_thread t (\<lambda>k. k\<lparr>tk_sas := s\<rparr>) (upd_thread t (\<lambda>k. k\<lparr>tk_frames := fs\<rparr>) (signal_set_blocked_mask t m st)))"
    if "tk_frames (threads st t) = f # fs" "sas_ok s" for f fs s m
  proof (rule sas_inv [OF frames_inv that(2)])
    show "sig_inv (signal_set_blocked_mask t m st)" by (intro sig_keeps inv)
    show "list_all (\<lambda>f. signal_is_valid (snd f) \<and> fst f AND 0xf = 0) fs"
      using sig_invD(1) [OF inv, of t] that(1) by (simp add: thread_ok_def)
  qed
  have sas: "sas_ok s" if "\<not> (ss_flags s \<noteq> 0 \<and> ss_flags s \<noteq> SS_DISABLE)"
    "\<not> (ss_flags s AND SS_DISABLE = 0 \<and> (ss_size s < MINSIGSTKSZ \<or> \<not> access_ok (ss_sp s) (ss_size s)))" for s
    using that by (auto simp: sas_ok_def)
  show ?thesis
    unfolding do_sigreturn_def t_def [symmetric] Let_def
    by (simp add: inv split: list.split prod.split del: de_Morgan_conj) (auto intro!: keep sas)
qed

lemma sigsuspend_inv:
  assumes "sig_inv st" and "\<And>s. sig_inv s \<Longrightarrow> sig_inv (snd (wait_for s))" and "signal_sigsuspend wait_for m st = Some (e, st')"
  shows "sig_inv st'"
proof -
  have "sig_inv (snd (wait_for (signal_set_blocked_mask (current st) m st)))" by (intro assms(2) sig_keeps assms(1))
  then show ?thesis
    using assms(3) unfolding signal_sigsuspend_def Let_def
    by (auto intro!: sig_keeps split: prod.splits sum.splits if_splits)
qed

lemma wait_pending_inv:
  assumes inv: "sig_inv st" and w: "\<And>s. sig_inv s \<Longrightarrow> sig_inv (snd (wait_for s))"
    and r: "signal_wait_pending wait_for m de zt st = Some (r, st')"
  shows "sig_inv st'"
proof -
  define set' where "set' = m AND NOT unblockable_mask"
  obtain o1 st1 where 1: "take_pending_from_set set' st = (o1, st1)" by fastforce
  have st1: "sig_inv st1" using take_pending_inv [OF inv, of set'] 1 by simp
  obtain r2 st2 where 2: "wait_for (signal_set_blocked_mask (current st) (tk_blocked (threads st1 (current st)) AND NOT set') st1) = (r2, st2)"
    by fastforce
  have "sig_inv st2"
    using w [OF blocked_inv(3) [OF st1, of "current st" "tk_blocked (threads st1 (current st)) AND NOT set'"]] 2 by simp
  then have st3: "sig_inv (signal_set_blocked_mask (current st) (tk_blocked (threads st1 (current st))) st2)" by (intro sig_keeps)
  show ?thesis
    using r inv st1 st3 take_pending_inv [OF st3, of set'] unfolding signal_wait_pending_def Let_def set'_def [symmetric]
    by (auto simp: 1 2 split: option.splits prod.splits sum.splits if_splits)
qed

text \<open>
  Steps of the system: the entry points of the signal code with any arguments, and changes made by the rest of the kernel and
  by user programs, which touch the scheduling state, the identity, the registry, the address space and the running task but
  not the signal fields. While a task sleeps in \<^verbatim>\<open>wait_for\<close> other steps happen.
\<close>

inductive sig_step :: "sys \<Rightarrow> sys \<Rightarrow> bool" and sig_steps :: "sys \<Rightarrow> sys \<Rightarrow> bool" where
  step_kill: "sig_step st (snd (do_kill pid sig st))"
| step_tkill: "sig_step st (snd (do_tkill tid sig st))"
| step_tgkill: "sig_step st (snd (do_tgkill tgid tid sig st))"
| step_send: "sig_step st (snd (send_signal_info sig info task st))"
| step_group: "sig_step st (snd (send_group_signal_info sig info task st))"
| step_pgrp: "sig_step st (snd (send_pgrp_signal_info sig info pgid sid st))"
| step_force: "sig_step st (snd (force_signal_info sig info task st))"
| step_sigaction: "sig_step st (snd (snd (do_sigaction sig act want st)))"
| step_sigprocmask: "sig_step st (snd (snd (do_sigprocmask how m st)))"
| step_sigaltstack: "sig_step st (snd (snd (do_sigaltstack ss st)))"
| step_execve: "sig_step st (signal_clear_frames t (signals_execve t st))"
| step_init: "signals_init mem_h mem_g t st = Some (r, st') \<Longrightarrow> sig_step st st'"
| step_clone: "signals_clone mem_h mem_g mem_f child sh sg dis st = Some (r, st') \<Longrightarrow> sig_step st st'"
| step_release: "signals_release t st = Some st' \<Longrightarrow> sig_step st st'"
| step_deliver: "do_signal mem tf st = Some (r, tf', st') \<Longrightarrow> sig_step st st'"
| step_sigreturn: "sig_step st (snd (snd (do_sigreturn tf sp st)))"
| step_sigsuspend: "signal_sigsuspend wait_for m st = Some (e, st') \<Longrightarrow>
    (\<forall>s. sig_steps s (snd (wait_for s))) \<Longrightarrow> sig_step st st'"
| step_sigwait: "signal_wait_pending wait_for m de zt st = Some (r', st') \<Longrightarrow>
    (\<forall>s. sig_steps s (snd (wait_for s))) \<Longrightarrow> sig_step st st'"
| step_task: "sig_step st (upd_thread t (\<lambda>k. k\<lparr>tk_state := s, tk_pid := p, tk_tgid := tg, tk_pgid := pg, tk_sid := si, tk_uid := u,
    tk_leader := l, tk_group := gs, tk_user := us, tk_restart := rc, tk_rseq := rq\<rparr>) st)"
| step_other: "sig_step st (st\<lparr>current := c, init_task := i, registry := rg, cur_mm := mm\<rparr>)"
| steps_refl: "sig_steps st st"
| steps_snoc: "sig_steps st st1 \<Longrightarrow> sig_step st1 st2 \<Longrightarrow> sig_steps st st2"

lemma task_step_inv: "sig_inv st \<Longrightarrow> sig_inv (upd_thread t (\<lambda>k. k\<lparr>tk_state := s, tk_pid := p, tk_tgid := tg, tk_pgid := pg,
    tk_sid := si, tk_uid := u, tk_leader := l, tk_group := gs, tk_user := us, tk_restart := rc, tk_rseq := rq\<rparr>) st)"
  by (rule upd_thread_inv) (simp_all add: thread_ok_def)

lemma other_step_inv: "sig_inv st \<Longrightarrow> sig_inv (st\<lparr>current := c, init_task := i, registry := rg, cur_mm := mm\<rparr>)"
  by (simp add: sig_inv_def)

lemma clear_frames_inv: "sig_inv st \<Longrightarrow> sig_inv (signal_clear_frames t st)"
  unfolding signal_clear_frames_def by (rule frames_inv) simp_all

lemma sig_step_inv:
  "sig_step st st' \<Longrightarrow> sig_inv st \<longrightarrow> sig_inv st'"
  "sig_steps st st' \<Longrightarrow> sig_inv st \<longrightarrow> sig_inv st'"
proof (induction rule: sig_step_sig_steps.inducts)
  case (step_sigsuspend wait_for m st e st')
  then show ?case using sigsuspend_inv by blast
next
  case (step_sigwait wait_for m de zt st r' st')
  then show ?case using wait_pending_inv by blast
next
  case (step_execve st t)
  show ?case by (intro impI clear_frames_inv sig_keeps)
next
  case (step_init mem_h mem_g t st r st')
  then show ?case using signals_init_inv by blast
next
  case (step_clone mem_h mem_g mem_f child sh sg dis st r st')
  then show ?case using signals_clone_inv by blast
next
  case (step_release t st st')
  then show ?case using signals_release_inv by blast
next
  case (step_deliver mem tf st r tf' st')
  then show ?case using do_signal_inv by blast
next
  case (step_sigreturn st tf sp)
  show ?case using do_sigreturn_inv by blast
next
  case (step_task st t)
  show ?case using task_step_inv by blast
next
  case (step_other st)
  show ?case using other_step_inv by blast
next
  case (steps_snoc st st1 st2)
  then show ?case by blast
qed (simp_all add: sig_keeps)

section \<open>Delivery of SIGKILL\<close>

definition kill_pending :: "sys \<Rightarrow> bool" where
  "kill_pending st \<longleftrightarrow> bit (own_pending st) 8 \<or> bit (shared_pending st) 8"

lemma next_signal_kill:
  assumes "sig_inv st" and "kill_pending st" and "next_signal st = (sig, shared)"
  shows "sig \<noteq> 0" and "sig \<le> SIGKILL"
proof -
  define d where "d = ((own_pending st OR shared_pending st) AND (push_bit (nat (NSIG - 1)) 1 - 1)) AND
    NOT (tk_blocked (threads st (current st)) AND NOT unblockable_mask)"
  have m: "(push_bit (nat (NSIG - 1)) 1 - 1 :: u64) = all_signals" by (simp add: all_signals_def NSIG_def)
  have b: "bit d (nat (SIGKILL - 1))"
    using assms(2) unfolding d_def m
    by (auto simp: kill_pending_def bit_andnot bit_and_iff bit_or_iff bit_all_signals bit_unblockable SIGKILL_def)
  then have "d \<noteq> 0" by auto
  have v: "signal_is_valid SIGKILL" by (simp add: signal_is_valid_def sig_defs)
  then have "lowest_signal d \<noteq> 0" using lowest_signal_spec(1) [of d] b by blast
  then have "sig = lowest_signal d"
    using assms(3) \<open>d \<noteq> 0\<close> by (auto simp: next_signal_def Let_def own_pending_def shared_pending_def d_def split: if_splits)
  then show "sig \<noteq> 0" "sig \<le> SIGKILL" using \<open>lowest_signal d \<noteq> 0\<close> lowest_signal_spec(2) [OF _ v b] by auto
qed

lemma kill_action: "sig_inv st \<Longrightarrow> sa_handler (get_signal_action SIGKILL st) = SIG_DFL"
  using sig_invD(2) [of st] by (auto simp: get_signal_action_def sighand_ok_def split: option.splits)

lemma enter_handler_ends:
  "\<exists>r tf' st'. enter_handler mem sig info action tf st = Ends r tf' st' \<and> (r = SigExit SIGSEGV \<or> r = SigHandler sig)"
  unfolding enter_handler_def Let_def by (auto split: prod.splits sum.splits)

text \<open>The part of a round after the signal is taken: the decision what becomes of it.\<close>

definition signal_decision :: "bool \<Rightarrow> int \<Rightarrow> siginfo \<Rightarrow> bool \<Rightarrow> sigaction \<Rightarrow> trap_frame \<Rightarrow> sys \<Rightarrow> sig_round" where
  "signal_decision mem sig info forced action tf st =
     (let handler = sa_handler action in
      if \<not> forced \<and> handler = SIG_DFL \<and> signal_init_default_ignored (current st) sig st then Again tf st
      else if sig = SIGCONT \<and> (handler = SIG_DFL \<or> handler = SIG_IGN) then Again tf st
      else if signal_stops_default sig handler then Ends (SigStopped sig) tf (stop_current sig st)
      else if sig = SIGKILL then Ends (SigExit sig) tf st
      else if handler = SIG_IGN then Again tf st
      else if handler = SIG_DFL then (if signal_is_fatal_default sig then Ends (SigExit sig) tf st else Again tf st)
      else enter_handler mem sig info action tf st)"

lemma signal_round_taken:
  assumes "next_signal st = (sig, shared)" and "sig \<noteq> 0"
  obtains info tf2 st2 forced where "same_tasks st st2"
    and "\<forall>n. n \<noteq> nat (sig - 1) \<longrightarrow> bit (own_pending st2) n = bit (own_pending st) n \<and> bit (shared_pending st2) n = bit (shared_pending st) n"
    and "signal_round mem tf st = signal_decision mem sig info forced (get_signal_action sig st) tf2 st2"
proof -
  obtain info st1 where t: "take_signal sig shared st = (Inr info, st1)" "same_tasks st st1"
      "\<forall>n. n \<noteq> nat (sig - 1) \<longrightarrow> bit (own_pending st1) n = bit (own_pending st) n \<and> bit (shared_pending st1) n = bit (shared_pending st) n"
    using take_signal_load [OF assms] by blast
  define p where "p = (if sa_handler (get_signal_action sig st) = SIG_IGN \<or> sa_handler (get_signal_action sig st) = SIG_DFL
                       then task_restart False tf st1 else (tf, st1))"
  obtain tf2 st2 where p2: "p = (tf2, st2)" by fastforce
  have "same_tasks st1 (snd p) \<and> own_pending (snd p) = own_pending st1 \<and> shared_pending (snd p) = shared_pending st1"
    unfolding p_def using task_restart_load [where sa = False and tf = tf and st = st1] by (simp add: same_tasks_def)
  then have "same_tasks st st2" "own_pending st2 = own_pending st1" "shared_pending st2 = shared_pending st1"
    using t(2) p2 by (auto simp: same_tasks_def)
  moreover have "signal_round mem tf st =
      signal_decision mem sig info (\<not> shared \<and> tk_forced (threads st (current st)) AND signal_mask sig \<noteq> 0)
        (get_signal_action sig st) tf2 st2"
    unfolding signal_round_def signal_decision_def assms(1) prod.case Let_def t(1) sum.case p_def [symmetric] p2
    using assms(2) by (simp only: if_False)
  ultimately show thesis using that t(3) by simp
qed

lemma decision_cases:
  shows "signal_decision mem sig info forced action tf st = Again tf1 st1 \<Longrightarrow> st1 = st"
    and "signal_decision mem sig info forced action tf st \<noteq> Ends SigNone tf1 st1"
  using enter_handler_ends [of mem sig info action tf st] by (auto simp: signal_decision_def Let_def split: if_splits)

lemma round_same:
  assumes "signal_round mem tf st = Again tf1 st1"
  shows "same_tasks st st1"
proof -
  obtain sig shared where n: "next_signal st = (sig, shared)" by fastforce
  have s0: "sig \<noteq> 0" using assms n by (auto simp: signal_round_def)
  obtain info tf2 st2 forced where "same_tasks st st2"
    and "signal_round mem tf st = signal_decision mem sig info forced (get_signal_action sig st) tf2 st2"
    by (rule signal_round_taken [OF n s0])
  then show ?thesis using assms decision_cases(1) by metis
qed

lemma round_none:
  assumes "signal_round mem tf st = Ends SigNone tf1 st1"
  shows "fst (next_signal st) = 0" and "st1 = signal_restore_deferred_mask (current st) st"
proof -
  obtain sig shared where n: "next_signal st = (sig, shared)" by fastforce
  have "sig = 0"
  proof (rule ccontr)
    assume "sig \<noteq> 0"
    obtain info tf2 st2 forced where
      "signal_round mem tf st = signal_decision mem sig info forced (get_signal_action sig st) tf2 st2"
      by (rule signal_round_taken [OF n \<open>sig \<noteq> 0\<close>])
    then show False using assms decision_cases(2) by metis
  qed
  then show "fst (next_signal st) = 0" "st1 = signal_restore_deferred_mask (current st) st"
    using assms n by (simp_all add: signal_round_def)
qed

lemma kill_round:
  assumes inv: "sig_inv st" and k: "kill_pending st" and i: "\<not> init_process_is_task (current st) st"
  shows "signal_round mem tf st = Again tf1 st1 \<Longrightarrow> kill_pending st1 \<and> \<not> init_process_is_task (current st1) st1"
    and "signal_round mem tf st = Ends r tf1 st1 \<Longrightarrow> (\<exists>s. r = SigExit s) \<or> (\<exists>s<SIGKILL. r = SigHandler s)"
proof -
  obtain sig shared where n: "next_signal st = (sig, shared)" by fastforce
  note nk = next_signal_kill [OF inv k n]
  obtain info tf2 st2 forced where s: "same_tasks st st2"
    and b: "\<forall>n. n \<noteq> nat (sig - 1) \<longrightarrow> bit (own_pending st2) n = bit (own_pending st) n \<and> bit (shared_pending st2) n = bit (shared_pending st) n"
    and round: "signal_round mem tf st = signal_decision mem sig info forced (get_signal_action sig st) tf2 st2"
    by (rule signal_round_taken [OF n nk(1), where mem = mem and tf = tf])
  have i2: "\<not> init_process_is_task (current st2) st2"
    using i s by (auto simp: init_process_is_task_def same_tasks_def split: option.splits)
  have low: "sig \<noteq> SIGCONT" "\<not> signal_stops_default sig h" for h
    using nk by (auto simp: signal_stops_default_def signal_is_stop_signal_def sig_defs)
  have fatal: "sig = SIGKILL \<Longrightarrow> round_state (signal_round mem tf st) = st2 \<and> signal_round mem tf st = Ends (SigExit sig) tf2 st2"
    unfolding round signal_decision_def Let_def using low i2 by (simp add: signal_init_default_ignored_def)
  show "kill_pending st1 \<and> \<not> init_process_is_task (current st1) st1" if a: "signal_round mem tf st = Again tf1 st1"
  proof -
    have "sig \<noteq> SIGKILL" using fatal a by auto
    then have "nat (sig - 1) \<noteq> 8" using nk(2) by (auto simp: SIGKILL_def)
    then have "kill_pending st2" using k b unfolding kill_pending_def by metis
    then show ?thesis using i2 a [unfolded round] decision_cases(1) by metis
  qed
  show "(\<exists>s. r = SigExit s) \<or> (\<exists>s<SIGKILL. r = SigHandler s)" if e: "signal_round mem tf st = Ends r tf1 st1"
    using e [unfolded round] fatal e nk(2) low enter_handler_ends [of mem sig info "get_signal_action sig st" tf2 st2]
    by (cases "sig = SIGKILL") (auto simp: signal_decision_def Let_def split: if_splits)
qed

lemma do_signal_kill:
  assumes "sig_inv st" and "kill_pending st" and "\<not> init_process_is_task (current st) st"
  shows "\<exists>r tf' st'. do_signal mem tf st = Some (r, tf', st') \<and> ((\<exists>s. r = SigExit s) \<or> (\<exists>s<SIGKILL. r = SigHandler s))"
  using assms
proof (induction "sig_load st" arbitrary: tf st rule: less_induct)
  case less
  show ?case
  proof (cases "signal_round mem tf st")
    case (Again tf1 st1)
    have inv: "sig_inv st1" using signal_round_inv [OF less(2), of mem tf] Again by simp
    have "kill_pending st1" "\<not> init_process_is_task (current st1) st1" using kill_round(1) [OF less(2-4) Again] by auto
    from less(1) [OF signal_round_load [OF Again] inv this, of tf1] show ?thesis
      using Again by (subst do_signal.simps) auto
  next
    case (Ends r tf1 st1)
    then show ?thesis using kill_round(2) [OF less(2-4) Ends] by (subst do_signal.simps) auto
  qed
qed

end
