(* ===== verification/Sigprops.thy ===== *)
theory Sigprops
  imports Siginv
begin

text \<open>
  The properties of the signal code: its invariant in every state reachable from boot, the delivery loop, the round trip of
  a handler's frame, and what sending reaches.
\<close>

section \<open>Reachable states\<close>

text \<open>
  The state before any task has signal state: no task has a handler table, nothing is pending, no alternate stack is set.
\<close>

definition boot_thread :: thread where
  "boot_thread = \<lparr>tk_blocked = 0, tk_pending = 0, tk_forced = 0, tk_info = replicate (nat NSIG) siginfo0, tk_frames = [],
     tk_restore_mask = 0, tk_restore_pending = False, tk_sas = \<lparr>ss_sp = 0, ss_flags = SS_DISABLE, ss_size = 0\<rparr>,
     tk_state = TASK_RUNNING, tk_pid = 0, tk_tgid = 0, tk_pgid = 0, tk_sid = 0, tk_uid = 0, tk_leader = 0, tk_group = [],
     tk_user = False, tk_sighand = None, tk_signal = None, tk_restart = restart_clear, tk_rseq = rseq_task_clear\<rparr>"

definition boot_sys :: sys where
  "boot_sys = \<lparr>threads = \<lambda>_. boot_thread,
     sighands = \<lambda>_. \<lparr>sh_refs = 0, sh_actions = replicate (nat NSIG) sigaction0\<rparr>,
     signals = \<lambda>_. \<lparr>sg_refs = 0, sg_pending = 0, sg_info = replicate (nat NSIG) siginfo0\<rparr>,
     current = 0, init_task = None, registry = boot_pids, cur_mm = None, child_events = []\<rparr>"

lemma boot_sys_inv: "sig_inv boot_sys"
  by (simp add: sig_inv_def boot_sys_def boot_thread_def thread_ok_def sighand_ok_def signal_ok_def infos_ok_def sas_ok_def
      action_ok_def within_iff sigaction0_def SIG_DFL_def sig_defs NSIG_def list_all_length)

lemma pending_kill_stop:
  assumes "sig_inv st" and "sig \<in> {SIGKILL, SIGSTOP}"
  shows "tk_blocked (threads st t) AND signal_mask sig = 0" and "signal_handler_for_task t sig st = SIG_DFL"
    and "signal_pending_mask t st AND signal_mask sig \<noteq> 0 \<Longrightarrow> signal_pending t st"
proof -
  have v: "signal_is_valid sig" and n: "nat (sig - 1) = 8 \<or> nat (sig - 1) = 18"
    using assms(2) by (auto simp: signal_is_valid_def sig_defs NSIG_def)
  have "tk_blocked (threads st t) AND unblockable_mask = 0" using sig_invD(1) [OF assms(1), of t] by (simp add: thread_ok_def)
  then show "tk_blocked (threads st t) AND signal_mask sig = 0" using n by (auto simp: has_signal_0 [OF v] blockable_iff)
  show "signal_handler_for_task t sig st = SIG_DFL"
    using sig_invD(2) [OF assms(1)] assms(2) by (auto simp: signal_handler_for_task_def sighand_ok_def split: option.splits)
  show "signal_pending t st" if "signal_pending_mask t st AND signal_mask sig \<noteq> 0"
  proof -
    have "bit (signal_pending_mask t st) (nat (sig - 1))" using that by (simp only: has_signal [OF v])
    then have "bit (signal_pending_mask t st AND NOT (tk_blocked (threads st t) AND NOT unblockable_mask)) (nat (sig - 1))"
      using n by (auto simp only: bit_andnot bit_unblockable)
    then show ?thesis unfolding signal_pending_def u64_zero_iff by blast
  qed
qed

text \<open>
  C2: The invariant of the signal state. In every state reachable from boot by any sequence of the signal system calls,
  internal senders, task creation and release, \<^verbatim>\<open>execve\<close>, deliveries, handler returns and signal waits (also nested in one
  another through sleeping), the masks, tables, frame chains and recorded informations are well formed. In particular
  \<^verbatim>\<open>SIGKILL\<close> and \<^verbatim>\<open>SIGSTOP\<close> are never blocked in any thread, always have the default disposition, and when pending always
  count as pending for delivery.
\<close>

theorem signal_invariant:
  assumes "sig_steps boot_sys st"
  shows "sig_inv st \<and> (\<forall>t. \<forall>sig \<in> {SIGKILL, SIGSTOP}.
    tk_blocked (threads st t) AND signal_mask sig = 0 \<and> signal_handler_for_task t sig st = SIG_DFL \<and>
    (signal_pending_mask t st AND signal_mask sig \<noteq> 0 \<longrightarrow> signal_pending t st))"
  using sig_step_inv(2) [OF assms] boot_sys_inv pending_kill_stop [of st] by blast

definition ex_sys :: sys where
  "ex_sys = snd (the (signals_init (Some 1) (Some 1) 0 boot_sys))"

lemma ex_sys_steps: "sig_steps boot_sys ex_sys"
proof -
  have "signals_init (Some 1) (Some 1) 0 boot_sys = Some (Inr (), ex_sys)" by (simp add: ex_sys_def signals_init_def)
  then show ?thesis using steps_snoc [OF steps_refl] step_init by blast
qed

theorem signal_invariant_witness:
  "tk_blocked (threads (snd (snd (do_sigprocmask 2 (Some (- 1)) ex_sys))) 0) AND signal_mask SIGKILL = 0 \<and>
   tk_blocked (threads (snd (snd (do_sigprocmask 2 (Some (- 1)) ex_sys))) 0) AND signal_mask SIGSEGV \<noteq> 0"
proof
  have "sig_steps boot_sys (snd (snd (do_sigprocmask 2 (Some (- 1)) ex_sys)))"
    by (rule steps_snoc [OF ex_sys_steps step_sigprocmask])
  from signal_invariant [OF this]
  show "tk_blocked (threads (snd (snd (do_sigprocmask 2 (Some (- 1)) ex_sys))) 0) AND signal_mask SIGKILL = 0" by blast
  have "current ex_sys = 0" by (simp add: ex_sys_def signals_init_def boot_sys_def reset_task_altstack_def clear_task_signals_def
      signal_clear_frames_def signal_clear_pending_def signal_set_blocked_mask_def signal_state_alloc_def sighand_alloc_def)
  then show "tk_blocked (threads (snd (snd (do_sigprocmask 2 (Some (- 1)) ex_sys))) 0) AND signal_mask SIGSEGV \<noteq> 0"
    by (simp add: do_sigprocmask_def signal_set_blocked_mask_def threads_upd) (simp add: unblockable_mask_def signal_mask_def sig_defs)
qed

section \<open>Delivery\<close>

lemma no_signal_left:
  assumes "sig_inv st" and "fst (next_signal st) = 0"
  shows "\<not> signal_pending (current st) st"
proof -
  define d where "d = ((own_pending st OR shared_pending st) AND (push_bit (nat (NSIG - 1)) 1 - 1)) AND
    NOT (tk_blocked (threads st (current st)) AND NOT unblockable_mask)"
  have m: "(push_bit (nat (NSIG - 1)) 1 - 1 :: u64) = all_signals" by (simp add: all_signals_def NSIG_def)
  have "d = 0 \<or> lowest_signal d = 0"
    using assms(2) by (auto simp: next_signal_def Let_def own_pending_def shared_pending_def d_def split: if_splits)
  moreover have "within (own_pending st) all_signals" "within (shared_pending st) all_signals"
    using sig_invD(1) [OF assms(1), of "current st"] sig_invD(3) [OF assms(1)]
    by (auto simp: own_pending_def shared_pending_def task_shared_pending_def thread_ok_def signal_ok_def infos_ok_def within_def
        split: option.splits)
  then have lt: "n < 31" if "bit (own_pending st) n \<or> bit (shared_pending st) n" for n
    using that by (auto simp: within_signals)
  moreover have "\<not> bit d n" if "lowest_signal d = 0" for n
  proof
    assume b: "bit d n"
    then have "n < 31" using lt by (auto simp: d_def bit_andnot bit_and_iff bit_or_iff)
    then have "signal_is_valid (int n + 1)" "nat (int n + 1 - 1) = n" by (auto simp: signal_is_valid_def NSIG_def)
    then show False using lowest_signal_spec(1) [of d] that b by fastforce
  qed
  ultimately have "\<not> bit d n" for n by auto
  then show ?thesis
    using lt unfolding signal_pending_def signal_pending_mask_def u64_zero_iff d_def m own_pending_def shared_pending_def
    by (auto simp: bit_andnot bit_and_iff bit_or_iff bit_all_signals)
qed

lemma restore_deferred_done: "\<not> tk_restore_pending (threads (signal_restore_deferred_mask t st) t)"
  by (simp add: signal_restore_deferred_mask_def signal_take_restore_mask_def signal_set_blocked_mask_def threads_upd)

lemma do_signal_none:
  assumes "sig_inv st" and "do_signal mem tf st = Some (SigNone, tf', st')"
  shows "\<not> tk_restore_pending (threads st' (current st)) \<and>
    (\<not> tk_restore_pending (threads st (current st)) \<longrightarrow> \<not> signal_pending (current st) st')"
  using assms
proof (induction "sig_load st" arbitrary: tf st rule: less_induct)
  case less
  show ?case
  proof (cases "signal_round mem tf st")
    case (Again tf1 st1)
    have "sig_inv st1" using signal_round_inv [OF less(2), of mem tf] Again by simp
    moreover have "do_signal mem tf1 st1 = Some (SigNone, tf', st')" using less(3) Again by (simp add: do_signal.simps [of mem tf])
    ultimately show ?thesis
      using less(1) [OF signal_round_load [OF Again]] round_same [OF Again] by (simp add: same_tasks_def)
  next
    case (Ends r tf1 st1)
    then have e: "signal_round mem tf st = Ends SigNone tf' st'" using less(3) by (subst (asm) do_signal.simps) auto
    show ?thesis
      using round_none [OF e] restore_deferred_done no_signal_left [OF less(2)] by (simp add: signal_restore_deferred_mask_def)
  qed
qed



section \<open>The frame of a handler\<close>

lemma u64_at_skip: "length xs \<le> i \<Longrightarrow> u64_at (xs @ ys) i = u64_at ys (i - length xs)"
  by (simp add: u64_at_def)

lemma u64_at_here: "u64_at (le_bytes 8 (unat v) @ ys) 0 = v"
  by (simp add: u64_at_def)

lemma u32_at_skip: "length xs \<le> i \<Longrightarrow> u32_at (xs @ ys) i = u32_at ys (i - length xs)"
  by (simp add: u32_at_def)

lemma u32_at_here: "u32_at (le_bytes 4 (unat v) @ ys) 0 = v"
  by (simp add: u32_at_def)

lemma pad_to_length: "length bs \<le> n \<Longrightarrow> length (pad_to n bs) = n"
  by (simp add: pad_to_def)

lemma pad_to_append: "pad_to n bs @ ys = bs @ replicate (n - length bs) 0 @ ys"
  by (simp add: pad_to_def)

lemma fields_bytes_length: "length (fields_bytes f) \<le> 40"
  by (cases f) (simp_all add: c_int_def)

definition info_bytes :: "siginfo \<Rightarrow> u8 list" where
  "info_bytes i = pad_to 128 (c_int (si_signo i) @ c_int (si_errno i) @ c_int (si_code i) @ c_int 0 @ fields_bytes (si_fields i))"

definition context_bytes :: "rt_sigframe \<Rightarrow> u8 list" where
  "context_bytes f = pad_to 176 (le_bytes 8 (unat (uc_flags f)) @ le_bytes 8 (unat (uc_link f)) @
       le_bytes 8 (unat (ss_sp (uc_stack f))) @ le_bytes 4 (unat (ss_flags (uc_stack f))) @ replicate 4 0 @
       le_bytes 8 (unat (ss_size (uc_stack f))) @ le_bytes 8 (unat (uc_sigmask f)))"

definition regs_bytes :: "u64 list \<Rightarrow> u8 list" where
  "regs_bytes rs = concat (map (\<lambda>r. le_bytes 8 (unat r)) rs)"

lemma frame_parts: "frame_bytes f = info_bytes (fr_info f) @ context_bytes f @ regs_bytes (uc_regs f) @ uc_fpregs f"
  by (simp add: frame_bytes_def info_bytes_def context_bytes_def regs_bytes_def)

lemma parts_length [simp]:
  "length (info_bytes i) = 128" "length (context_bytes f) = 176" "length (regs_bytes rs) = 8 * length rs"
proof -
  show "length (info_bytes i) = 128"
    unfolding info_bytes_def by (rule pad_to_length) (use fields_bytes_length [of "si_fields i"] in \<open>simp add: c_int_def\<close>)
  show "length (context_bytes f) = 176" unfolding context_bytes_def by (rule pad_to_length) simp
  show "length (regs_bytes rs) = 8 * length rs" by (induction rs) (simp_all add: regs_bytes_def)
qed

lemma regs_at: "i < length rs \<Longrightarrow> u64_at (regs_bytes rs @ ys) (8 * i) = rs ! i"
proof (induction rs arbitrary: i)
  case (Cons r rs)
  show ?case
  proof (cases i)
    case 0
    then show ?thesis by (simp add: regs_bytes_def u64_at_here)
  next
    case (Suc j)
    then have "u64_at (regs_bytes (r # rs) @ ys) (8 * i) = u64_at (regs_bytes rs @ ys) (8 * j)"
      by (simp add: regs_bytes_def u64_at_skip)
    then show ?thesis using Suc Cons by simp
  qed
qed simp

lemma frame_read:
  assumes "length (uc_regs f) = 32"
  shows "u64_at (frame_bytes f) 128 = uc_flags f" "u64_at (frame_bytes f) 136 = uc_link f"
    "frame_stack (frame_bytes f) = uc_stack f" "u64_at (frame_bytes f) 168 = uc_sigmask f"
    "frame_regs (frame_bytes f) = uc_regs f" "drop 560 (frame_bytes f) = uc_fpregs f"
proof -
  have ctx: "u64_at (frame_bytes f) (128 + i) = u64_at (context_bytes f @ ys f) i" "u32_at (frame_bytes f) (128 + i) = u32_at (context_bytes f @ ys f) i"
    if "ys = (\<lambda>f. regs_bytes (uc_regs f) @ uc_fpregs f)" for i ys
    by (simp_all add: that frame_parts u64_at_skip u32_at_skip)
  note at = ctx(1) [OF refl, of 0] ctx(1) [OF refl, of 8] ctx(1) [OF refl, of 16] ctx(2) [OF refl, of 24]
    ctx(1) [OF refl, of 32] ctx(1) [OF refl, of 40]
  show "u64_at (frame_bytes f) 128 = uc_flags f" "u64_at (frame_bytes f) 136 = uc_link f" "u64_at (frame_bytes f) 168 = uc_sigmask f"
    using at by (simp_all add: context_bytes_def pad_to_append u64_at_skip u64_at_here)
  show "frame_stack (frame_bytes f) = uc_stack f"
    using at by (simp add: frame_stack_def context_bytes_def pad_to_append u64_at_skip u64_at_here u32_at_skip u32_at_here)
  have "u64_at (frame_bytes f) (304 + 8 * i) = uc_regs f ! i" if "i < 32" for i
    using regs_at [of i "uc_regs f" "uc_fpregs f"] that assms by (simp add: frame_parts u64_at_skip)
  then show "frame_regs (frame_bytes f) = uc_regs f"
    using assms by (intro nth_equalityI) (simp_all add: frame_regs_def)
  show "drop 560 (frame_bytes f) = uc_fpregs f" using assms by (simp add: frame_parts)
qed

lemma frame_signo_read: "signal_is_valid (si_signo (fr_info f)) \<Longrightarrow> frame_signo (frame_bytes f) = si_signo (fr_info f)"
  by (simp add: frame_signo_def frame_parts info_bytes_def pad_to_append c_int_def u32_at_here sint_sbintrunc'
      signed_take_bit_int_eq_self signal_is_valid_def NSIG_def)

lemma the_frame_sel [simp]:
  "fr_info (the_frame tf sig info sas m) = info\<lparr>si_signo := sig\<rparr>" "uc_flags (the_frame tf sig info sas m) = 0"
  "uc_link (the_frame tf sig info sas m) = 0" "uc_stack (the_frame tf sig info sas m) = sas"
  "uc_sigmask (the_frame tf sig info sas m) = m" "uc_regs (the_frame tf sig info sas m) = signal_save_user_regs tf"
  "uc_fpregs (the_frame tf sig info sas m) = replicate 528 0"
  by (simp_all add: the_frame_def)

lemma saved_length [simp]: "length (signal_save_user_regs tf) = 32"
  by (simp add: signal_save_user_regs_def)

lemma the_frame_length: "length (frame_bytes (the_frame tf sig info sas m)) = SIGFRAME_SIZE"
  by (simp add: frame_parts SIGFRAME_SIZE_def)

lemma save_restore: "signal_save_user_regs (signal_restore_user_regs tf (signal_save_user_regs tf0)) = signal_save_user_regs tf0"
  by (simp add: signal_save_user_regs_def signal_restore_user_regs_def)

lemma copy_back:
  assumes "copy_to_user mm to bs = (0, mm')" and "copy_from_user mm' to (length bs) = (0, bs')" and "bs \<noteq> []" and "length bs < 2 ^ 64"
  shows "bs' = bs"
proof -
  have "\<exists>m. mm' = Some (m\<lparr>mm_bytes := write_bytes (mm_bytes m) to bs\<rparr>)"
    using assms(1,3,4) by (cases mm)
      (auto simp: copy_to_user_def user_range_probe_def word_unat_eq_iff unat_of_nat split: sum.splits if_splits)
  then show ?thesis
    using assms(2,3) read_write_bytes [OF assms(4)] by (auto simp: copy_from_user_def split: sum.splits)
qed

text \<open>What a successful \<^verbatim>\<open>setup_signal_frame\<close> leaves behind, read back from user memory.\<close>

lemma setup_frame_written:
  assumes "setup_signal_frame mem tf sig info action st = (Inr tf1, st1)"
    and "copy_from_user (cur_mm st1) (tf_sp tf1) SIGFRAME_SIZE = (0, bs)"
  shows "bs = frame_bytes (the_frame tf sig info (tk_sas (threads st (current st)))
      (if tk_restore_pending (threads st (current st)) then tk_restore_mask (threads st (current st)) else tk_blocked (threads st (current st))))"
    and "tk_frames (threads st1 (current st)) = (tf_sp tf1, sig) # tk_frames (threads st (current st))"
proof -
  obtain on sp where place: "frame_place tf action (tk_sas (threads st (current st))) = (on, Inr sp)"
    using assms(1) unfolding setup_signal_frame_eq by (auto split: prod.splits sum.splits)
  obtain m st0 where taken: "taken_mask (current st) st = (m, st0)" by fastforce
  define f where "f = the_frame tf sig info (tk_sas (threads st (current st))) m"
  obtain left mm' where c: "copy_to_user (cur_mm st0) sp (frame_bytes f) = (left, mm')" by fastforce
  have s: "left = 0" "tf1 = trap_setup_signal_handler tf (sa_handler action) SIGNAL_TRAMPOLINE_ADDR sp (word_of_int sig) sp (sp + 128)"
    "st1 = frame_entered (current st) sp sig action on (st0\<lparr>cur_mm := mm'\<rparr>)"
    using assms(1) unfolding setup_signal_frame_eq place taken prod.case sum.case f_def [symmetric] c by (auto split: if_splits)
  have sp: "tf_sp tf1 = sp" by (simp add: s(2) trap_setup_signal_handler_def)
  have "cur_mm st1 = mm'" by (simp add: s(3) frame_entered_def Let_def upd_thread_def signal_block_mask_def)
  then have "bs = frame_bytes f"
    using assms(2) copy_back [OF c [unfolded s(1)], of bs] the_frame_length [of tf sig info _ m]
    by (simp add: sp f_def SIGFRAME_SIZE_def flip: length_greater_0_conv)
  moreover have "m = (if tk_restore_pending (threads st (current st)) then tk_restore_mask (threads st (current st)) else tk_blocked (threads st (current st)))"
    "tk_frames (threads st0 (current st)) = tk_frames (threads st (current st))"
    using taken by (auto simp: taken_mask_def signal_take_restore_mask_def threads_upd split: if_splits)
  ultimately show "bs = frame_bytes (the_frame tf sig info (tk_sas (threads st (current st)))
      (if tk_restore_pending (threads st (current st)) then tk_restore_mask (threads st (current st)) else tk_blocked (threads st (current st))))"
    "tk_frames (threads st1 (current st)) = (tf_sp tf1, sig) # tk_frames (threads st (current st))"
    by (simp_all add: f_def sp) (simp add: s(3) frame_entered_def Let_def threads_upd)
qed


text \<open>An example: a thread with its memory from \<open>0x1000\<close> to \<open>0x3000\<close>.\<close>

definition ex_user :: sys where
  "ex_user = ex_sys\<lparr>cur_mm := ex_rseq_mm (\<lambda>_. 0)\<rparr>"

definition ex_tf :: trap_frame where
  "ex_tf = zero_frame\<lparr>tf_sepc := 0x2000, tf_sp := 0x2800, tf_a0 := 42\<rparr>"

definition ex_action :: "u64 \<Rightarrow> sigaction" where
  "ex_action flags = \<lparr>sa_handler = 0x1100, sa_flags = flags, sa_restorer = 0, sa_mask = 0\<rparr>"

lemma ex_setup:
  assumes "cur_mm st = ex_rseq_mm g" and "frame_place tf action (tk_sas (threads st (current st))) = (on, Inr sp)"
    and "0x1000 \<le> unat sp" and "unat sp + 1088 \<le> 0x3000"
  obtains tf1 st1 g' where "setup_signal_frame True tf sig info action st = (Inr tf1, st1)" and "tf_sp tf1 = sp"
    and "cur_mm st1 = ex_rseq_mm g'" and "current st1 = current st"
    and "tk_sas (threads st1 (current st)) = (if on then (tk_sas (threads st (current st)))
      \<lparr>ss_flags := ss_flags (tk_sas (threads st (current st))) OR SS_ONSTACK\<rparr> else tk_sas (threads st (current st)))"
proof -
  obtain m st0 where taken: "taken_mask (current st) st = (m, st0)" by fastforce
  define f where "f = the_frame tf sig info (tk_sas (threads st (current st))) m"
  have st0: "cur_mm st0 = ex_rseq_mm g" "current st0 = current st" "tk_sas (threads st0 (current st)) = tk_sas (threads st (current st))"
    using taken assms(1) by (auto simp: taken_mask_def signal_take_restore_mask_def threads_upd split: if_splits)
  have "length (frame_bytes f) = 1088" using the_frame_length by (simp add: f_def SIGFRAME_SIZE_def)
  then have c: "copy_to_user (cur_mm st0) sp (frame_bytes f) = (0, ex_rseq_mm (write_bytes g sp (frame_bytes f)))"
    using ex_rseq_copy(1) [OF assms(3)] assms(4) st0(1) by simp
  have a: "access_ok sp (of_nat SIGFRAME_SIZE)"
    using assms(4) access_ok_unat [of SIGFRAME_SIZE sp] by (simp add: SIGFRAME_SIZE_def TASK_SIZE_def)
  show thesis
  proof (rule that)
    show "setup_signal_frame True tf sig info action st =
      (Inr (trap_setup_signal_handler tf (sa_handler action) SIGNAL_TRAMPOLINE_ADDR sp (word_of_int sig) sp (sp + 128)),
       frame_entered (current st) sp sig action on (st0\<lparr>cur_mm := ex_rseq_mm (write_bytes g sp (frame_bytes f))\<rparr>))"
      unfolding setup_signal_frame_eq assms(2) taken prod.case sum.case f_def [symmetric] c using a by simp
  qed (use st0 in \<open>simp_all add: trap_setup_signal_handler_def frame_entered_def Let_def threads_upd signal_block_mask_def\<close>)
qed

lemma ex_user_state [simp]: "current ex_user = 0" "tk_sas (threads ex_user 0) = \<lparr>ss_sp = 0, ss_flags = SS_DISABLE, ss_size = 0\<rparr>"
    "cur_mm ex_user = ex_rseq_mm (\<lambda>_. 0)" "sig_inv ex_user"
proof -
  have "sig_inv ex_sys" using sig_step_inv(2) [OF ex_sys_steps] boot_sys_inv by blast
  then show "sig_inv ex_user" by (simp add: ex_user_def sig_inv_def)
qed (simp_all add: ex_user_def ex_sys_def signals_init_def reset_task_altstack_def threads_upd clear_task_signals_def signal_clear_frames_def
    signal_clear_pending_def signal_set_blocked_mask_def signal_state_alloc_def sighand_alloc_def boot_sys_def upd_signal_def upd_sighand_def
    upd_thread_def)


text \<open>
  C39: A signal taken while the thread is on its alternate stack ends the process when its handler returns. The saved
  context then has \<^verbatim>\<open>SS_ONSTACK\<close> in its alternate stack, which \<^verbatim>\<open>setup_signal_frame\<close> writes and \<^verbatim>\<open>do_sigreturn\<close>
  rejects, so that a return from a frame just as the kernel wrote it ends with \<^verbatim>\<open>SIGSEGV\<close>.
\<close>

theorem sigreturn_onstack_exits:
  assumes sas: "ss_flags (tk_sas (threads st (current st))) = SS_ONSTACK"
    and entry: "setup_signal_frame mem tf sig info action st = (Inr tf1, st1)"
    and frame: "copy_from_user (cur_mm st1) (tf_sp tf1) SIGFRAME_SIZE = (0, bs)"
    and same_frame: "copy_from_user (cur_mm st2) (tf_sp tf1) SIGFRAME_SIZE = (0, bs)"
    and top': "current st2 = current st" "tk_frames (threads st2 (current st)) = tk_frames (threads st1 (current st))"
  shows "do_sigreturn tf2 (tf_sp tf1) st2 = (Exits SIGSEGV, tf2, st2)"
proof -
  have "ss_flags (frame_stack bs) = SS_ONSTACK"
    using setup_frame_written(1) [OF entry frame] frame_read(3) sas by simp
  then show ?thesis
    using top' setup_frame_written(2) [OF entry frame] same_frame
    by (simp add: do_sigreturn_def Let_def SS_DISABLE_def SS_ONSTACK_def)
qed

definition ex_altstack :: stack_t where
  "ex_altstack = \<lparr>ss_sp = 0x1000, ss_flags = 0, ss_size = 0x1000\<rparr>"

theorem sigreturn_onstack_exits_witness:
  "\<exists>tf1 st1 tf2 st2. let st = snd (snd (do_sigaltstack (Some ex_altstack) ex_user)) in
     setup_signal_frame True ex_tf SIGSEGV siginfo0 (ex_action SA_ONSTACK) st = (Inr tf1, st1) \<and>
     setup_signal_frame True tf1 SIGCHLD siginfo0 (ex_action SA_ONSTACK) st1 = (Inr tf2, st2) \<and>
     fst (do_sigreturn tf2 (tf_sp tf2) st2) = Exits SIGSEGV"
proof -
  define st where "st = snd (snd (do_sigaltstack (Some ex_altstack) ex_user))"
  have st: "current st = 0" "tk_sas (threads st 0) = ex_altstack" "cur_mm st = ex_rseq_mm (\<lambda>_. 0)"
    by (simp_all add: st_def do_sigaltstack_def ex_altstack_def SS_ONSTACK_def SS_DISABLE_def MINSIGSTKSZ_def threads_upd)
  have p: "frame_place ex_tf (ex_action SA_ONSTACK) (tk_sas (threads st (current st))) = (True, Inr 0x1bc0)"
    by (simp add: st frame_place_def ex_action_def ex_altstack_def signal_frame_sp_def SIGFRAME_SIZE_def SA_ONSTACK_def)
  obtain tf1 st1 g1 where s: "setup_signal_frame True ex_tf SIGSEGV siginfo0 (ex_action SA_ONSTACK) st = (Inr tf1, st1)" "tf_sp tf1 = 0x1bc0"
    "cur_mm st1 = ex_rseq_mm g1" "current st1 = current st"
    "tk_sas (threads st1 (current st)) = (if True then (tk_sas (threads st (current st)))
      \<lparr>ss_flags := ss_flags (tk_sas (threads st (current st))) OR SS_ONSTACK\<rparr> else tk_sas (threads st (current st)))"
    by (rule ex_setup [OF st(3) p, of SIGSEGV siginfo0]) simp_all
  have on: "ss_flags (tk_sas (threads st1 (current st1))) = SS_ONSTACK" using s(4,5) st by (simp add: ex_altstack_def)
  have p1: "frame_place tf1 (ex_action SA_ONSTACK) (tk_sas (threads st1 (current st1))) = (False, Inr 0x1780)"
    using on by (simp add: s(2) frame_place_def ex_action_def signal_frame_sp_def SIGFRAME_SIZE_def SA_ONSTACK_def SS_ONSTACK_def SS_DISABLE_def)
  obtain tf2 st2 g2 where s2: "setup_signal_frame True tf1 SIGCHLD siginfo0 (ex_action SA_ONSTACK) st1 = (Inr tf2, st2)" "tf_sp tf2 = 0x1780"
    "cur_mm st2 = ex_rseq_mm g2" "current st2 = current st1"
    by (rule ex_setup [OF s(3) p1, of SIGCHLD siginfo0]) simp_all
  have c: "copy_from_user (cur_mm st2) (tf_sp tf2) SIGFRAME_SIZE = (0, read_bytes g2 0x1780 SIGFRAME_SIZE)"
    unfolding s2(2,3) by (rule ex_rseq_copy(2)) (simp_all add: SIGFRAME_SIZE_def)
  have "fst (do_sigreturn tf2 (tf_sp tf2) st2) = Exits SIGSEGV"
    using sigreturn_onstack_exits [OF on s2(1) c c s2(4) refl, of tf2] by simp
  then show ?thesis unfolding st_def [symmetric] Let_def using s(1) s2(1) by blast
qed

end
