(* ===== verification/Sigsend.thy ===== *)
theory Sigsend
  imports Sigprops
begin

text \<open>
  What sending a signal reaches: the effect of \<^verbatim>\<open>send_group_signal_info\<close> on the shared and private pending sets of a
  thread group, and the tasks \<^verbatim>\<open>do_kill\<close> delivers to.
\<close>

section \<open>Sending to a thread group\<close>

text \<open>The signals that a signal cancels: the stop signals for \<^verbatim>\<open>SIGCONT\<close> and \<^verbatim>\<open>SIGCONT\<close> for a stop signal.\<close>

definition opposite_mask :: "int \<Rightarrow> u64" where
  "opposite_mask sig =
     (if sig = SIGCONT then signal_stop_mask else if signal_is_stop_signal sig then signal_mask SIGCONT else 0)"

lemma opposite_not_self: "signal_is_valid sig \<Longrightarrow> \<not> bit (opposite_mask sig) (nat (sig - 1))"
  by (auto simp: opposite_mask_def bit_stop_mask signal_is_stop_signal_def sig_defs bit_signal_mask signal_is_valid_def NSIG_def)

text \<open>The fields that tell tasks apart and that no sender changes.\<close>

definition same_ids :: "sys \<Rightarrow> sys \<Rightarrow> bool" where
  "same_ids st st' \<longleftrightarrow> registry st' = registry st \<and> current st' = current st \<and> init_task st' = init_task st \<and>
     cur_mm st' = cur_mm st \<and> sighands st' = sighands st \<and>
     (\<forall>t. tk_pid (threads st' t) = tk_pid (threads st t) \<and> tk_tgid (threads st' t) = tk_tgid (threads st t) \<and>
        tk_pgid (threads st' t) = tk_pgid (threads st t) \<and> tk_sid (threads st' t) = tk_sid (threads st t) \<and>
        tk_uid (threads st' t) = tk_uid (threads st t) \<and>
        tk_leader (threads st' t) = tk_leader (threads st t) \<and> tk_group (threads st' t) = tk_group (threads st t) \<and>
        tk_user (threads st' t) = tk_user (threads st t) \<and> tk_signal (threads st' t) = tk_signal (threads st t) \<and>
        tk_blocked (threads st' t) = tk_blocked (threads st t) \<and> tk_frames (threads st' t) = tk_frames (threads st t) \<and>
        task_signal_target_dead (Some t) st' = task_signal_target_dead (Some t) st)"

lemma same_ids_refl [simp]: "same_ids st st"
  by (simp add: same_ids_def)

lemma same_ids_trans: "same_ids st st1 \<Longrightarrow> same_ids st1 st2 \<Longrightarrow> same_ids st st2"
  by (simp add: same_ids_def)

lemmas task_state_defs = TASK_RUNNING_def TASK_UNINTERRUPTIBLE_def TASK_INTERRUPTIBLE_def TASK_ZOMBIE_def TASK_DEAD_def
  TASK_STOPPED_def TASK_KILLABLE_def

lemma registry_upd_thread [simp]: "registry (upd_thread t f st) = registry st"
  by (simp add: upd_thread_def)

lemma wake_same:
  shows "same_ids st (wake_signal_target t sig st)" and "signals (wake_signal_target t sig st) = signals st"
    and "tk_pending (threads (wake_signal_target t sig st) u) = tk_pending (threads st u)"
    and "tk_info (threads (wake_signal_target t sig st) u) = tk_info (threads st u)"
  by (auto simp: same_ids_def wake_signal_target_def Let_def sched_wake_task_def task_child_publish_continue_def threads_upd
      task_signal_target_dead_def task_state_defs)

lemma notify_same:
  shows "same_ids st (notify_thread sig t st)" and "signals (notify_thread sig t st) = signals st"
    and "tk_pending (threads (notify_thread sig t st) u) =
      (if u = t then tk_pending (threads st u) AND NOT (opposite_mask sig) else tk_pending (threads st u))"
proof -
  have c: "same_ids st (signal_clear_opposite_pending t sig st)"
    by (auto simp: signal_clear_opposite_pending_def signal_clear_pending_def same_ids_def threads_upd task_signal_target_dead_def)
  then show "same_ids st (notify_thread sig t st)" unfolding notify_thread_def by (rule same_ids_trans) (rule wake_same)
  show "signals (notify_thread sig t st) = signals st"
    by (simp add: notify_thread_def wake_same signal_clear_opposite_pending_def signal_clear_pending_def)
  show "tk_pending (threads (notify_thread sig t st) u) =
      (if u = t then tk_pending (threads st u) AND NOT (opposite_mask sig) else tk_pending (threads st u))"
    by (simp add: notify_thread_def wake_same signal_clear_opposite_pending_def signal_clear_pending_def threads_upd opposite_mask_def)
qed

lemma notify_all_same:
  shows "same_ids st (fold (notify_thread sig) ts st)" and "signals (fold (notify_thread sig) ts st) = signals st"
    and "tk_pending (threads (fold (notify_thread sig) ts st) u) =
      (if u \<in> set ts then tk_pending (threads st u) AND NOT (opposite_mask sig) else tk_pending (threads st u))"
proof (induction ts arbitrary: st)
  case (Cons t ts)
  { case 1 show ?case using notify_same(1) [of st sig t] Cons(1) [of "notify_thread sig t st"] by (auto intro: same_ids_trans)
  next
    case 2 show ?case by (simp add: Cons(2) notify_same)
  next
    case 3 show ?case by (simp add: Cons(3) notify_same and.assoc)
  }
qed simp_all

definition group_members :: "nat \<Rightarrow> sys \<Rightarrow> nat set" where
  "group_members l st = insert l (if task_is_group_leader l st then set (tk_group (threads st l)) else {})"

lemma send_group_effect:
  assumes v: "signal_is_valid sig" and d: "\<not> task_signal_target_dead (Some l) st" and g: "tk_signal (threads st l) = Some g"
  obtains st' where "send_group_signal_info sig (Some i) (Some l) st = (Inr (), st')" and "same_ids st st'"
    and "signals st' = (signals st)(g := queue_shared sig i (signals st g))"
    and "\<And>t. tk_pending (threads st' t) =
      (if t \<in> group_members l st then tk_pending (threads st t) AND NOT (opposite_mask sig) else tk_pending (threads st t))"
proof -
  define st1 where "st1 = upd_signal g (queue_shared sig i) st"
  define st2 where "st2 = notify_thread sig l st1"
  define st3 where "st3 = (if task_is_group_leader l st2 then fold (notify_thread sig) (tk_group (threads st2 l)) st2 else st2)"
  have s1: "same_ids st st1" "threads st1 = threads st" by (simp_all add: st1_def upd_signal_def same_ids_def task_signal_target_dead_def)
  have s2: "same_ids st st2" using s1(1) notify_same(1) [of st1 sig l] unfolding st2_def by (rule same_ids_trans)
  have l: "task_is_group_leader l st2 = task_is_group_leader l st" "tk_group (threads st2 l) = tk_group (threads st l)"
    using s2 by (simp_all add: same_ids_def task_is_group_leader_def)
  show thesis
  proof (rule that)
    show "send_group_signal_info sig (Some i) (Some l) st = (Inr (), st3)"
      using v d g by (simp add: send_group_signal_info_def Let_def st3_def st2_def st1_def)
    show "same_ids st st3" using s2 notify_all_same(1) by (auto simp: st3_def intro: same_ids_trans)
    show "signals st3 = (signals st)(g := queue_shared sig i (signals st g))"
      by (simp add: st3_def notify_all_same st2_def notify_same st1_def upd_signal_def)
    have p2: "tk_pending (threads st2 t) = (if t = l then tk_pending (threads st t) AND NOT (opposite_mask sig) else tk_pending (threads st t))" for t
      by (simp add: st2_def notify_same s1(2))
    show "tk_pending (threads st3 t) =
      (if t \<in> group_members l st then tk_pending (threads st t) AND NOT (opposite_mask sig) else tk_pending (threads st t))" for t
      by (auto simp: st3_def l notify_all_same p2 group_members_def and.assoc)
  qed
qed

lemma queue_shared_pending:
  assumes "signal_is_valid sig"
  shows "sg_pending (queue_shared sig i s) = (sg_pending s AND NOT (opposite_mask sig)) OR signal_mask sig"
proof -
  have m: "sg_pending (signal_clear_shared_opposite_pending sig s) = sg_pending s AND NOT (opposite_mask sig)"
    by (simp add: signal_clear_shared_opposite_pending_def opposite_mask_def Let_def)
  have "p OR signal_mask sig = p" if "bit p (nat (sig - 1))" for p
    using that by (intro bit_word_eqI) (auto simp: bit_or_iff bit_signal_mask [OF assms])
  then show ?thesis by (simp add: queue_shared_def Let_def m has_signal_0 [OF assms])
qed

lemma queue_shared_info:
  assumes "signal_is_valid sig" and "nat sig < length (sg_info s)"
  shows "sg_info (queue_shared sig i s) =
    (if sg_pending s AND signal_mask sig = 0 then (sg_info s)[nat sig := i\<lparr>si_signo := sig\<rparr>] else sg_info s)"
  using opposite_not_self [OF assms(1)]
  by (simp add: queue_shared_def Let_def signal_clear_shared_opposite_pending_def has_signal_0 [OF assms(1)] bit_andnot
      flip: opposite_mask_def)



section \<open>The targets of kill\<close>

definition sig_on :: "int \<Rightarrow> sys \<Rightarrow> nat \<Rightarrow> bool" where
  "sig_on sig st t \<longleftrightarrow> signal_pending_mask t st AND signal_mask sig \<noteq> 0"

lemma sig_on_bit:
  assumes "signal_is_valid sig"
  shows "sig_on sig st t \<longleftrightarrow> bit (tk_pending (threads st t)) (nat (sig - 1)) \<or>
    (\<exists>g. tk_signal (threads st t) = Some g \<and> bit (sg_pending (signals st g)) (nat (sig - 1)))"
  by (auto simp: sig_on_def has_signal [OF assms] signal_pending_mask_def task_shared_pending_def bit_or_iff split: option.splits)

text \<open>After sending, the tasks are the same and the signal is pending wherever it was and for the tasks \<open>T\<close>.\<close>

definition reached :: "int \<Rightarrow> nat set \<Rightarrow> sys \<Rightarrow> sys \<Rightarrow> bool" where
  "reached sig T st st' \<longleftrightarrow> same_ids st st' \<and> (\<forall>t. t \<in> T \<or> sig_on sig st t \<longrightarrow> sig_on sig st' t)"

lemma reached_trans: "reached sig T st st1 \<Longrightarrow> reached sig U st1 st2 \<Longrightarrow> reached sig (T \<union> U) st st2"
  by (auto simp: reached_def intro: same_ids_trans)

lemma reached_none: "reached sig {} st st"
  by (simp add: reached_def)

lemma send_signal_reach:
  assumes v: "signal_is_valid sig" and d: "\<not> task_signal_target_dead (Some l) st" and n: "tk_signal (threads st l) = None"
  shows "\<exists>st'. send_signal_info sig (Some i) (Some l) st = (Inr (), st') \<and> reached sig {l} st st'"
proof -
  define st1 where "st1 = signal_clear_opposite_pending l sig st"
  define st3 where "st3 = queue_signal l sig i st1"
  have s1: "same_ids st st1"
    by (auto simp: st1_def signal_clear_opposite_pending_def signal_clear_pending_def same_ids_def threads_upd task_signal_target_dead_def)
  have "same_ids st1 st3"
    by (auto simp: st3_def queue_signal_def signal_mark_pending_def same_ids_def threads_upd task_signal_target_dead_def)
  with s1 have s: "same_ids st (wake_signal_target l sig st3)" by (blast intro: same_ids_trans wake_same(1))
  have r: "send_signal_info sig (Some i) (Some l) st = (Inr (), wake_signal_target l sig st3)"
    using v d n s1 by (simp add: send_signal_info_def send_signal_info_internal_def Let_def st3_def st1_def
        signal_clear_task_shared_opposite_pending_def same_ids_def)
  have p1: "tk_pending (threads st1 t) = (if t = l then tk_pending (threads st t) AND NOT (opposite_mask sig) else tk_pending (threads st t))"
    "signals st1 = signals st" for t
    by (simp_all add: st1_def signal_clear_opposite_pending_def signal_clear_pending_def opposite_mask_def threads_upd)
  have p3: "tk_pending (threads st3 t) = (if t = l then tk_pending (threads st1 t) OR signal_mask sig else tk_pending (threads st1 t))"
    "signals st3 = signals st1" for t
    by (auto simp: st3_def queue_signal_def signal_mark_pending_def threads_upd has_signal_0 [OF v] bit_or_iff bit_signal_mask [OF v]
        intro!: bit_word_eqI)
  have "sig_on sig (wake_signal_target l sig st3) t" if "t = l \<or> sig_on sig st t" for t
    using that s unfolding sig_on_bit [OF v] wake_same p3 p1
    by (auto simp: bit_or_iff bit_signal_mask [OF v] same_ids_def)
  then show ?thesis using r s by (auto simp: reached_def)
qed

lemma send_group_reach:
  assumes v: "signal_is_valid sig" and d: "\<not> task_signal_target_dead (Some l) st"
  shows "\<exists>st'. send_group_signal_info sig (Some i) (Some l) st = (Inr (), st') \<and> reached sig {l} st st'"
proof (cases "tk_signal (threads st l)")
  case None
  then have "send_group_signal_info sig (Some i) (Some l) st = send_signal_info sig (Some i) (Some l) st"
    using v d by (simp add: send_group_signal_info_def)
  then show ?thesis using send_signal_reach [OF v d None] by simp
next
  case (Some g)
  obtain st' where st': "send_group_signal_info sig (Some i) (Some l) st = (Inr (), st')" "same_ids st st'"
    "signals st' = (signals st)(g := queue_shared sig i (signals st g))"
    "\<And>t. tk_pending (threads st' t) =
      (if t \<in> group_members l st then tk_pending (threads st t) AND NOT (opposite_mask sig) else tk_pending (threads st t))"
    using send_group_effect [OF v d Some] by metis
  have "sig_on sig st' t" if "t = l \<or> sig_on sig st t" for t
    using that st'(2) Some opposite_not_self [OF v] unfolding sig_on_bit [OF v] st'(3,4)
    by (auto simp: same_ids_def queue_shared_pending [OF v] bit_or_iff bit_andnot bit_signal_mask [OF v])
  then show ?thesis using st'(1,2) by (auto simp: reached_def)
qed

lemma send_group_dead: "signal_is_valid sig \<Longrightarrow> task_signal_target_dead (Some l) st \<Longrightarrow>
    send_group_signal_info sig (Some i) (Some l) st = (Inl ESRCH, st)"
  by (simp add: send_group_signal_info_def)

text \<open>
  The tasks a call of \<^verbatim>\<open>kill\<close> is meant for: the live leader of the thread group \<open>pid\<close>; for \<open>0\<close> and negative numbers
  the live leaders of the caller's process group, of the process group \<open>- pid\<close>, and for \<open>- 1\<close> of all user processes
  except init and the caller's own.
\<close>

definition kill_match :: "int \<Rightarrow> sys \<Rightarrow> nat \<Rightarrow> bool" where
  "kill_match pid st t \<longleftrightarrow>
     (if pid = - 1 then tk_user (threads st t) \<and> \<not> init_process_is_task t st \<and> tk_tgid (threads st t) \<noteq> tk_tgid (threads st (current st))
      else
        let pgid = (if pid = 0 then tk_pgid (threads st (current st)) else - pid) in
        tk_pgid (threads st t) = pgid \<and> 0 < pgid \<and> (pid = 0 \<or> pgid \<le> PID_MAX))"

definition kill_targets :: "int \<Rightarrow> sys \<Rightarrow> nat set" where
  "kill_targets pid st = {t. task_is_group_leader t st \<and> \<not> task_signal_target_dead (Some t) st \<and>
     (if pid > 0 then task_find_thread pid st = Some t \<and> tk_tgid (threads st t) = pid
      else (\<exists>nr\<in>{1..PID_MAX}. task_find_thread nr st = Some t) \<and> kill_match pid st t)}"

definition found_in :: "(nat \<Rightarrow> bool) \<Rightarrow> int list \<Rightarrow> sys \<Rightarrow> nat set" where
  "found_in P nrs st = {t. task_is_group_leader t st \<and> \<not> task_signal_target_dead (Some t) st \<and>
     (\<exists>nr\<in>set nrs. task_find_thread nr st = Some t) \<and> P t}"

lemma same_ids_found:
  assumes "same_ids st st'"
  shows "task_find_thread nr st' = task_find_thread nr st" and "task_is_group_leader t st' = task_is_group_leader t st"
    and "kill_match pid st' = kill_match pid st" and "found_in P nrs st' = found_in P nrs st"
    and "init_process_is_task t st' = init_process_is_task t st"
  using assms by (auto simp: same_ids_def task_find_thread_def task_is_group_leader_def kill_match_def init_process_is_task_def
      found_in_def fun_eq_iff split: option.splits)

lemma found_in_Cons:
  "found_in P (nr # nrs) st =
     (case task_find_thread nr st of
        None \<Rightarrow> {}
      | Some t \<Rightarrow> if task_is_group_leader t st \<and> \<not> task_signal_target_dead (Some t) st \<and> P t then {t} else {}) \<union> found_in P nrs st"
  by (auto simp: found_in_def split: option.splits)

lemma pgrp_loop_reach:
  assumes v: "signal_is_valid sig"
  shows "\<exists>st'. pgrp_loop sig (Some i) pgid 0 nrs (pf, dl, None, st) =
      (pf, dl \<or> found_in (\<lambda>t. tk_pgid (threads st t) = pgid) nrs st \<noteq> {}, None, st') \<and>
    reached sig (found_in (\<lambda>t. tk_pgid (threads st t) = pgid) nrs st) st st' \<and>
    (found_in (\<lambda>t. tk_pgid (threads st t) = pgid) nrs st = {} \<longrightarrow> st' = st)"
proof (induction nrs arbitrary: dl st)
  case Nil
  show ?case by (simp add: found_in_def reached_none)
next
  case (Cons nr nrs)
  let ?P = "\<lambda>st t. tk_pgid (threads st t) = pgid"
  have s0: "sig \<noteq> 0" using v by (simp add: signal_is_valid_def)
  show ?case
  proof (cases "\<exists>t. task_find_thread nr st = Some t \<and> task_is_group_leader t st \<and> ?P st t")
    case False
    then show ?thesis using Cons [of dl st] by (auto simp: found_in_Cons split: option.splits)
  next
    case True
    then obtain t where t: "task_find_thread nr st = Some t" "task_is_group_leader t st" "?P st t" by blast
    show ?thesis
    proof (cases "task_signal_target_dead (Some t) st")
      case True
      then show ?thesis using t s0 Cons [of dl st] send_group_dead [OF v True] by (simp add: found_in_Cons)
    next
      case False
      obtain st1 where st1: "send_group_signal_info sig (Some i) (Some t) st = (Inr (), st1)" "reached sig {t} st st1"
        using send_group_reach [OF v False] by blast
      have f: "found_in (?P st1) nrs st1 = found_in (?P st) nrs st"
        using st1(2) same_ids_found(4) [of st st1 "?P st1"] by (simp add: reached_def same_ids_def)
      show ?thesis
        using t s0 False st1 Cons [of True st1] reached_trans [OF st1(2)] unfolding f by (fastforce simp: found_in_Cons)
    qed
  qed
qed

lemma kill_all_reach:
  assumes v: "signal_is_valid sig" and c: "c = tk_tgid (threads st (current st))"
  shows "\<exists>st'. kill_all_loop sig (Some i) c nrs (fd, None, st) = (fd \<or> found_in (kill_match (- 1) st) nrs st \<noteq> {}, None, st') \<and>
    reached sig (found_in (kill_match (- 1) st) nrs st) st st' \<and> (found_in (kill_match (- 1) st) nrs st = {} \<longrightarrow> st' = st)"
  using c
proof (induction nrs arbitrary: fd st)
  case Nil
  show ?case by (simp add: found_in_def reached_none)
next
  case (Cons nr nrs)
  have s0: "sig \<noteq> 0" using v by (simp add: signal_is_valid_def)
  show ?case
  proof (cases "\<exists>t. task_find_thread nr st = Some t \<and> task_is_group_leader t st \<and> \<not> task_signal_target_dead (Some t) st \<and> kill_match (- 1) st t")
    case False
    then show ?thesis using Cons(1) [OF Cons(2), of fd]
      by (auto simp: found_in_Cons task_is_user_process_def task_signal_target_dead_def kill_match_def Cons(2) split: option.splits)
  next
    case True
    then obtain t where t: "task_find_thread nr st = Some t" "task_is_group_leader t st" "\<not> task_signal_target_dead (Some t) st"
      "kill_match (- 1) st t" by blast
    obtain st1 where st1: "send_group_signal_info sig (Some i) (Some t) st = (Inr (), st1)" "reached sig {t} st st1"
      using send_group_reach [OF v t(3)] by blast
    have id: "same_ids st st1" using st1(2) by (simp add: reached_def)
    have f: "found_in (kill_match (- 1) st1) nrs st1 = found_in (kill_match (- 1) st) nrs st"
      by (simp add: same_ids_found [OF id])
    have c1: "c = tk_tgid (threads st1 (current st1))" using id Cons(2) by (simp add: same_ids_def)
    obtain st' where st': "kill_all_loop sig (Some i) c nrs (True, None, st1) = (True, None, st')"
        "reached sig (found_in (kill_match (- 1) st) nrs st) st1 st'"
      using Cons(1) [OF c1, of True] unfolding f by auto
    have "kill_all_loop sig (Some i) c (nr # nrs) (fd, None, st) = kill_all_loop sig (Some i) c nrs (True, None, st1)"
      using t s0 st1(1) by (simp add: task_is_user_process_def task_signal_target_dead_def kill_match_def Cons(2))
    moreover have "found_in (kill_match (- 1) st) (nr # nrs) st = {t} \<union> found_in (kill_match (- 1) st) nrs st"
      using t by (simp add: found_in_Cons)
    ultimately show ?thesis using st'(1) reached_trans [OF st1(2) st'(2)] by simp
  qed
qed

lemma pgrp_probe: "pgrp_loop 0 info pgid 0 nrs (pf, dl, fe, st) =
    (pf \<or> (\<exists>nr\<in>set nrs. \<exists>t. task_find_thread nr st = Some t \<and> task_is_group_leader t st \<and> tk_pgid (threads st t) = pgid), dl, fe, st)"
  by (induction nrs arbitrary: pf) (auto split: option.splits)

lemma kill_all_probe:
  assumes "c = tk_tgid (threads st (current st))"
  shows "kill_all_loop 0 info c nrs (fd, fe, st) = (fd \<or> found_in (kill_match (- 1) st) nrs st \<noteq> {}, fe, st)"
proof (induction nrs arbitrary: fd)
  case Nil
  show ?case by (simp add: found_in_def)
next
  case (Cons nr nrs)
  then show ?case
    by (auto simp: found_in_Cons task_is_user_process_def task_signal_target_dead_def kill_match_def assms split: option.splits)
qed

lemma kill_targets_found:
  "pid \<le> 0 \<Longrightarrow> kill_targets pid st = found_in (kill_match pid st) [1..PID_MAX] st"
  by (auto simp: kill_targets_def found_in_def)

lemma pgrp_reach:
  assumes v: "signal_is_valid sig" and p: "0 < pgid"
    and T: "T = found_in (\<lambda>t. tk_pgid (threads st t) = pgid) [1..PID_MAX] st"
  shows "\<exists>st'. send_pgrp_signal_info sig (Some i) pgid 0 st = (if T = {} then Inl ESRCH else Inr (), st') \<and>
    reached sig T st st' \<and> (T = {} \<longrightarrow> st' = st)"
  using pgrp_loop_reach [OF v, of i pgid "[1..PID_MAX]" False False st] v p unfolding T [symmetric]
  by (auto simp: send_pgrp_signal_info_def signal_is_valid_def)

lemma kill_match_pgrp:
  "pid \<le> 0 \<Longrightarrow> pid \<noteq> - 1 \<Longrightarrow> pgid = (if pid = 0 then tk_pgid (threads st (current st)) else - pid) \<Longrightarrow>
   kill_match pid st = (\<lambda>t. tk_pgid (threads st t) = pgid \<and> 0 < pgid \<and> (pid = 0 \<or> pgid \<le> PID_MAX))"
  by (auto simp: kill_match_def fun_eq_iff Let_def)

lemma do_kill_reach:
  assumes v: "signal_is_valid sig"
  shows "\<exists>st'. do_kill pid sig st = (if kill_targets pid st = {} then Inl ESRCH else Inr (), st') \<and>
    reached sig (kill_targets pid st) st st' \<and> (kill_targets pid st = {} \<longrightarrow> st' = st)"
proof -
  have s0: "sig \<noteq> 0" using v by (simp add: signal_is_valid_def)
  consider "pid > 0" | "pid = - 1" | "pid \<le> 0" "pid \<noteq> - 1" by linarith
  then show ?thesis
  proof cases
    case 1
    have t: "kill_targets pid st = (case task_find_group_leader pid st of None \<Rightarrow> {}
        | Some t \<Rightarrow> if task_signal_target_dead (Some t) st then {} else {t})"
      using 1 by (auto simp: kill_targets_def task_find_group_leader_def split: option.splits)
    show ?thesis
    proof (cases "task_find_group_leader pid st")
      case None
      then show ?thesis using 1 v t by (simp add: do_kill_def Let_def reached_none)
    next
      case (Some u)
      then show ?thesis
        using 1 v s0 t send_group_reach [OF v, of u st "user_info sig st"] send_group_dead [OF v, of u st "user_info sig st"] reached_none
        by (cases "task_signal_target_dead (Some u) st") (simp_all add: do_kill_def Let_def)
    qed
  next
    case 2
    obtain st' where k: "kill_all_loop sig (Some (user_info sig st)) (tk_tgid (threads st (current st))) [1..PID_MAX] (False, None, st) =
        (kill_targets pid st \<noteq> {}, None, st')" and r: "reached sig (kill_targets pid st) st st'" "kill_targets pid st = {} \<longrightarrow> st' = st"
      using kill_all_reach [OF v refl, where st = st and i = "user_info sig st" and nrs = "[1..PID_MAX]" and fd = False] 2
      by (auto simp: kill_targets_found)
    have "do_kill pid sig st = (if kill_targets pid st = {} then Inl ESRCH else Inr (), st')"
      using 2 v k by (simp add: do_kill_def Let_def kill_all_processes_def)
    then show ?thesis using r by blast
  next
    case 3
    define pgid where "pgid = (if pid = 0 then tk_pgid (threads st (current st)) else - pid)"
    have t: "kill_targets pid st =
        (if 0 < pgid \<and> (pid = 0 \<or> pgid \<le> PID_MAX) then found_in (\<lambda>t. tk_pgid (threads st t) = pgid) [1..PID_MAX] st else {})"
      using 3 by (auto simp: kill_targets_found kill_match_pgrp [OF _ _ pgid_def] found_in_def)
    have k: "do_kill pid sig st =
        (if pid < 0 \<and> pgid > PID_MAX then (Inl ESRCH, st) else send_pgrp_signal_info sig (Some (user_info sig st)) pgid 0 st)"
      using 3 v by (simp add: do_kill_def Let_def pgid_def)
    show ?thesis
    proof (cases "0 < pgid \<and> (pid = 0 \<or> pgid \<le> PID_MAX)")
      case True
      then show ?thesis using pgrp_reach [OF v _ refl, where pgid = pgid and st = st and i = "user_info sig st"] 3 unfolding t k by auto
    next
      case False
      then show ?thesis using 3 v s0 unfolding t k by (auto simp: reached_none send_pgrp_signal_info_def)
    qed
  qed
qed

lemma do_kill_probe:
  shows "snd (do_kill pid 0 st) = st" and "kill_targets pid st \<noteq> {} \<Longrightarrow> fst (do_kill pid 0 st) = Inr ()"
    and "fst (do_kill pid 0 st) \<in> {Inr (), Inl ESRCH}"
proof -
  show "snd (do_kill pid 0 st) = st" "fst (do_kill pid 0 st) \<in> {Inr (), Inl ESRCH}"
    by (auto simp: do_kill_def Let_def kill_all_processes_def kill_all_probe send_pgrp_signal_info_def pgrp_probe split: option.splits)
  show "fst (do_kill pid 0 st) = Inr ()" if "kill_targets pid st \<noteq> {}"
  proof -
    from that obtain t where t: "t \<in> kill_targets pid st" by blast
    consider "pid > 0" | "pid = - 1" | "pid \<le> 0" "pid \<noteq> - 1" by linarith
    then show ?thesis
    proof cases
      case 1
      then show ?thesis using t by (auto simp: do_kill_def kill_targets_def task_find_group_leader_def)
    next
      case 2
      then show ?thesis using that by (simp add: do_kill_def Let_def kill_all_processes_def kill_all_probe kill_targets_found)
    next
      case 3
      then show ?thesis using t
        by (auto simp: do_kill_def Let_def send_pgrp_signal_info_def pgrp_probe kill_targets_def kill_match_def split: if_splits)
    qed
  qed
qed

text \<open>
  C11: Whom \<^verbatim>\<open>kill\<close> reaches. An invalid signal number is refused and signal 0 changes nothing, and reports success
  when there is a target. A valid signal becomes pending for every target (one thread group, a process group, the caller's
  process group, or every user process but init and the caller's), stays pending wherever it already was, and the call
  succeeds exactly when there is a target; with none it fails with \<^verbatim>\<open>ESRCH\<close> and changes nothing.
\<close>

theorem do_kill_spec:
  "case do_kill pid sig st of (r, st') \<Rightarrow>
     (sig \<noteq> 0 \<and> \<not> signal_is_valid sig \<longrightarrow> r = Inl EINVAL \<and> st' = st) \<and>
     (sig = 0 \<longrightarrow> st' = st \<and> r \<in> {Inr (), Inl ESRCH} \<and> (kill_targets pid st \<noteq> {} \<longrightarrow> r = Inr ())) \<and>
     (signal_is_valid sig \<longrightarrow>
        r = (if kill_targets pid st = {} then Inl ESRCH else Inr ()) \<and> (kill_targets pid st = {} \<longrightarrow> st' = st) \<and>
        same_ids st st' \<and> (\<forall>t. t \<in> kill_targets pid st \<or> sig_on sig st t \<longrightarrow> sig_on sig st' t))"
proof -
  have "sig \<noteq> 0 \<and> \<not> signal_is_valid sig \<Longrightarrow> do_kill pid sig st = (Inl EINVAL, st)" by (simp add: do_kill_def)
  moreover have "\<not> signal_is_valid 0" by (simp add: signal_is_valid_def)
  moreover have "do_kill pid 0 st = (fst (do_kill pid 0 st), st)" using do_kill_probe(1) by (metis prod.collapse)
  ultimately show ?thesis
    using do_kill_reach [of sig pid st] do_kill_probe(2,3) [of pid st]
    by (cases "sig = 0"; cases "signal_is_valid sig"; cases "kill_targets pid st = {}") (auto simp: reached_def split: prod.splits)
qed

definition ex_kill :: sys where
  "ex_kill = (upd_thread 5 (\<lambda>k. k\<lparr>tk_pid := 1, tk_tgid := 1, tk_pgid := 7, tk_leader := 5, tk_user := True\<rparr>) ex_user)\<lparr>registry := ex_pids\<rparr>"

theorem do_kill_spec_witness:
  "fst (do_kill (- 7) SIGKILL ex_kill) = Inr () \<and> sig_on SIGKILL (snd (do_kill (- 7) SIGKILL ex_kill)) 5"
proof -
  have "task_find_thread 1 ex_kill = Some 5" by code_simp
  moreover have "task_is_group_leader 5 ex_kill" "\<not> task_signal_target_dead (Some 5) ex_kill" "kill_match (- 7) ex_kill 5" by code_simp+
  ultimately have "5 \<in> kill_targets (- 7) ex_kill" by (force simp: kill_targets_def PID_MAX_def)
  moreover have "signal_is_valid SIGKILL" by code_simp
  ultimately show ?thesis using do_kill_spec [where pid = "- 7" and sig = SIGKILL and st = ex_kill] by (auto split: prod.splits)
qed

end
