(* ===== verification/Spec2Isabelle.thy ===== *)
theory Spec2Isabelle
  imports Vma Bitmap Refcount Pid Kfifo Pipe Mlfq Buddy Pgtable Fdtable Trap Uaccess Rseq Sigsend
begin

text \<open>
  A verification development for the kernel CuteOS.
\<close>

end
